(* ===== verification/Prelude.thy ===== *)
theory Prelude
  imports Main "HOL-Library.Word"
begin

unbundle bit_operations_syntax

text \<open>
  The vocabulary every component of the kernel model shares: unsigned machine arithmetic on
  \<^typ>\<open>nat\<close> with the wrap-around written out, the page constants of
  \<^verbatim>\<open>src/src/mm/pmm/pmm.h\<close>, and the generic lemmas on folds, counting and bits that the
  component theories use. C integers that are only compared or used as indices are \<^typ>\<open>nat\<close>;
  wherever the source adds, subtracts or multiplies, the result goes through \<open>u64\<close> or
  \<open>sub64\<close>, so overflow behaves as in C. Bitmap words and page-table entries, which the
  source manipulates bit by bit, are \<^typ>\<open>64 word\<close>.

  Console output (\<^verbatim>\<open>uart_*\<close>) has no effect on any modelled state and is left out
  of every definition.
\<close>

section \<open>Collections\<close>

named_theorems word_size_simps \<open>wrap-around arithmetic that does not wrap\<close>
named_theorems frame_simps \<open>fields an operation leaves alone\<close>

section \<open>Unsigned machine arithmetic\<close>

definition u64 :: "nat \<Rightarrow> nat" where
  "u64 n = n mod 2 ^ 64"

definition u32 :: "nat \<Rightarrow> nat" where
  "u32 n = n mod 2 ^ 32"

definition sub64 :: "nat \<Rightarrow> nat \<Rightarrow> nat" where
  "sub64 a b = (a + 2 ^ 64 - b) mod 2 ^ 64"

text \<open>The conversion of an unsigned value to a signed 32-bit result.\<close>

definition to_int32 :: "nat \<Rightarrow> int" where
  "to_int32 n = (if u32 n < 2 ^ 31 then int (u32 n) else int (u32 n) - 2 ^ 32)"

lemma u64_id [word_size_simps]: "n < 2 ^ 64 \<Longrightarrow> u64 n = n"
  by (simp add: u64_def)

lemma u64_less [simp]: "u64 n < 2 ^ 64"
  by (simp add: u64_def)

lemma u32_id [word_size_simps]: "n < 2 ^ 32 \<Longrightarrow> u32 n = n"
  by (simp add: u32_def)

lemma u32_less [simp]: "u32 n < 2 ^ 32"
  by (simp add: u32_def)

lemma sub64_id [word_size_simps]:
  assumes "b \<le> a" and "a < 2 ^ 64"
  shows "sub64 a b = a - b"
proof -
  have "a + 2 ^ 64 - b = (a - b) + 2 ^ 64"
    using assms(1) by linarith
  then have "sub64 a b = (a - b) mod 2 ^ 64"
    by (simp only: sub64_def mod_add_self2)
  also have "\<dots> = a - b"
    using assms(2) by (intro mod_less) linarith
  finally show ?thesis .
qed

lemma sub64_less [simp]: "sub64 a b < 2 ^ 64"
  by (simp add: sub64_def)

lemma u64_unat: "u64 n = unat (of_nat n :: 64 word)"
  by (simp add: u64_def unsigned_of_nat take_bit_eq_mod)

section \<open>Pages\<close>

abbreviation PAGE_SIZE :: nat where
  "PAGE_SIZE \<equiv> 4096"

definition page_align_up :: "nat \<Rightarrow> nat" where
  "page_align_up a = u64 (a + 4095) div 4096 * 4096"

definition page_align_down :: "nat \<Rightarrow> nat" where
  "page_align_down a = a div 4096 * 4096"

text \<open>
  The C macros compute \<^verbatim>\<open>(a + 4095) & ~4095\<close> and \<^verbatim>\<open>a & ~4095\<close>; the
  arithmetic forms above are what those masks compute.
\<close>

lemma and_not_mask_12: "(w :: 64 word) AND NOT 4095 = push_bit 12 (drop_bit 12 w)"
proof -
  have m: "(4095 :: 64 word) = mask 12"
    by (simp add: mask_eq_exp_minus_1)
  show ?thesis
    unfolding m by (rule bit_word_eqI) (auto simp: bit_simps)
qed

lemma unat_and_not_mask_12: "unat ((w :: 64 word) AND NOT 4095) = unat w div 4096 * 4096"
proof -
  have "unat w < 2 ^ 64"
    using unsigned_less [of w] by simp
  then have "unat w div 4096 * 4096 < 2 ^ 64"
    using div_times_less_eq_dividend [of "unat w" 4096] by linarith
  then show ?thesis
    unfolding and_not_mask_12
    by (simp only: unsigned_push_bit_eq unsigned_drop_bit_eq)
      (simp add: take_bit_eq_mod drop_bit_eq_div push_bit_eq_mult)
qed

lemma page_align_down_word: "page_align_down (unat (w :: 64 word)) = unat (w AND NOT 4095)"
  by (simp only: page_align_down_def unat_and_not_mask_12)

lemma page_align_up_word: "page_align_up (unat (w :: 64 word)) = unat ((w + 4095) AND NOT 4095)"
proof -
  have "u64 (unat w + 4095) = unat (w + 4095)"
    by (simp add: u64_def unat_word_ariths)
  then show ?thesis by (simp only: page_align_up_def unat_and_not_mask_12)
qed

lemma page_align_up_mod [simp]: "page_align_up a mod 4096 = 0"
  by (simp add: page_align_up_def)

lemma round_up_bounds:
  fixes a :: nat
  shows "a \<le> (a + 4095) div 4096 * 4096" and "(a + 4095) div 4096 * 4096 < a + 4096"
  by linarith+

lemma page_align_up_bounds:
  assumes "a + 4095 < 2 ^ 64"
  shows "a \<le> page_align_up a" and "page_align_up a < a + 4096"
  using assms round_up_bounds [of a] by (simp_all only: page_align_up_def u64_id)

lemma page_align_up_id:
  assumes "a mod 4096 = 0" and "a + 4095 < 2 ^ 64"
  shows "page_align_up a = a"
proof -
  obtain k where k: "a = k * 4096"
    using assms(1) by (metis div_mult_mod_eq add.right_neutral)
  have "(a + 4095) div 4096 * 4096 = a"
    by (simp add: k)
  with assms(2) show ?thesis by (simp only: page_align_up_def u64_id)
qed

lemma mod_diff_0: "(a :: nat) mod m = 0 \<Longrightarrow> b mod m = 0 \<Longrightarrow> (a - b) mod m = 0"
  by (simp add: mod_eq_0_iff_dvd dvd_diff_nat)

lemma div_mult_self_mod_0: "(a :: nat) mod m = 0 \<Longrightarrow> a div m * m = a"
  by (simp add: mod_eq_0_iff_dvd)

section \<open>Lists and folds\<close>

lemma fold_inv:
  assumes "\<And>x s. x \<in> set xs \<Longrightarrow> P s \<Longrightarrow> P (f x s)" and "P s"
  shows "P (fold f xs s)"
  using assms by (induction xs arbitrary: s) auto

lemma fold_field:
  assumes "\<And>x s. g (f x s) = g s"
  shows "g (fold f xs s) = g s"
  by (induction xs arbitrary: s) (simp_all add: assms)

end
