(* ===== verification/Interfaces.thy ===== *)
theory Interfaces
  imports Prelude
begin

text \<open>
  The contracts between the kernel's components, as locales. A component that hands out
  resources discharges the contract once, in its own theory; the lemmas proved here are then
  available to every client.

  \<open>page_pool\<close> is what the memory manager's clients (heap, VMA list, page tables, ELF
  loader, scheduler) rely on when they hold physical pages: an allocation returns a page
  nobody owns, and releasing a page takes exactly that page out of the owned set.
\<close>

locale page_pool =
  fixes inv :: "'s \<Rightarrow> bool"
    and owned :: "'s \<Rightarrow> nat set"
    and pinned :: "'s \<Rightarrow> nat set"
    and alloc1 :: "'s \<Rightarrow> 's \<times> nat"
    and free1 :: "'s \<Rightarrow> nat \<Rightarrow> 's"
  assumes alloc1_law:
      "inv s \<Longrightarrow> alloc1 s = (s', a) \<Longrightarrow>
         inv s' \<and> pinned s' = pinned s \<and>
         (a = 0 \<and> s' = s \<or> a \<noteq> 0 \<and> a \<notin> owned s \<and> owned s' = insert a (owned s))"
    and free1_inv: "inv s \<Longrightarrow> inv (free1 s a)"
    and free1_pinned: "inv s \<Longrightarrow> pinned (free1 s a) = pinned s"
    and free1_owned: "inv s \<Longrightarrow> owned (free1 s a) = owned s - ({a} - pinned s)"
    and pinned_owned: "inv s \<Longrightarrow> pinned s \<subseteq> owned s"
begin

definition free_all :: "nat list \<Rightarrow> 's \<Rightarrow> 's" where
  "free_all as s = fold (\<lambda>a s. free1 s a) as s"

lemma free_all_law:
  "inv s \<Longrightarrow> inv (free_all as s) \<and> pinned (free_all as s) = pinned s \<and>
     owned (free_all as s) = owned s - (set as - pinned s)"
proof (induction as arbitrary: s)
  case Nil
  then show ?case by (simp add: free_all_def)
next
  case (Cons a as)
  have step: "free_all (a # as) s = free_all as (free1 s a)"
    by (simp add: free_all_def)
  note IH = Cons.IH [OF free1_inv [OF Cons.prems, of a]]
  show ?case
    unfolding step
    using IH Cons.prems by (auto simp: free1_owned free1_pinned)
qed

lemma free_all_owned_subset:
  assumes "inv s" and "set as \<inter> pinned s = {}"
  shows "owned (free_all as s) = owned s - set as"
  using free_all_law [OF assms(1), of as] assms(2) by blast

lemma alloc_free_owned:
  assumes "inv s" and "alloc1 s = (s', a)" and "a \<noteq> 0"
  shows "owned (free1 s' a) = owned s"
proof -
  from alloc1_law [OF assms(1,2)] assms(3)
  have s': "inv s'" "pinned s' = pinned s" and a: "a \<notin> owned s" "owned s' = insert a (owned s)"
    by auto
  have "a \<notin> pinned s"
    using a(1) pinned_owned [OF assms(1)] by blast
  then show ?thesis
    using s' a by (auto simp: free1_owned)
qed

end

text \<open>Contiguous runs on top of single pages.\<close>

locale page_run_pool = page_pool +
  fixes allocn :: "'a \<Rightarrow> nat \<Rightarrow> 'a \<times> nat"
    and freen :: "'a \<Rightarrow> nat \<Rightarrow> nat \<Rightarrow> 'a"
    and run :: "nat \<Rightarrow> nat \<Rightarrow> nat list"
  assumes allocn_law:
      "inv s \<Longrightarrow> allocn s n = (s', a) \<Longrightarrow>
         inv s' \<and> pinned s' = pinned s \<and>
         (a = 0 \<and> s' = s \<or>
          a \<noteq> 0 \<and> set (run a n) \<inter> owned s = {} \<and> owned s' = owned s \<union> set (run a n))"
    and freen_law: "inv s \<Longrightarrow> freen s a n = free_all (run a n) s"
begin

lemma freen_inv: "inv s \<Longrightarrow> inv (freen s a n)"
  using freen_law free_all_law by metis

lemma freen_owned: "inv s \<Longrightarrow> owned (freen s a n) = owned s - (set (run a n) - pinned s)"
  using freen_law free_all_law by metis

lemma freen_pinned: "inv s \<Longrightarrow> pinned (freen s a n) = pinned s"
  using freen_law free_all_law by metis

lemma allocn_freen_owned:
  assumes "inv s" and "allocn s n = (s', a)" and "a \<noteq> 0"
  shows "owned (freen s' a n) = owned s"
proof -
  from allocn_law [OF assms(1,2)] assms(3)
  have s': "inv s'" "pinned s' = pinned s"
    and a: "set (run a n) \<inter> owned s = {}" "owned s' = owned s \<union> set (run a n)"
    by auto
  then show ?thesis
    using pinned_owned [OF assms(1)] by (auto simp: freen_owned)
qed

end

text \<open>
  What the kernel's clients rely on from the heap: an allocation is a live block of at least the
  requested size that overlaps no other live block, and freeing a live block ends exactly that
  block's life.
\<close>

locale allocator =
  fixes ainv :: "'s \<Rightarrow> bool"
    and live :: "'s \<Rightarrow> (nat \<times> nat) set"
    and malloc :: "'s \<Rightarrow> nat \<Rightarrow> ('s \<times> nat) option"
    and mfree :: "'s \<Rightarrow> nat \<Rightarrow> 's option"
  assumes malloc_law:
      "ainv s \<Longrightarrow> \<exists>s' p. malloc s n = Some (s', p) \<and> ainv s' \<and>
         (p = 0 \<and> live s' = live s \<or>
          p \<noteq> 0 \<and> (\<forall>j. (p, j) \<notin> live s) \<and> (\<exists>k \<ge> n. live s' = insert (p, k) (live s)))"
    and mfree_law:
      "ainv s \<Longrightarrow> (p, k) \<in> live s \<Longrightarrow>
         \<exists>s'. mfree s p = Some s' \<and> ainv s' \<and> live s' = live s - {(p, k)}"
    and live_disjoint:
      "ainv s \<Longrightarrow> (p, j) \<in> live s \<Longrightarrow> (q, k) \<in> live s \<Longrightarrow> p \<noteq> q \<Longrightarrow> {p..<p + j} \<inter> {q..<q + k} = {}"
begin

lemma malloc_fresh:
  assumes "ainv s" and "malloc s n = Some (s', p)" and "p \<noteq> 0" and "(q, k) \<in> live s"
  shows "{p..<p + n} \<inter> {q..<q + k} = {}"
proof -
  from malloc_law [OF assms(1), of n] assms(2,3) obtain j where
    j: "ainv s'" "\<forall>j. (p, j) \<notin> live s" "n \<le> j" "live s' = insert (p, j) (live s)"
    by auto
  with assms(4) have "p \<noteq> q" by auto
  with j assms(4) have "{p..<p + j} \<inter> {q..<q + k} = {}"
    by (intro live_disjoint [of s']) auto
  with j(3) show ?thesis by auto
qed

lemma malloc_mfree:
  assumes "ainv s" and "malloc s n = Some (s', p)" and "p \<noteq> 0"
  shows "\<exists>s''. mfree s' p = Some s'' \<and> ainv s'' \<and> live s'' = live s"
proof -
  from malloc_law [OF assms(1), of n] assms(2,3) obtain j where
    j: "ainv s'" "\<forall>j. (p, j) \<notin> live s" "live s' = insert (p, j) (live s)"
    by auto
  with mfree_law [of s' p j] show ?thesis by auto
qed

end

text \<open>
  The heap and the page allocator as one service, which is how the address-space code uses them:
  \<open>others\<close> are the allocated pages that do not belong to the heap. Heap calls leave them
  alone, and releasing one of them leaves the heap alone.
\<close>

locale kernel_memory = allocator ainv live malloc mfree
  for ainv :: "'s \<Rightarrow> bool" and live :: "'s \<Rightarrow> (nat \<times> nat) set"
    and malloc :: "'s \<Rightarrow> nat \<Rightarrow> ('s \<times> nat) option" and mfree :: "'s \<Rightarrow> nat \<Rightarrow> 's option" +
  fixes others :: "'s \<Rightarrow> nat set"
    and release :: "nat \<Rightarrow> 's \<Rightarrow> 's"
  assumes malloc_others: "ainv s \<Longrightarrow> malloc s n = Some (s', p) \<Longrightarrow> others s' = others s"
    and mfree_others: "mfree s p = Some s' \<Longrightarrow> others s' = others s"
    and release_law:
      "ainv s \<Longrightarrow> a \<in> others s \<Longrightarrow>
         ainv (release a s) \<and> others (release a s) = others s - {a} \<and> live (release a s) = live s"
begin

lemma release_all:
  assumes "ainv s" and "distinct as" and "set as \<subseteq> others s"
  shows "ainv (fold release as s) \<and> others (fold release as s) = others s - set as \<and>
    live (fold release as s) = live s"
  using assms
proof (induction as arbitrary: s)
  case (Cons a as)
  then have a: "ainv (release a s)" "others (release a s) = others s - {a}" "live (release a s) = live s"
    using release_law [of s a] by auto
  with Cons.IH [of "release a s"] Cons.prems show ?case by auto
qed simp

lemma malloc_cases:
  assumes "ainv s"
  obtains (none) s' where "malloc s n = Some (s', 0)" "ainv s'" "live s' = live s" "others s' = others s"
  | (block) s' p k where "malloc s n = Some (s', p)" "ainv s'" "p \<noteq> 0" "n \<le> k" "\<forall>j. (p, j) \<notin> live s"
      "live s' = insert (p, k) (live s)" "others s' = others s"
  using malloc_law [OF assms, of n] malloc_others [OF assms, of n] by blast

lemma mfree_cases:
  assumes "ainv s" and "(p, k) \<in> live s"
  obtains s' where "mfree s p = Some s'" "ainv s'" "live s' = live s - {(p, k)}" "others s' = others s"
  using mfree_law [OF assms] mfree_others by blast

end

end
