(* ===== verification/Pmm.thy ===== *)
theory Pmm
  imports Interfaces
begin

text \<open>
  The physical memory manager, \<^verbatim>\<open>src/src/mm/pmm/pmm.c\<close>: a bitmap with one bit per 4 KiB
  frame of the managed region (bit set = frame in use). The record holds the file's static
  variables. \<open>bitmap\<close> is the memory the C pointer \<^verbatim>\<open>bitmap\<close> addresses, one
  \<^typ>\<open>64 word\<close> per index, and is total: nothing in the C code bounds-checks it, so the
  model does not either; the invariant \<open>pmm_inv\<close> is what keeps every access below
  \<open>bitmap_size\<close>. A returned address of 0 is the source's failure value.
\<close>

section \<open>State and bit operations\<close>

record pmm =
  bitmap :: "nat \<Rightarrow> 64 word"
  bitmap_ptr :: nat
  bitmap_size :: nat
  total_pages :: nat
  used_pages :: nat
  reserved_pages :: nat
  mem_region_start :: nat
  mem_region_end :: nat

definition bitmap_set :: "nat \<Rightarrow> pmm \<Rightarrow> pmm" where
  "bitmap_set pfn p = p\<lparr>bitmap := (bitmap p)(pfn div 64 :=
     bitmap p (pfn div 64) OR push_bit (pfn mod 64) 1)\<rparr>"

definition bitmap_clear :: "nat \<Rightarrow> pmm \<Rightarrow> pmm" where
  "bitmap_clear pfn p = p\<lparr>bitmap := (bitmap p)(pfn div 64 :=
     bitmap p (pfn div 64) AND NOT (push_bit (pfn mod 64) 1))\<rparr>"

definition bitmap_test :: "nat \<Rightarrow> pmm \<Rightarrow> bool" where
  "bitmap_test pfn p \<longleftrightarrow> drop_bit (pfn mod 64) (bitmap p (pfn div 64)) AND 1 \<noteq> 0"

section \<open>Initialisation\<close>

definition pmm_init :: "nat \<Rightarrow> nat \<Rightarrow> nat \<Rightarrow> pmm \<Rightarrow> pmm" where
  "pmm_init kernel_end mem_start mem_size p =
     (let total = mem_size div PAGE_SIZE;
          size = u64 (total + 63) div 64;
          bytes = u64 (size * 8);
          base = page_align_up kernel_end;
          zeroed = (\<lambda>i. if i < size then 0 else bitmap p i);
          tail = (if total mod 64 \<noteq> 0
                  then zeroed(size - 1 := NOT (push_bit (total mod 64) 1 - 1)) else zeroed);
          reserved_end = page_align_up (u64 (base + bytes));
          reserved = sub64 reserved_end mem_start div PAGE_SIZE;
          p1 = p\<lparr>mem_region_start := mem_start, mem_region_end := u64 (mem_start + mem_size),
                 total_pages := total, bitmap_size := size, bitmap_ptr := base,
                 bitmap := tail, reserved_pages := reserved\<rparr>;
          p2 = fold bitmap_set [0..<reserved] p1
      in p2\<lparr>used_pages := reserved\<rparr>)"

definition KERNEL_VA_OFFSET :: nat where
  "KERNEL_VA_OFFSET = 0xFFFF000000000000"

definition phys_to_virt :: "nat \<Rightarrow> nat" where
  "phys_to_virt pa = u64 (pa + KERNEL_VA_OFFSET)"

definition virt_to_phys :: "nat \<Rightarrow> nat" where
  "virt_to_phys va = sub64 va KERNEL_VA_OFFSET"

definition pmm_relocate_upper :: "pmm \<Rightarrow> pmm" where
  "pmm_relocate_upper p = p\<lparr>bitmap_ptr := phys_to_virt (bitmap_ptr p)\<rparr>"

section \<open>Allocation\<close>

text \<open>
  The inner loop of \<^verbatim>\<open>pmm_allocate_page\<close>. \<open>Some\<close> is a \<^verbatim>\<open>return\<close> out of
  the function, \<open>None\<close> means the loop ran through all 64 bits.
\<close>

function pmm_scan_bits :: "pmm \<Rightarrow> nat \<Rightarrow> nat \<Rightarrow> (pmm \<times> nat) option" where
  "pmm_scan_bits p i b =
     (if b < 64 then
        (let pfn = i * 64 + b in
         if total_pages p \<le> pfn then Some (p, 0)
         else if \<not> bitmap_test pfn p then
           Some ((bitmap_set pfn p)\<lparr>used_pages := u64 (used_pages p + 1)\<rparr>,
                 u64 (mem_region_start p + u64 (pfn * 4096)))
         else pmm_scan_bits p i (b + 1))
      else None)"
  by pat_completeness auto
termination
  by (relation "measure (\<lambda>(p, i, b). 64 - b)") auto

declare pmm_scan_bits.simps [simp del]

function pmm_scan_words :: "pmm \<Rightarrow> nat \<Rightarrow> pmm \<times> nat" where
  "pmm_scan_words p i =
     (if i < bitmap_size p then
        (if bitmap p i = NOT 0 then pmm_scan_words p (i + 1)
         else (case pmm_scan_bits p i 0 of
                 Some r \<Rightarrow> r
               | None \<Rightarrow> pmm_scan_words p (i + 1)))
      else (p, 0))"
  by pat_completeness auto
termination
  by (relation "measure (\<lambda>(p, i). bitmap_size p - i)") auto

declare pmm_scan_words.simps [simp del]

definition pmm_allocate_page :: "pmm \<Rightarrow> pmm \<times> nat" where
  "pmm_allocate_page p = pmm_scan_words p 0"

text \<open>The run search of \<^verbatim>\<open>pmm_allocate_pages\<close>: first frame and length of the free run.\<close>

function pmm_scan_run :: "pmm \<Rightarrow> nat \<Rightarrow> nat \<Rightarrow> nat \<Rightarrow> nat \<Rightarrow> pmm \<times> nat" where
  "pmm_scan_run p count pfn run_start run_length =
     (if pfn < total_pages p then
        (if \<not> bitmap_test pfn p then
           (let start = (if run_length = 0 then pfn else run_start);
                len = run_length + 1
            in if len = count then
                 ((fold (\<lambda>i. bitmap_set (start + i)) [0..<count] p)
                    \<lparr>used_pages := u64 (used_pages p + count)\<rparr>,
                  u64 (mem_region_start p + u64 (start * 4096)))
               else pmm_scan_run p count (pfn + 1) start len)
         else pmm_scan_run p count (pfn + 1) run_start 0)
      else (p, 0))"
  by pat_completeness auto
termination
  by (relation "measure (\<lambda>(p, count, pfn, run_start, run_length). total_pages p - pfn)") auto

declare pmm_scan_run.simps [simp del]

definition pmm_allocate_pages :: "pmm \<Rightarrow> nat \<Rightarrow> pmm \<times> nat" where
  "pmm_allocate_pages p count =
     (if count = 0 then (p, 0)
      else if count = 1 then pmm_allocate_page p
      else pmm_scan_run p count (reserved_pages p) 0 0)"

section \<open>Release\<close>

definition pmm_free_page :: "pmm \<Rightarrow> nat \<Rightarrow> pmm" where
  "pmm_free_page p phys =
     (if phys < mem_region_start p \<or> mem_region_end p \<le> phys then p
      else if phys mod PAGE_SIZE \<noteq> 0 then p
      else (let pfn = (phys - mem_region_start p) div 4096 in
            if pfn < reserved_pages p then p
            else if \<not> bitmap_test pfn p then p
            else (bitmap_clear pfn p)\<lparr>used_pages := sub64 (used_pages p) 1\<rparr>))"

definition pmm_free_pages :: "pmm \<Rightarrow> nat \<Rightarrow> nat \<Rightarrow> pmm" where
  "pmm_free_pages p phys count =
     fold (\<lambda>i p. pmm_free_page p (u64 (phys + u64 (i * PAGE_SIZE)))) [0..<count] p"

definition pmm_get_total_pages :: "pmm \<Rightarrow> nat" where
  "pmm_get_total_pages p = total_pages p"

definition pmm_get_used_pages :: "pmm \<Rightarrow> nat" where
  "pmm_get_used_pages p = used_pages p"

definition pmm_get_free_pages :: "pmm \<Rightarrow> nat" where
  "pmm_get_free_pages p = sub64 (total_pages p) (used_pages p)"

definition pmm_get_reserved_pages :: "pmm \<Rightarrow> nat" where
  "pmm_get_reserved_pages p = reserved_pages p"

section \<open>Bits\<close>

lemma bitmap_test_bit: "bitmap_test pfn p \<longleftrightarrow> bit (bitmap p (pfn div 64)) (pfn mod 64)"
  by (simp add: bitmap_test_def and_one_eq odd_iff_mod_2_eq_one [symmetric] bit_iff_odd_drop_bit)

lemma div_mod_64_eq: "(n :: nat) div 64 = m div 64 \<Longrightarrow> n mod 64 = m mod 64 \<Longrightarrow> n = m"
  by (metis div_mult_mod_eq)

lemma bitmap_test_set [simp]: "bitmap_test n (bitmap_set m p) \<longleftrightarrow> n = m \<or> bitmap_test n p"
  using div_mod_64_eq [of n m]
  by (auto simp: bitmap_test_bit bitmap_set_def bit_simps)

lemma bitmap_test_clear [simp]: "bitmap_test n (bitmap_clear m p) \<longleftrightarrow> n \<noteq> m \<and> bitmap_test n p"
  using div_mod_64_eq [of n m]
  by (auto simp: bitmap_test_bit bitmap_clear_def bit_simps)

lemma bitmap_test_cong: "bitmap p = bitmap q \<Longrightarrow> bitmap_test n p = bitmap_test n q"
  by (simp add: bitmap_test_def)

lemma bitmap_test_update [simp]:
  "bitmap_test n (p\<lparr>used_pages := u\<rparr>) = bitmap_test n p"
  by (simp add: bitmap_test_def)

lemma bitmap_set_fields [frame_simps]:
  "bitmap_ptr (bitmap_set n p) = bitmap_ptr p"
  "bitmap_size (bitmap_set n p) = bitmap_size p"
  "total_pages (bitmap_set n p) = total_pages p"
  "used_pages (bitmap_set n p) = used_pages p"
  "reserved_pages (bitmap_set n p) = reserved_pages p"
  "mem_region_start (bitmap_set n p) = mem_region_start p"
  "mem_region_end (bitmap_set n p) = mem_region_end p"
  by (simp_all add: bitmap_set_def)

lemma bitmap_clear_fields [frame_simps]:
  "bitmap_ptr (bitmap_clear n p) = bitmap_ptr p"
  "bitmap_size (bitmap_clear n p) = bitmap_size p"
  "total_pages (bitmap_clear n p) = total_pages p"
  "used_pages (bitmap_clear n p) = used_pages p"
  "reserved_pages (bitmap_clear n p) = reserved_pages p"
  "mem_region_start (bitmap_clear n p) = mem_region_start p"
  "mem_region_end (bitmap_clear n p) = mem_region_end p"
  by (simp_all add: bitmap_clear_def)

lemma bitmap_set_run_fields [frame_simps]:
  "bitmap_ptr (fold (\<lambda>i. bitmap_set (g i)) xs p) = bitmap_ptr p"
  "bitmap_size (fold (\<lambda>i. bitmap_set (g i)) xs p) = bitmap_size p"
  "total_pages (fold (\<lambda>i. bitmap_set (g i)) xs p) = total_pages p"
  "used_pages (fold (\<lambda>i. bitmap_set (g i)) xs p) = used_pages p"
  "reserved_pages (fold (\<lambda>i. bitmap_set (g i)) xs p) = reserved_pages p"
  "mem_region_start (fold (\<lambda>i. bitmap_set (g i)) xs p) = mem_region_start p"
  "mem_region_end (fold (\<lambda>i. bitmap_set (g i)) xs p) = mem_region_end p"
  by (rule fold_field, simp add: frame_simps)+

lemma bitmap_test_set_run [simp]:
  "bitmap_test n (fold (\<lambda>i. bitmap_set (g i)) xs p) \<longleftrightarrow> n \<in> g ` set xs \<or> bitmap_test n p"
  by (induction xs arbitrary: p) auto

lemma bitmap_all_ones: "bitmap p i = NOT 0 \<Longrightarrow> b < 64 \<Longrightarrow> bitmap_test (i * 64 + b) p"
  by (simp add: bitmap_test_bit bit_simps)

lemma bitmap_clear_set:
  "\<not> bitmap_test n p \<Longrightarrow> bitmap_clear n (bitmap_set n p) = p"
proof -
  assume free: "\<not> bitmap_test n p"
  have "(bitmap p (n div 64) OR push_bit (n mod 64) 1) AND NOT (push_bit (n mod 64) 1)
      = bitmap p (n div 64)"
    using free by (intro bit_word_eqI) (auto simp: bit_simps bitmap_test_bit)
  then show ?thesis
    by (simp add: bitmap_clear_def bitmap_set_def)
qed

section \<open>Invariant\<close>

text \<open>
  The frames in use, the frames as physical addresses, and what the C code keeps true between
  its static variables: the region is page aligned, above address 0 and does not wrap; the
  kernel image and the bitmap are marked; the bits past \<open>total_pages\<close> in the last bitmap
  word are marked; and \<open>used_pages\<close> counts the marked frames.
\<close>

definition used_set :: "pmm \<Rightarrow> nat set" where
  "used_set p = {n. n < total_pages p \<and> bitmap_test n p}"

definition frame_addr :: "pmm \<Rightarrow> nat \<Rightarrow> nat" where
  "frame_addr p n = mem_region_start p + n * 4096"

definition pmm_owned :: "pmm \<Rightarrow> nat set" where
  "pmm_owned p = frame_addr p ` used_set p"

definition pmm_pinned :: "pmm \<Rightarrow> nat set" where
  "pmm_pinned p = frame_addr p ` {..<reserved_pages p}"

definition pmm_inv :: "pmm \<Rightarrow> bool" where
  "pmm_inv p \<longleftrightarrow>
     0 < mem_region_start p \<and> mem_region_start p mod 4096 = 0 \<and>
     mem_region_end p = mem_region_start p + total_pages p * 4096 \<and> mem_region_end p < 2 ^ 64 \<and>
     bitmap_size p = (total_pages p + 63) div 64 \<and>
     reserved_pages p \<le> total_pages p \<and>
     (\<forall>n < reserved_pages p. bitmap_test n p) \<and>
     (\<forall>n. total_pages p \<le> n \<and> n < bitmap_size p * 64 \<longrightarrow> bitmap_test n p) \<and>
     used_pages p = card (used_set p)"

lemma finite_used_set [simp]: "finite (used_set p)"
  by (simp add: used_set_def)

lemma card_used_set_le: "card (used_set p) \<le> total_pages p"
proof -
  have "used_set p \<subseteq> {..<total_pages p}"
    by (auto simp: used_set_def)
  then show ?thesis
    using card_mono [of "{..<total_pages p}" "used_set p"] by simp
qed

lemma frame_addr_eq [simp]: "frame_addr p n = frame_addr p m \<longleftrightarrow> n = m"
  by (simp add: frame_addr_def)

lemma frame_addr_bounds:
  assumes "pmm_inv p" and "n < total_pages p"
  shows "frame_addr p n < mem_region_end p" and "frame_addr p n < 2 ^ 64"
    and "0 < frame_addr p n" and "frame_addr p n mod 4096 = 0" and "n < 2 ^ 52"
  using assms by (auto simp: pmm_inv_def frame_addr_def)

section \<open>Single-page allocation\<close>

definition pmm_take :: "pmm \<Rightarrow> nat \<Rightarrow> pmm" where
  "pmm_take p n = (bitmap_set n p)\<lparr>used_pages := u64 (used_pages p + 1)\<rparr>"

lemma pmm_scan_bits_None:
  "pmm_scan_bits p i b = None \<Longrightarrow> b \<le> k \<Longrightarrow> k < 64 \<Longrightarrow> bitmap_test (i * 64 + k) p"
proof (induction p i b rule: pmm_scan_bits.induct)
  case (1 p i b)
  show ?case
  proof (cases "k = b")
    case True
    with "1.prems" show ?thesis
      by (auto simp: pmm_scan_bits.simps [of p i b] Let_def split: if_splits)
  next
    case False
    with "1.prems" have rest: "pmm_scan_bits p i (b + 1) = None" "b < 64"
      "\<not> total_pages p \<le> i * 64 + b" "bitmap_test (i * 64 + b) p"
      by (auto simp: pmm_scan_bits.simps [of p i b] Let_def split: if_splits)
    with False "1.prems" show ?thesis
      by (intro "1.IH") auto
  qed
qed

lemma pmm_scan_bits_Some:
  "pmm_scan_bits p i b = Some (q, a) \<Longrightarrow>
     \<exists>k. b \<le> k \<and> k < 64 \<and> (\<forall>j. b \<le> j \<and> j < k \<longrightarrow> bitmap_test (i * 64 + j) p) \<and>
       (total_pages p \<le> i * 64 + k \<and> q = p \<and> a = 0 \<or>
        i * 64 + k < total_pages p \<and> \<not> bitmap_test (i * 64 + k) p \<and>
        q = pmm_take p (i * 64 + k) \<and> a = u64 (mem_region_start p + u64 ((i * 64 + k) * 4096)))"
proof (induction p i b rule: pmm_scan_bits.induct)
  case (1 p i b)
  from "1.prems" have b: "b < 64"
    by (simp add: pmm_scan_bits.simps [of p i b] split: if_splits)
  show ?case
  proof (cases "i * 64 + b < total_pages p \<and> bitmap_test (i * 64 + b) p")
    case True
    with "1.prems" b have "pmm_scan_bits p i (b + 1) = Some (q, a)"
      by (simp add: pmm_scan_bits.simps [of p i b] Let_def)
    with "1.IH" [OF b refl] True obtain k where k: "b + 1 \<le> k" "k < 64"
      "\<forall>j. b + 1 \<le> j \<and> j < k \<longrightarrow> bitmap_test (i * 64 + j) p"
      "total_pages p \<le> i * 64 + k \<and> q = p \<and> a = 0 \<or>
        i * 64 + k < total_pages p \<and> \<not> bitmap_test (i * 64 + k) p \<and>
        q = pmm_take p (i * 64 + k) \<and> a = u64 (mem_region_start p + u64 ((i * 64 + k) * 4096))"
      by auto
    have "\<forall>j. b \<le> j \<and> j < k \<longrightarrow> bitmap_test (i * 64 + j) p"
      using k(3) True by (metis Suc_eq_plus1 le_antisym not_less_eq_eq)
    with k show ?thesis by (intro exI [of _ k]) auto
  next
    case False
    with "1.prems" b show ?thesis
      by (intro exI [of _ b])
        (auto simp: pmm_scan_bits.simps [of p i b] Let_def pmm_take_def split: if_splits)
  qed
qed

lemma less_mult_64_Suc: "(n :: nat) < (i + 1) * 64 \<Longrightarrow> n < i * 64 \<or> (\<exists>k < 64. n = i * 64 + k)"
  by (cases "n < i * 64") (auto simp: not_less le_iff_add)

lemma pmm_scan_words_spec:
  "pmm_scan_words p i = (q, a) \<Longrightarrow> \<forall>n < i * 64. bitmap_test n p \<Longrightarrow>
     q = p \<and> a = 0 \<and> (\<forall>n < total_pages p. n < bitmap_size p * 64 \<longrightarrow> bitmap_test n p) \<or>
     (\<exists>n < total_pages p. \<not> bitmap_test n p \<and> (\<forall>m < n. bitmap_test m p) \<and> q = pmm_take p n \<and>
        a = u64 (mem_region_start p + u64 (n * 4096)))"
proof (induction p i rule: pmm_scan_words.induct)
  case (1 p i)
  show ?case
  proof (cases "i < bitmap_size p")
    case False
    with "1.prems" show ?thesis
      by (auto simp: pmm_scan_words.simps [of p i])
  next
    case True
    have full: "\<forall>n < (i + 1) * 64. bitmap_test n p" if "\<forall>k < 64. bitmap_test (i * 64 + k) p"
      using that "1.prems"(2) less_mult_64_Suc by blast
    show ?thesis
    proof (cases "bitmap p i = NOT 0")
      case ones: True
      have "pmm_scan_words p (i + 1) = (q, a)"
        using "1.prems"(1) True ones by (simp add: pmm_scan_words.simps [of p i])
      moreover have "\<forall>k < 64. bitmap_test (i * 64 + k) p"
        using ones by (simp add: bitmap_all_ones)
      ultimately show ?thesis
        using "1.IH"(1) [OF True ones] full by blast
    next
      case notones: False
      show ?thesis
      proof (cases "pmm_scan_bits p i 0")
        case None
        then have "\<forall>k < 64. bitmap_test (i * 64 + k) p"
          by (auto intro: pmm_scan_bits_None)
        moreover have "pmm_scan_words p (i + 1) = (q, a)"
          using "1.prems"(1) True notones None by (simp add: pmm_scan_words.simps [of p i])
        ultimately show ?thesis
          using "1.IH"(2) [OF True notones None] full by blast
      next
        case (Some r)
        then have "pmm_scan_bits p i 0 = Some (q, a)"
          using "1.prems"(1) True notones by (simp add: pmm_scan_words.simps [of p i])
        from pmm_scan_bits_Some [OF this] obtain k where k: "k < 64"
          "\<forall>j < k. bitmap_test (i * 64 + j) p"
          "total_pages p \<le> i * 64 + k \<and> q = p \<and> a = 0 \<or>
            i * 64 + k < total_pages p \<and> \<not> bitmap_test (i * 64 + k) p \<and>
            q = pmm_take p (i * 64 + k) \<and>
            a = u64 (mem_region_start p + u64 ((i * 64 + k) * 4096))"
          by auto
        have below: "\<forall>n < i * 64 + k. bitmap_test n p"
        proof (intro allI impI)
          fix n assume n: "n < i * 64 + k"
          show "bitmap_test n p"
          proof (cases "n < i * 64")
            case True
            with "1.prems"(2) show ?thesis by blast
          next
            case False
            with n obtain j where "n = i * 64 + j" and "j < k"
              by (auto simp: not_less le_iff_add)
            with k(2) show ?thesis by simp
          qed
        qed
        show ?thesis
          using k(3)
        proof (elim disjE conjE)
          assume "total_pages p \<le> i * 64 + k" and "q = p" and "a = 0"
          with below show ?thesis by auto
        next
          assume "i * 64 + k < total_pages p" and "\<not> bitmap_test (i * 64 + k) p"
            and "q = pmm_take p (i * 64 + k)"
            and "a = u64 (mem_region_start p + u64 ((i * 64 + k) * 4096))"
          with below show ?thesis by (intro disjI2 exI [of _ "i * 64 + k"]) simp
        qed
      qed
    qed
  qed
qed

text \<open>
  Under the invariant the search decides: it takes the lowest free frame, and fails exactly
  when no frame is free.
\<close>

lemma pmm_allocate_page_cases:
  assumes "pmm_inv p"
  obtains (full) "pmm_allocate_page p = (p, 0)" "\<forall>n < total_pages p. bitmap_test n p"
  | (taken) n where "n < total_pages p" "\<not> bitmap_test n p" "\<forall>m < n. bitmap_test m p"
      "reserved_pages p \<le> n"
      "pmm_allocate_page p = (pmm_take p n, frame_addr p n)"
proof (cases "pmm_allocate_page p")
  case (Pair q a)
  have size: "n < bitmap_size p * 64" if "n < total_pages p" for n
    using that assms by (auto simp: pmm_inv_def)
  have addr: "u64 (mem_region_start p + u64 (n * 4096)) = frame_addr p n" if "n < total_pages p" for n
    using frame_addr_bounds [OF assms that] by (simp add: u64_id frame_addr_def)
  from Pair have "pmm_scan_words p 0 = (q, a)"
    by (simp add: pmm_allocate_page_def)
  from pmm_scan_words_spec [OF this] consider
      "q = p" "a = 0" "\<forall>n < total_pages p. n < bitmap_size p * 64 \<longrightarrow> bitmap_test n p"
    | n where "n < total_pages p" "\<not> bitmap_test n p" "\<forall>m < n. bitmap_test m p" "q = pmm_take p n"
        "a = u64 (mem_region_start p + u64 (n * 4096))"
    by auto
  then show thesis
  proof cases
    case 1
    with Pair size show ?thesis by (intro full) auto
  next
    case (2 n)
    moreover have "reserved_pages p \<le> n"
      using assms 2(2) by (meson not_le pmm_inv_def)
    ultimately show ?thesis
      using Pair addr by (intro taken [of n]) auto
  qed
qed

lemma pmm_take_fields [frame_simps]:
  "bitmap_size (pmm_take p n) = bitmap_size p"
  "total_pages (pmm_take p n) = total_pages p"
  "reserved_pages (pmm_take p n) = reserved_pages p"
  "mem_region_start (pmm_take p n) = mem_region_start p"
  "mem_region_end (pmm_take p n) = mem_region_end p"
  "used_pages (pmm_take p n) = u64 (used_pages p + 1)"
  by (simp_all add: pmm_take_def frame_simps)

lemma pmm_take_test [simp]: "bitmap_test m (pmm_take p n) \<longleftrightarrow> m = n \<or> bitmap_test m p"
  by (simp add: pmm_take_def)

lemma pmm_take_used: "n < total_pages p \<Longrightarrow> used_set (pmm_take p n) = insert n (used_set p)"
  by (auto simp: used_set_def frame_simps)

lemma pmm_take_inv:
  assumes "pmm_inv p" and "n < total_pages p" and "\<not> bitmap_test n p"
  shows "pmm_inv (pmm_take p n)"
proof -
  have new: "n \<notin> used_set p"
    using assms(3) by (simp add: used_set_def)
  have "Suc (card (used_set p)) = card (insert n (used_set p))"
    using new by simp
  also have "\<dots> \<le> total_pages p"
    using card_used_set_le [of "pmm_take p n"] pmm_take_used [OF assms(2)] by (simp add: frame_simps)
  finally have "Suc (card (used_set p)) < 2 ^ 64"
    using assms(1) by (auto simp: pmm_inv_def)
  then show ?thesis
    using assms new pmm_take_used [OF assms(2)]
    by (auto simp: pmm_inv_def frame_simps u64_id)
qed

lemma pmm_take_owned:
  "n < total_pages p \<Longrightarrow> pmm_owned (pmm_take p n) = insert (frame_addr p n) (pmm_owned p)"
  by (simp add: pmm_owned_def pmm_take_used frame_addr_def [abs_def] frame_simps)

lemma pmm_take_pinned: "pmm_pinned (pmm_take p n) = pmm_pinned p"
  by (simp add: pmm_pinned_def frame_addr_def [abs_def] frame_simps)

lemma frame_addr_owned_iff: "frame_addr p n \<in> pmm_owned p \<longleftrightarrow> n < total_pages p \<and> bitmap_test n p"
  by (auto simp: pmm_owned_def used_set_def)

section \<open>Release\<close>

definition pmm_drop :: "pmm \<Rightarrow> nat \<Rightarrow> pmm" where
  "pmm_drop p n = (bitmap_clear n p)\<lparr>used_pages := sub64 (used_pages p) 1\<rparr>"

lemma pmm_drop_fields [frame_simps]:
  "bitmap_size (pmm_drop p n) = bitmap_size p"
  "total_pages (pmm_drop p n) = total_pages p"
  "reserved_pages (pmm_drop p n) = reserved_pages p"
  "mem_region_start (pmm_drop p n) = mem_region_start p"
  "mem_region_end (pmm_drop p n) = mem_region_end p"
  "used_pages (pmm_drop p n) = sub64 (used_pages p) 1"
  by (simp_all add: pmm_drop_def frame_simps)

lemma pmm_drop_test [simp]: "bitmap_test m (pmm_drop p n) \<longleftrightarrow> m \<noteq> n \<and> bitmap_test m p"
  by (simp add: pmm_drop_def)

lemma pmm_drop_used: "used_set (pmm_drop p n) = used_set p - {n}"
  by (auto simp: used_set_def frame_simps)

lemma pmm_drop_addr: "frame_addr (pmm_drop p n) = frame_addr p"
  by (simp add: fun_eq_iff frame_addr_def frame_simps)

lemma pmm_drop_inv:
  assumes "pmm_inv p" and "n < total_pages p" and "bitmap_test n p" and "reserved_pages p \<le> n"
  shows "pmm_inv (pmm_drop p n)"
proof -
  have n: "n \<in> used_set p"
    using assms(2,3) by (simp add: used_set_def)
  then have pos: "0 < card (used_set p)"
    by (auto simp: card_gt_0_iff)
  have "card (used_set p) < 2 ^ 64"
    using card_used_set_le [of p] assms(1) by (auto simp: pmm_inv_def)
  with pos n assms(1) have "used_pages (pmm_drop p n) = card (used_set (pmm_drop p n))"
    by (simp add: frame_simps pmm_drop_used pmm_inv_def sub64_id)
  then show ?thesis
    using assms by (auto simp: pmm_inv_def frame_simps)
qed

lemma pmm_free_page_cases:
  assumes "pmm_inv p"
  obtains (dropped) n where "a = frame_addr p n" "n < total_pages p" "reserved_pages p \<le> n"
      "bitmap_test n p" "pmm_free_page p a = pmm_drop p n"
  | (refused) "pmm_free_page p a = p" "a \<notin> pmm_owned p - pmm_pinned p"
proof -
  let ?n = "(a - mem_region_start p) div 4096"
  show thesis
  proof (cases "mem_region_start p \<le> a \<and> a < mem_region_end p \<and> a mod 4096 = 0")
    case False
    have "a \<notin> pmm_owned p"
    proof
      assume "a \<in> pmm_owned p"
      then obtain n where "a = frame_addr p n" and "n < total_pages p"
        by (auto simp: pmm_owned_def used_set_def)
      with False frame_addr_bounds [OF assms, of n] show False
        by (auto simp: frame_addr_def)
    qed
    moreover have "pmm_free_page p a = p"
      using False by (auto simp: pmm_free_page_def)
    ultimately show ?thesis by (intro refused) auto
  next
    case True
    have start: "mem_region_start p mod 4096 = 0"
      using assms by (simp add: pmm_inv_def)
    have "?n * 4096 = a - mem_region_start p"
      using True start by (simp add: mod_diff_0 div_mult_self_mod_0)
    then have a: "a = frame_addr p ?n"
      using True by (simp only: frame_addr_def) simp
    have n: "?n < total_pages p"
      using True assms by (auto simp: pmm_inv_def intro: less_mult_imp_div_less)
    show ?thesis
    proof (cases "reserved_pages p \<le> ?n \<and> bitmap_test ?n p")
      case ok: True
      then have "pmm_free_page p a = pmm_drop p ?n"
        using True by (simp add: pmm_free_page_def pmm_drop_def Let_def)
      with a n ok show ?thesis by (intro dropped [of ?n]) auto
    next
      case bad: False
      then have "pmm_free_page p a = p"
        using True by (auto simp: pmm_free_page_def Let_def)
      moreover have "a \<notin> pmm_owned p - pmm_pinned p"
        using bad n a frame_addr_owned_iff [of p ?n] by (auto simp: pmm_pinned_def)
      ultimately show ?thesis by (intro refused)
    qed
  qed
qed

lemma pmm_free_page_inv: "pmm_inv p \<Longrightarrow> pmm_inv (pmm_free_page p a)"
  by (rule pmm_free_page_cases [of p a]) (simp_all add: pmm_drop_inv)

lemma pmm_free_page_fields [frame_simps]:
  "bitmap_size (pmm_free_page p a) = bitmap_size p"
  "total_pages (pmm_free_page p a) = total_pages p"
  "reserved_pages (pmm_free_page p a) = reserved_pages p"
  "mem_region_start (pmm_free_page p a) = mem_region_start p"
  "mem_region_end (pmm_free_page p a) = mem_region_end p"
  by (simp_all add: pmm_free_page_def Let_def frame_simps)

lemma pmm_free_page_pinned: "pmm_pinned (pmm_free_page p a) = pmm_pinned p"
  by (simp add: pmm_pinned_def frame_addr_def [abs_def] frame_simps)

lemma pmm_free_page_owned:
  assumes "pmm_inv p"
  shows "pmm_owned (pmm_free_page p a) = pmm_owned p - ({a} - pmm_pinned p)"
  using assms
proof (rule pmm_free_page_cases [of p a])
  fix n assume n: "a = frame_addr p n" "n < total_pages p" "reserved_pages p \<le> n"
    "bitmap_test n p" "pmm_free_page p a = pmm_drop p n"
  have "a \<notin> pmm_pinned p"
    using n(1,3) by (auto simp: pmm_pinned_def)
  moreover have "pmm_owned (pmm_drop p n) = pmm_owned p - {a}"
    using n(1) by (auto simp: pmm_owned_def pmm_drop_used pmm_drop_addr)
  ultimately show ?thesis
    using n(5) by auto
qed auto

lemma pmm_pinned_owned: "pmm_inv p \<Longrightarrow> pmm_pinned p \<subseteq> pmm_owned p"
  by (auto simp: pmm_pinned_def pmm_owned_def used_set_def pmm_inv_def)

lemma pmm_allocate_page_law:
  assumes "pmm_inv p" and "pmm_allocate_page p = (q, a)"
  shows "pmm_inv q \<and> pmm_pinned q = pmm_pinned p \<and>
    (a = 0 \<and> q = p \<or> a \<noteq> 0 \<and> a \<notin> pmm_owned p \<and> pmm_owned q = insert a (pmm_owned p))"
  using assms(1)
proof (rule pmm_allocate_page_cases)
  assume "pmm_allocate_page p = (p, 0)"
  with assms show ?thesis by simp
next
  fix n assume n: "n < total_pages p" "\<not> bitmap_test n p"
    "pmm_allocate_page p = (pmm_take p n, frame_addr p n)"
  with assms have "q = pmm_take p n" "a = frame_addr p n"
    by simp_all
  with n assms(1) frame_addr_bounds(3) [OF assms(1) n(1)] show ?thesis
    by (simp add: pmm_take_inv pmm_take_pinned pmm_take_owned frame_addr_owned_iff)
qed

section \<open>Contiguous allocation\<close>

definition run_free :: "pmm \<Rightarrow> nat \<Rightarrow> nat \<Rightarrow> bool" where
  "run_free p s n \<longleftrightarrow> (\<forall>j < n. \<not> bitmap_test (s + j) p)"

definition pmm_take_run :: "pmm \<Rightarrow> nat \<Rightarrow> nat \<Rightarrow> pmm" where
  "pmm_take_run p s n =
     (fold (\<lambda>i. bitmap_set (s + i)) [0..<n] p)\<lparr>used_pages := u64 (used_pages p + n)\<rparr>"

lemma pmm_scan_run_spec:
  assumes "pmm_scan_run p count pfn st len = (q, a)"
    and "len < count" and "len \<le> pfn" and "0 < len \<longrightarrow> st + len = pfn"
    and "lo \<le> pfn - len" and "run_free p (pfn - len) len"
    and "\<forall>s. lo \<le> s \<and> s < pfn - len \<longrightarrow> \<not> run_free p s count"
  shows "q = p \<and> a = 0 \<and> (\<forall>s. lo \<le> s \<and> s + count \<le> total_pages p \<longrightarrow> \<not> run_free p s count) \<or>
    (\<exists>s \<ge> lo. s + count \<le> total_pages p \<and> run_free p s count \<and>
       (\<forall>t. lo \<le> t \<and> t < s \<longrightarrow> \<not> run_free p t count) \<and>
       q = pmm_take_run p s count \<and> a = u64 (mem_region_start p + u64 (s * 4096)))"
  using assms
proof (induction p count pfn st len rule: pmm_scan_run.induct)
  case (1 p count pfn st len)
  show ?case
  proof (cases "pfn < total_pages p")
    case False
    with "1.prems"(1) have "q = p" "a = 0"
      by (simp_all add: pmm_scan_run.simps [of p count pfn])
    moreover have "s < pfn - len" if "s + count \<le> total_pages p" for s
      using that False "1.prems"(2) by simp
    ultimately show ?thesis
      using "1.prems"(7) by simp
  next
    case pfn: True
    show ?thesis
    proof (cases "bitmap_test pfn p")
      case True
      have next_run: "pmm_scan_run p count (pfn + 1) st 0 = (q, a)"
        using "1.prems"(1) pfn True by (simp add: pmm_scan_run.simps [of p count pfn])
      have "\<not> run_free p s count" if "lo \<le> s" "s < pfn + 1" for s
      proof (cases "s < pfn - len")
        case True
        with that "1.prems"(7) show ?thesis by blast
      next
        case False
        then have "s + (pfn - s) = pfn" "pfn - s < count"
          using that "1.prems"(2) by simp_all
        with True show ?thesis by (auto simp: run_free_def intro!: exI [of _ "pfn - s"])
      qed
      then show ?thesis
        using "1.prems" pfn True next_run
        by (intro "1.IH"(2)) (simp_all add: run_free_def)
    next
      case False
      define s where "s = pfn - len"
      have s: "(if len = 0 then pfn else st) = s"
        using "1.prems"(3,4) by (auto simp: s_def)
      have sl: "s + len = pfn"
        using "1.prems"(3) by (simp add: s_def)
      have free: "run_free p s (len + 1)"
        using "1.prems"(6) False sl by (auto simp: run_free_def s_def [symmetric] less_Suc_eq)
      show ?thesis
      proof (cases "len + 1 = count")
        case True
        with "1.prems"(1) pfn False s have "q = pmm_take_run p s count"
          "a = u64 (mem_region_start p + u64 (s * 4096))"
          by (simp_all add: pmm_scan_run.simps [of p count pfn] Let_def pmm_take_run_def)
        then show ?thesis
          using free True sl pfn "1.prems"(5,7) by (intro disjI2 exI [of _ s]) (auto simp: s_def)
      next
        case more: False
        have next_run: "pmm_scan_run p count (pfn + 1) s (len + 1) = (q, a)"
          using "1.prems"(1) pfn False s more
          by (simp add: pmm_scan_run.simps [of p count pfn] Let_def)
        have here: "pfn + 1 - (len + 1) = s"
          by (simp add: s_def)
        show ?thesis
          using "1.IH"(1) [OF pfn False, OF s [symmetric] refl more next_run] "1.prems" more sl free
          by (simp add: here s_def)
      qed
    qed
  qed
qed

lemma pmm_take_run_fields [frame_simps]:
  "bitmap_size (pmm_take_run p s n) = bitmap_size p"
  "total_pages (pmm_take_run p s n) = total_pages p"
  "reserved_pages (pmm_take_run p s n) = reserved_pages p"
  "mem_region_start (pmm_take_run p s n) = mem_region_start p"
  "mem_region_end (pmm_take_run p s n) = mem_region_end p"
  "used_pages (pmm_take_run p s n) = u64 (used_pages p + n)"
  by (simp_all add: pmm_take_run_def frame_simps)

lemma add_image_upt: "(+) s ` {0..<n} = {s..<s + (n :: nat)}"
  by (simp add: image_add_atLeastLessThan add.commute)

lemma pmm_take_run_test [simp]:
  "bitmap_test m (pmm_take_run p s n) \<longleftrightarrow> s \<le> m \<and> m < s + n \<or> bitmap_test m p"
  by (auto simp: pmm_take_run_def add_image_upt)

lemma pmm_take_run_used:
  "s + n \<le> total_pages p \<Longrightarrow> used_set (pmm_take_run p s n) = used_set p \<union> {s..<s + n}"
  by (auto simp: used_set_def frame_simps)

lemma run_free_used: "run_free p s n \<Longrightarrow> used_set p \<inter> {s..<s + n} = {}"
  by (auto simp: used_set_def run_free_def le_iff_add)

lemma pmm_take_run_inv:
  assumes "pmm_inv p" and "s + n \<le> total_pages p" and "run_free p s n"
  shows "pmm_inv (pmm_take_run p s n)"
proof -
  have new: "card (used_set p \<union> {s..<s + n}) = card (used_set p) + n"
    using run_free_used [OF assms(3)] by (simp add: card_Un_disjoint)
  have "card (used_set p) + n \<le> total_pages p"
    using card_used_set_le [of "pmm_take_run p s n"] pmm_take_run_used [OF assms(2)] new
    by (simp add: frame_simps)
  then have "card (used_set p) + n < 2 ^ 64"
    using assms(1) by (auto simp: pmm_inv_def)
  then have "used_pages (pmm_take_run p s n) = card (used_set (pmm_take_run p s n))"
    using assms(1) new pmm_take_run_used [OF assms(2)]
    by (simp add: frame_simps u64_id pmm_inv_def)
  then show ?thesis
    using assms by (auto simp: pmm_inv_def frame_simps)
qed

definition page_run :: "nat \<Rightarrow> nat \<Rightarrow> nat list" where
  "page_run a n = map (\<lambda>i. u64 (a + u64 (i * PAGE_SIZE))) [0..<n]"

lemma page_run_frame:
  assumes "pmm_inv p" and "s + n \<le> total_pages p"
  shows "page_run (frame_addr p s) n = map (frame_addr p) [s..<s + n]"
proof (rule nth_equalityI)
  fix i assume "i < length (page_run (frame_addr p s) n)"
  then have i: "i < n"
    by (simp add: page_run_def)
  then have "frame_addr p (s + i) < 2 ^ 64"
    using assms by (intro frame_addr_bounds(2)) auto
  with i show "page_run (frame_addr p s) n ! i = map (frame_addr p) [s..<s + n] ! i"
    by (simp add: page_run_def frame_addr_def u64_id algebra_simps)
qed (simp add: page_run_def)

lemma pmm_take_run_owned:
  assumes "s + n \<le> total_pages p"
  shows "pmm_owned (pmm_take_run p s n) = pmm_owned p \<union> frame_addr p ` {s..<s + n}"
proof -
  have "frame_addr (pmm_take_run p s n) = frame_addr p"
    by (simp add: fun_eq_iff frame_addr_def frame_simps)
  then show ?thesis
    by (simp add: pmm_owned_def pmm_take_run_used [OF assms] image_Un)
qed

lemma pmm_take_run_pinned: "pmm_pinned (pmm_take_run p s n) = pmm_pinned p"
  by (simp add: pmm_pinned_def frame_addr_def [abs_def] frame_simps)

lemma pmm_take_run_one: "pmm_take_run p s (Suc 0) = pmm_take p s"
  by (simp add: pmm_take_run_def pmm_take_def)

lemma pmm_allocate_pages_cases:
  assumes "pmm_inv p" and "0 < n"
  obtains (none) "pmm_allocate_pages p n = (p, 0)"
      "\<forall>s. reserved_pages p \<le> s \<and> s + n \<le> total_pages p \<longrightarrow> \<not> run_free p s n"
  | (run) s where "reserved_pages p \<le> s" "s + n \<le> total_pages p" "run_free p s n"
      "\<forall>t. reserved_pages p \<le> t \<and> t < s \<longrightarrow> \<not> run_free p t n"
      "pmm_allocate_pages p n = (pmm_take_run p s n, frame_addr p s)"
proof (cases "n = 1")
  case True
  then have alloc: "pmm_allocate_pages p n = pmm_allocate_page p"
    by (simp add: pmm_allocate_pages_def)
  from assms(1) show thesis
  proof (rule pmm_allocate_page_cases)
    assume "pmm_allocate_page p = (p, 0)" "\<forall>n < total_pages p. bitmap_test n p"
    with True alloc show ?thesis by (intro none) (auto simp: run_free_def)
  next
    fix k assume "k < total_pages p" "\<not> bitmap_test k p" "\<forall>m < k. bitmap_test m p"
      "reserved_pages p \<le> k" "pmm_allocate_page p = (pmm_take p k, frame_addr p k)"
    with True alloc show ?thesis
      by (intro run [of k]) (auto simp: run_free_def pmm_take_run_one)
  qed
next
  case False
  obtain q a where qa: "pmm_scan_run p n (reserved_pages p) 0 0 = (q, a)"
    by (cases "pmm_scan_run p n (reserved_pages p) 0 0")
  then have alloc: "pmm_allocate_pages p n = (q, a)"
    using False assms(2) by (simp add: pmm_allocate_pages_def)
  have addr: "u64 (mem_region_start p + u64 (s * 4096)) = frame_addr p s"
    if "s + n \<le> total_pages p" for s
    using frame_addr_bounds [OF assms(1), of s] that assms(2) by (simp add: u64_id frame_addr_def)
  have base: "run_free p (reserved_pages p - 0) 0"
    by (simp add: run_free_def)
  have low: "\<forall>s. reserved_pages p \<le> s \<and> s < reserved_pages p - 0 \<longrightarrow> \<not> run_free p s n"
    by auto
  from pmm_scan_run_spec [OF qa assms(2) _ _ _ base low] consider
      "q = p" "a = 0" "\<forall>s. reserved_pages p \<le> s \<and> s + n \<le> total_pages p \<longrightarrow> \<not> run_free p s n"
    | s where "reserved_pages p \<le> s" "s + n \<le> total_pages p" "run_free p s n"
        "\<forall>t. reserved_pages p \<le> t \<and> t < s \<longrightarrow> \<not> run_free p t n"
        "q = pmm_take_run p s n" "a = u64 (mem_region_start p + u64 (s * 4096))"
    by auto
  then show thesis
    by cases (auto simp: alloc addr intro: none run)
qed

lemma pmm_allocate_pages_law:
  assumes "pmm_inv p" and "pmm_allocate_pages p n = (q, a)"
  shows "pmm_inv q \<and> pmm_pinned q = pmm_pinned p \<and>
    (a = 0 \<and> q = p \<or>
     a \<noteq> 0 \<and> set (page_run a n) \<inter> pmm_owned p = {} \<and>
     pmm_owned q = pmm_owned p \<union> set (page_run a n))"
proof (cases "n = 0")
  case True
  with assms show ?thesis by (simp add: pmm_allocate_pages_def)
next
  case False
  then have "0 < n" by simp
  from assms(1) this show ?thesis
  proof (rule pmm_allocate_pages_cases)
    assume "pmm_allocate_pages p n = (p, 0)"
    with assms show ?thesis by simp
  next
    fix s assume s: "s + n \<le> total_pages p" "run_free p s n"
      "pmm_allocate_pages p n = (pmm_take_run p s n, frame_addr p s)"
    with assms(2) have qa: "q = pmm_take_run p s n" "a = frame_addr p s"
      by simp_all
    have pages: "set (page_run a n) = frame_addr p ` {s..<s + n}"
      using page_run_frame [OF assms(1) s(1)] by (simp add: qa)
    have "frame_addr p ` {s..<s + n} \<inter> pmm_owned p = {}"
      using s(2) by (auto simp: frame_addr_owned_iff run_free_def le_iff_add)
    moreover have "a \<noteq> 0"
      using frame_addr_bounds(3) [OF assms(1), of s] s(1) \<open>0 < n\<close> by (simp add: qa)
    ultimately show ?thesis
      using assms(1) s pages
      by (simp add: qa pmm_take_run_inv pmm_take_run_pinned pmm_take_run_owned)
  qed
qed

lemma pmm_free_pages_run: "pmm_free_pages p a n = fold (\<lambda>a p. pmm_free_page p a) (page_run a n) p"
  by (simp add: pmm_free_pages_def page_run_def fold_map comp_def)

section \<open>The page-pool contract\<close>

interpretation frames: page_pool pmm_inv pmm_owned pmm_pinned pmm_allocate_page pmm_free_page
  by unfold_locales
    (use pmm_allocate_page_law pmm_free_page_inv pmm_free_page_pinned pmm_free_page_owned
      pmm_pinned_owned in blast)+

interpretation frame_runs: page_run_pool pmm_inv pmm_owned pmm_pinned pmm_allocate_page
    pmm_free_page pmm_allocate_pages pmm_free_pages page_run
proof unfold_locales
  fix s n s' a
  assume "pmm_inv s" and "pmm_allocate_pages s n = (s', a)"
  then show "pmm_inv s' \<and> pmm_pinned s' = pmm_pinned s \<and>
    (a = 0 \<and> s' = s \<or> a \<noteq> 0 \<and> set (page_run a n) \<inter> pmm_owned s = {} \<and>
     pmm_owned s' = pmm_owned s \<union> set (page_run a n))"
    by (rule pmm_allocate_pages_law)
next
  fix s a n
  show "pmm_free_pages s a n = frames.free_all (page_run a n) s"
    by (simp add: pmm_free_pages_run frames.free_all_def)
qed

section \<open>Initialisation establishes the invariant\<close>

lemma page_align_up_le:
  assumes "a \<le> m" and "m mod 4096 = 0" and "m + 4095 < 2 ^ 64"
  shows "page_align_up a \<le> m"
proof -
  have "(a + 4095) div 4096 * 4096 \<le> (m + 4095) div 4096 * 4096"
    using assms(1) by (intro mult_le_mono1 div_le_mono) simp
  moreover have "page_align_up a = (a + 4095) div 4096 * 4096" "page_align_up m = (m + 4095) div 4096 * 4096"
    using assms by (simp_all add: page_align_up_def u64_id)
  ultimately show ?thesis
    using page_align_up_id [OF assms(2,3)] by simp
qed

text \<open>The layout \<^verbatim>\<open>pmm_init\<close> needs: an aligned region above 0 that holds the image and the bitmap.\<close>

definition pmm_layout_ok :: "nat \<Rightarrow> nat \<Rightarrow> nat \<Rightarrow> bool" where
  "pmm_layout_ok kernel_end mem_start mem_size \<longleftrightarrow>
     0 < mem_start \<and> mem_start mod 4096 = 0 \<and> mem_size mod 4096 = 0 \<and>
     mem_start + mem_size + 4096 \<le> 2 ^ 64 \<and>
     mem_start \<le> kernel_end \<and> kernel_end \<le> mem_start + mem_size \<and>
     page_align_up kernel_end + (mem_size div 4096 + 63) div 64 * 8 \<le> mem_start + mem_size"

definition pmm_reserve :: "nat \<Rightarrow> nat \<Rightarrow> nat \<Rightarrow> nat" where
  "pmm_reserve kernel_end mem_start mem_size =
     (page_align_up (page_align_up kernel_end + (mem_size div 4096 + 63) div 64 * 8) - mem_start)
       div 4096"

lemma bit_not_low_mask:
  "r < 64 \<Longrightarrow> k < 64 \<Longrightarrow> bit (NOT (2 ^ r - 1) :: 64 word) k \<longleftrightarrow> r \<le> k"
  by (auto simp: bit_simps not_less simp flip: mask_eq_exp_minus_1)

lemma pmm_init_eq:
  assumes "pmm_layout_ok kernel_end mem_start mem_size"
  defines "tot \<equiv> mem_size div 4096" and "r \<equiv> pmm_reserve kernel_end mem_start mem_size"
  shows "pmm_init kernel_end mem_start mem_size p =
    (fold (\<lambda>i. bitmap_set i) [0..<r]
      (p\<lparr>mem_region_start := mem_start, mem_region_end := mem_start + mem_size,
         total_pages := tot, bitmap_size := (tot + 63) div 64,
         bitmap_ptr := page_align_up kernel_end,
         bitmap := (if tot mod 64 \<noteq> 0
           then (\<lambda>i. if i < (tot + 63) div 64 then 0 else bitmap p i)
                  ((tot + 63) div 64 - 1 := NOT (push_bit (tot mod 64) 1 - 1))
           else (\<lambda>i. if i < (tot + 63) div 64 then 0 else bitmap p i)),
         reserved_pages := r\<rparr>))
      \<lparr>used_pages := r\<rparr>" and "r \<le> tot"
proof -
  let ?bytes = "(tot + 63) div 64 * 8"
  let ?top = "page_align_up (page_align_up kernel_end + ?bytes)"
  note ok = assms(1) [unfolded pmm_layout_ok_def]
  have tot: "tot < 2 ^ 52" "mem_size = tot * 4096"
    using ok by (auto simp: tot_def)
  have base: "page_align_up kernel_end + ?bytes \<le> mem_start + mem_size"
    using ok by (simp add: tot_def)
  have ge: "mem_start \<le> page_align_up kernel_end"
    using ok page_align_up_bounds(1) [of kernel_end] by linarith
  have le_end: "?top \<le> mem_start + mem_size"
    using base ok by (intro page_align_up_le) (auto simp: mod_eq_0_iff_dvd)
  have end_ge: "page_align_up kernel_end + ?bytes \<le> ?top"
    using base ok by (intro page_align_up_bounds(1)) linarith
  have r: "r = (?top - mem_start) div 4096"
    by (simp add: r_def pmm_reserve_def tot_def)
  have "?top - mem_start \<le> tot * 4096"
    using le_end tot(2) by simp
  then have "(?top - mem_start) div 4096 \<le> tot * 4096 div 4096"
    by (rule div_le_mono)
  then show "r \<le> tot"
    by (simp add: r)
  have wraps: "u64 (tot + 63) = tot + 63" "u64 ?bytes = ?bytes"
    "u64 (page_align_up kernel_end + ?bytes) = page_align_up kernel_end + ?bytes"
    "u64 (mem_start + mem_size) = mem_start + mem_size"
    "sub64 ?top mem_start = ?top - mem_start"
    using tot base ok le_end end_ge ge by (auto intro!: u64_id sub64_id)
  show "pmm_init kernel_end mem_start mem_size p =
    (fold (\<lambda>i. bitmap_set i) [0..<r]
      (p\<lparr>mem_region_start := mem_start, mem_region_end := mem_start + mem_size,
         total_pages := tot, bitmap_size := (tot + 63) div 64,
         bitmap_ptr := page_align_up kernel_end,
         bitmap := (if tot mod 64 \<noteq> 0
           then (\<lambda>i. if i < (tot + 63) div 64 then 0 else bitmap p i)
                  ((tot + 63) div 64 - 1 := NOT (push_bit (tot mod 64) 1 - 1))
           else (\<lambda>i. if i < (tot + 63) div 64 then 0 else bitmap p i)),
         reserved_pages := r\<rparr>))
      \<lparr>used_pages := r\<rparr>"
    unfolding pmm_init_def Let_def tot_def [symmetric] wraps r by simp
qed

lemma word_count_exact: "(n :: nat) mod 64 = 0 \<Longrightarrow> (n + 63) div 64 * 64 = n"
  by (auto simp: mod_eq_0_iff_dvd elim!: dvdE)

lemma word_count_partial:
  assumes "(n :: nat) mod 64 \<noteq> 0" shows "(n + 63) div 64 = n div 64 + 1"
proof -
  have "n + 63 = (n mod 64 + 63) + n div 64 * 64"
    by simp
  then have "(n + 63) div 64 = (n mod 64 + 63) div 64 + n div 64"
    by (metis add.commute div_mult_self1 zero_neq_numeral)
  moreover have "(n mod 64 + 63) div 64 = 1"
    using assms by (intro div_nat_eqI) simp_all
  ultimately show ?thesis by simp
qed

lemma initial_bitmap_test:
  assumes "n < (tot + 63) div 64 * 64"
    and "bitmap q = (if tot mod 64 \<noteq> 0
           then (\<lambda>i. if i < (tot + 63) div 64 then 0 else bm i)
                  ((tot + 63) div 64 - 1 := NOT (push_bit (tot mod 64) 1 - 1))
           else (\<lambda>i. if i < (tot + 63) div 64 then 0 else bm i))"
  shows "bitmap_test n q \<longleftrightarrow> tot \<le> n"
proof (cases "tot mod 64 = 0")
  case True
  then have "(tot + 63) div 64 * 64 = tot"
    by (rule word_count_exact)
  moreover have "n div 64 < (tot + 63) div 64"
    using assms(1) by (simp add: less_mult_imp_div_less)
  ultimately show ?thesis
    using assms True by (simp add: bitmap_test_bit)
next
  case False
  have size: "(tot + 63) div 64 = tot div 64 + 1"
    using False by (rule word_count_partial)
  have n: "n div 64 \<le> tot div 64"
    using assms(1) size by (simp add: less_Suc_eq_le less_mult_imp_div_less)
  show ?thesis
  proof (cases "n div 64 = tot div 64")
    case True
    have "tot \<le> n \<longleftrightarrow> tot mod 64 \<le> n mod 64"
      using True by (metis add_le_cancel_left div_mult_mod_eq)
    with True False assms(2) size show ?thesis
      by (simp add: bitmap_test_bit bit_not_low_mask)
  next
    case less: False
    then have "n div 64 < tot div 64"
      using n by simp
    moreover from this have "n < tot"
      by (meson div_le_mono not_le)
    ultimately show ?thesis
      using False assms(2) size by (simp add: bitmap_test_bit)
  qed
qed

lemma pmm_init_inv_aux:
  assumes "pmm_layout_ok kernel_end mem_start mem_size"
  shows "pmm_inv (pmm_init kernel_end mem_start mem_size p)"
    and "used_set (pmm_init kernel_end mem_start mem_size p)
      = {..<pmm_reserve kernel_end mem_start mem_size}"
proof -
  define tot where "tot = mem_size div 4096"
  define r where "r = pmm_reserve kernel_end mem_start mem_size"
  define q where "q = pmm_init kernel_end mem_start mem_size p"
  note eq = pmm_init_eq(1) [OF assms, of p, folded tot_def r_def]
  note le = pmm_init_eq(2) [OF assms, folded tot_def r_def]
  have fields: "mem_region_start q = mem_start" "mem_region_end q = mem_start + mem_size"
    "total_pages q = tot" "bitmap_size q = (tot + 63) div 64" "reserved_pages q = r"
    "used_pages q = r"
    unfolding q_def eq by (simp_all add: frame_simps)
  have test: "bitmap_test n q \<longleftrightarrow> n < r \<or> tot \<le> n" if "n < (tot + 63) div 64 * 64" for n
    unfolding q_def eq using initial_bitmap_test [OF that] by simp
  have used: "used_set q = {..<r}"
    using test le by (auto simp: used_set_def fields)
  then show "used_set (pmm_init kernel_end mem_start mem_size p)
      = {..<pmm_reserve kernel_end mem_start mem_size}"
    by (simp add: q_def r_def)
  have "tot * 4096 = mem_size"
    using assms by (simp add: pmm_layout_ok_def tot_def mod_eq_0_iff_dvd)
  with used test le assms show "pmm_inv (pmm_init kernel_end mem_start mem_size p)"
    unfolding q_def [symmetric] by (auto simp: pmm_inv_def fields pmm_layout_ok_def)
qed

lemma pmm_init_covers:
  fixes p :: pmm
  assumes "pmm_layout_ok kernel_end mem_start mem_size"
  defines "q \<equiv> pmm_init kernel_end mem_start mem_size p"
  shows "reserved_pages q = pmm_reserve kernel_end mem_start mem_size"
    and "kernel_end \<le> bitmap_ptr q"
    and "bitmap_ptr q + bitmap_size q * 8 \<le> frame_addr q (reserved_pages q)"
proof -
  let ?base = "page_align_up kernel_end"
  let ?bytes = "(mem_size div 4096 + 63) div 64 * 8"
  let ?top = "page_align_up (?base + ?bytes)"
  note ok = assms(1) [unfolded pmm_layout_ok_def]
  have fields: "bitmap_ptr q = ?base" "bitmap_size q * 8 = ?bytes" "mem_region_start q = mem_start"
    "reserved_pages q = pmm_reserve kernel_end mem_start mem_size"
    unfolding q_def pmm_init_eq(1) [OF assms(1)] by (simp_all add: frame_simps)
  then show "reserved_pages q = pmm_reserve kernel_end mem_start mem_size" by simp
  have base: "kernel_end \<le> ?base"
    using ok by (intro page_align_up_bounds(1)) linarith
  with fields show "kernel_end \<le> bitmap_ptr q" by simp
  have fin: "?base + ?bytes \<le> ?top"
    using ok by (intro page_align_up_bounds(1)) linarith
  have "(?top - mem_start) mod 4096 = 0" "mem_start \<le> ?top"
    using ok base fin by (auto simp: mod_diff_0 page_align_up_mod)
  then have "frame_addr q (reserved_pages q) = ?top"
    unfolding fields frame_addr_def pmm_reserve_def by (simp add: div_mult_self_mod_0)
  with fin fields show "bitmap_ptr q + bitmap_size q * 8 \<le> frame_addr q (reserved_pages q)"
    by simp
qed

section \<open>Undoing an allocation\<close>

lemma pmm_eqI:
  fixes p q :: pmm
  assumes "\<And>n. bitmap_test n p = bitmap_test n q"
    and "bitmap_ptr p = bitmap_ptr q" "bitmap_size p = bitmap_size q" "total_pages p = total_pages q"
    "used_pages p = used_pages q" "reserved_pages p = reserved_pages q"
    "mem_region_start p = mem_region_start q" "mem_region_end p = mem_region_end q"
  shows "p = q"
proof -
  have "bitmap p i = bitmap q i" for i
  proof (rule bit_word_eqI)
    fix k assume "k < LENGTH(64)"
    with assms(1) [of "i * 64 + k"] show "bit (bitmap p i) k = bit (bitmap q i) k"
      by (simp add: bitmap_test_bit)
  qed
  then have "bitmap p = bitmap q" ..
  with assms(2-) show ?thesis by simp
qed

lemma pmm_drop_ptr [frame_simps]: "bitmap_ptr (pmm_drop p n) = bitmap_ptr p"
  by (simp add: pmm_drop_def frame_simps)

lemma pmm_free_page_frame:
  assumes "pmm_inv p" and "n < total_pages p" and "reserved_pages p \<le> n" and "bitmap_test n p"
  shows "pmm_free_page p (frame_addr p n) = pmm_drop p n"
  using assms(1)
proof (rule pmm_free_page_cases [of p "frame_addr p n"])
  assume "frame_addr p n \<notin> pmm_owned p - pmm_pinned p"
  moreover have "frame_addr p n \<notin> pmm_pinned p"
    using assms(3) by (auto simp: pmm_pinned_def)
  ultimately show ?thesis
    using assms(2,4) by (simp add: frame_addr_owned_iff)
qed simp

lemma pmm_free_frames:
  assumes "pmm_inv p" and "distinct ns"
    and "\<forall>n \<in> set ns. n < total_pages p \<and> reserved_pages p \<le> n \<and> bitmap_test n p"
  shows "fold (\<lambda>a p. pmm_free_page p a) (map (frame_addr p) ns) p = fold (\<lambda>n p. pmm_drop p n) ns p"
  using assms
proof (induction ns arbitrary: p)
  case (Cons n ns)
  have "pmm_free_page p (frame_addr p n) = pmm_drop p n"
    using Cons.prems by (intro pmm_free_page_frame) auto
  moreover have "fold (\<lambda>a p. pmm_free_page p a) (map (frame_addr (pmm_drop p n)) ns) (pmm_drop p n)
      = fold (\<lambda>n p. pmm_drop p n) ns (pmm_drop p n)"
    using Cons.prems by (intro Cons.IH) (auto simp: frame_simps pmm_drop_inv)
  ultimately show ?case
    by (simp add: pmm_drop_addr)
qed simp

lemma pmm_drop_all_fields [frame_simps]:
  "bitmap_ptr (fold (\<lambda>n p. pmm_drop p n) ns p) = bitmap_ptr p"
  "bitmap_size (fold (\<lambda>n p. pmm_drop p n) ns p) = bitmap_size p"
  "total_pages (fold (\<lambda>n p. pmm_drop p n) ns p) = total_pages p"
  "reserved_pages (fold (\<lambda>n p. pmm_drop p n) ns p) = reserved_pages p"
  "mem_region_start (fold (\<lambda>n p. pmm_drop p n) ns p) = mem_region_start p"
  "mem_region_end (fold (\<lambda>n p. pmm_drop p n) ns p) = mem_region_end p"
  by (rule fold_field, simp add: frame_simps)+

lemma pmm_drop_all_test:
  "bitmap_test m (fold (\<lambda>n p. pmm_drop p n) ns p) \<longleftrightarrow> m \<notin> set ns \<and> bitmap_test m p"
  by (induction ns arbitrary: p) auto

lemma pmm_free_pages_inv: "pmm_inv p \<Longrightarrow> pmm_inv (pmm_free_pages p a n)"
  by (rule frame_runs.freen_inv)

lemma pmm_take_run_undo:
  assumes "pmm_inv p" and "reserved_pages p \<le> s" and "s + n \<le> total_pages p" and "run_free p s n"
  shows "pmm_free_pages (pmm_take_run p s n) (frame_addr p s) n = p"
proof -
  define q where "q = pmm_take_run p s n"
  define d where "d = fold (\<lambda>n p. pmm_drop p n) [s..<s + n] q"
  have q: "pmm_inv q"
    using assms by (simp add: q_def pmm_take_run_inv)
  have addr: "frame_addr q = frame_addr p"
    by (simp add: fun_eq_iff frame_addr_def q_def frame_simps)
  have run: "page_run (frame_addr p s) n = map (frame_addr q) [s..<s + n]"
    using page_run_frame [OF assms(1,3)] by (simp add: addr)
  have freed: "pmm_free_pages q (frame_addr p s) n = d"
    unfolding pmm_free_pages_run run d_def using assms(2,3)
    by (intro pmm_free_frames q) (auto simp: q_def frame_simps)
  then have inv: "pmm_inv d"
    using pmm_free_pages_inv [OF q] by metis
  have test: "bitmap_test m d = bitmap_test m p" for m
    using assms(4) by (auto simp: d_def q_def pmm_drop_all_test run_free_def le_iff_add)
  have fields: "bitmap_size d = bitmap_size p" "total_pages d = total_pages p"
    "reserved_pages d = reserved_pages p" "mem_region_start d = mem_region_start p"
    "mem_region_end d = mem_region_end p" "bitmap_ptr d = bitmap_ptr p"
    by (simp_all add: d_def q_def frame_simps) (simp add: pmm_take_run_def frame_simps)
  have "used_pages d = used_pages p"
    using inv assms(1) test fields(2) by (simp add: pmm_inv_def used_set_def)
  then have "d = p"
    using test fields by (intro pmm_eqI) auto
  with freed show ?thesis by (simp add: q_def)
qed

section \<open>Properties\<close>

text \<open>
  A small concrete machine for the witnesses: 1000 frames from \<^verbatim>\<open>0x40000000\<close> with the
  kernel image ending in the third frame. 1000 is not a multiple of 64, so the last bitmap word
  has phantom bits.
\<close>

definition demo_pmm :: pmm where
  "demo_pmm = pmm_init 0x40002800 0x40000000 0x3E8000
     \<lparr>bitmap = (\<lambda>_. 7), bitmap_ptr = 0, bitmap_size = 0, total_pages = 0, used_pages = 0,
      reserved_pages = 0, mem_region_start = 0, mem_region_end = 0\<rparr>"

lemma demo_layout: "pmm_layout_ok 0x40002800 0x40000000 0x3E8000"
  by (simp add: pmm_layout_ok_def page_align_up_def u64_def)

lemma demo_pmm_inv: "pmm_inv demo_pmm"
  unfolding demo_pmm_def using demo_layout by (rule pmm_init_inv_aux)

lemma demo_reserve: "pmm_reserve 0x40002800 0x40000000 0x3E8000 = 4"
  by (simp add: pmm_reserve_def page_align_up_def u64_def)

lemma demo_pmm_fields:
  "total_pages demo_pmm = 1000" "reserved_pages demo_pmm = 4" "mem_region_start demo_pmm = 0x40000000"
  "mem_region_end demo_pmm = 0x403E8000"
  using demo_reserve
  by (simp_all add: demo_pmm_def pmm_init_eq(1) [OF demo_layout] frame_simps)

lemma demo_pmm_used: "used_set demo_pmm = {..<4}"
  unfolding demo_pmm_def pmm_init_inv_aux(2) [OF demo_layout] by (simp add: demo_reserve)

lemma demo_pmm_test: "n < 1000 \<Longrightarrow> bitmap_test n demo_pmm \<longleftrightarrow> n < 4"
  using demo_pmm_used demo_pmm_fields(1) by (auto simp: used_set_def set_eq_iff)

lemma demo_pmm_run:
  assumes "0 < n" and "n \<le> 996"
  shows "pmm_allocate_pages demo_pmm n = (pmm_take_run demo_pmm 4 n, 0x40004000)"
proof -
  have free: "run_free demo_pmm 4 n"
    using demo_pmm_test assms by (simp add: run_free_def)
  from demo_pmm_inv assms(1) show ?thesis
  proof (rule pmm_allocate_pages_cases)
    assume "\<forall>s. reserved_pages demo_pmm \<le> s \<and> s + n \<le> total_pages demo_pmm \<longrightarrow>
      \<not> run_free demo_pmm s n"
    with free assms show ?thesis by (auto simp: demo_pmm_fields dest: spec [of _ 4])
  next
    fix s assume s: "reserved_pages demo_pmm \<le> s"
      "\<forall>t. reserved_pages demo_pmm \<le> t \<and> t < s \<longrightarrow> \<not> run_free demo_pmm t n"
      "pmm_allocate_pages demo_pmm n = (pmm_take_run demo_pmm s n, frame_addr demo_pmm s)"
    then have "s = 4"
      using free by (cases "4 < s") (auto simp: demo_pmm_fields dest: spec [of _ 4])
    with s(3) show ?thesis by (simp add: frame_addr_def demo_pmm_fields)
  qed
qed



text \<open>
  C18. \<^verbatim>\<open>pmm_allocate_page\<close> returns the lowest free frame, marks it, and keeps the
  invariant; it returns 0 exactly when every frame is in use, and then changes nothing.
\<close>
theorem pmm_allocate_page_lowest:
  assumes "pmm_inv p"
  shows "pmm_allocate_page p =
      (if \<forall>n < total_pages p. bitmap_test n p then (p, 0)
       else (pmm_take p (LEAST n. \<not> bitmap_test n p), frame_addr p (LEAST n. \<not> bitmap_test n p)))
    \<and> pmm_inv (fst (pmm_allocate_page p))
    \<and> (snd (pmm_allocate_page p) \<noteq> 0 \<longrightarrow> snd (pmm_allocate_page p) \<notin> pmm_owned p)"
proof -
  have "pmm_allocate_page p =
      (if \<forall>n < total_pages p. bitmap_test n p then (p, 0)
       else (pmm_take p (LEAST n. \<not> bitmap_test n p), frame_addr p (LEAST n. \<not> bitmap_test n p)))"
    using assms
  proof (rule pmm_allocate_page_cases)
    fix n assume n: "n < total_pages p" "\<not> bitmap_test n p" "\<forall>m < n. bitmap_test m p"
      "pmm_allocate_page p = (pmm_take p n, frame_addr p n)"
    then have "(LEAST n. \<not> bitmap_test n p) = n"
      by (intro Least_equality) (auto simp: not_less [symmetric])
    with n show ?thesis by auto
  qed simp
  moreover have "pmm_inv (fst (pmm_allocate_page p))
      \<and> (snd (pmm_allocate_page p) \<noteq> 0 \<longrightarrow> snd (pmm_allocate_page p) \<notin> pmm_owned p)"
    using pmm_allocate_page_law [OF assms surjective_pairing] by metis
  ultimately show ?thesis by (rule conjI)
qed

theorem pmm_allocate_page_lowest_witness:
  "pmm_allocate_page demo_pmm = (pmm_take demo_pmm 4, 0x40004000)"
proof -
  have "(LEAST n. \<not> bitmap_test n demo_pmm) = 4"
  proof (rule Least_equality)
    show "4 \<le> y" if "\<not> bitmap_test y demo_pmm" for y
      using that demo_pmm_test [of y] by linarith
  qed (simp add: demo_pmm_test)
  moreover have "\<not> (\<forall>n < total_pages demo_pmm. bitmap_test n demo_pmm)"
    using demo_pmm_test [of 4] demo_pmm_fields by (auto intro!: exI [of _ 4])
  ultimately show ?thesis
    using pmm_allocate_page_lowest [OF demo_pmm_inv] demo_pmm_fields
    by (simp add: frame_addr_def)
qed

text \<open>
  C19. \<^verbatim>\<open>pmm_allocate_pages\<close> is first fit: it returns the lowest run of \<open>n\<close>
  free contiguous frames above the reserved ones, marks exactly that run and counts it; it
  returns 0 only when no such run exists, and then changes nothing.
\<close>
theorem pmm_allocate_pages_first_fit:
  assumes "pmm_inv p" and "0 < n"
  shows "pmm_allocate_pages p n = (p, 0) \<and>
      (\<forall>s. reserved_pages p \<le> s \<and> s + n \<le> total_pages p \<longrightarrow> \<not> run_free p s n) \<or>
    (\<exists>s q. pmm_allocate_pages p n = (q, frame_addr p s) \<and> frame_addr p s \<noteq> 0 \<and>
       reserved_pages p \<le> s \<and> s + n \<le> total_pages p \<and> run_free p s n \<and>
       (\<forall>t. reserved_pages p \<le> t \<and> t < s \<longrightarrow> \<not> run_free p t n) \<and>
       pmm_inv q \<and> used_set q = used_set p \<union> {s..<s + n} \<and> used_pages q = used_pages p + n)"
  using assms
proof (rule pmm_allocate_pages_cases)
  fix s assume s: "reserved_pages p \<le> s" "s + n \<le> total_pages p" "run_free p s n"
    "\<forall>t. reserved_pages p \<le> t \<and> t < s \<longrightarrow> \<not> run_free p t n"
    "pmm_allocate_pages p n = (pmm_take_run p s n, frame_addr p s)"
  have "frame_addr p s \<noteq> 0"
    using frame_addr_bounds(3) [OF assms(1), of s] s(2) assms(2) by simp
  moreover have "card (used_set p \<union> {s..<s + n}) = card (used_set p) + n"
    using run_free_used [OF s(3)] by (simp add: card_Un_disjoint)
  moreover have "pmm_inv (pmm_take_run p s n)"
    using assms s by (simp add: pmm_take_run_inv)
  moreover have "used_pages (pmm_take_run p s n) = card (used_set (pmm_take_run p s n))"
    "used_pages p = card (used_set p)"
    using \<open>pmm_inv (pmm_take_run p s n)\<close> assms(1) by (simp_all add: pmm_inv_def)
  ultimately show ?thesis
    using s pmm_take_run_used [OF s(2)] by (intro disjI2 exI [of _ s] exI) auto
qed blast

theorem pmm_allocate_pages_first_fit_witness:
  "\<exists>s q. pmm_allocate_pages demo_pmm 8 = (q, frame_addr demo_pmm s) \<and>
     used_set q = {..<4} \<union> {s..<s + 8}"
  using pmm_allocate_pages_first_fit [OF demo_pmm_inv, of 8] demo_pmm_run [of 8] demo_pmm_used
  by fastforce

text \<open>
  C20. \<^verbatim>\<open>pmm_free_page\<close> releases exactly the frames that were allocated and are not
  reserved; for every other address (outside the region, misaligned, reserved, already free) it
  changes nothing. It keeps the invariant either way.
\<close>
theorem pmm_free_page_exact:
  assumes "pmm_inv p"
  shows "pmm_inv (pmm_free_page p a) \<and>
    (if a \<in> pmm_owned p - pmm_pinned p
     then pmm_owned (pmm_free_page p a) = pmm_owned p - {a} \<and>
          used_pages (pmm_free_page p a) = used_pages p - 1
     else pmm_free_page p a = p)"
  using assms
proof (rule pmm_free_page_cases [of p a])
  fix n assume n: "a = frame_addr p n" "n < total_pages p" "reserved_pages p \<le> n"
    "bitmap_test n p" "pmm_free_page p a = pmm_drop p n"
  have pin: "a \<notin> pmm_pinned p"
    using n(1,3) by (auto simp: pmm_pinned_def)
  have "pmm_inv (pmm_drop p n)"
    using assms n by (simp add: pmm_drop_inv)
  moreover have "n \<in> used_set p"
    using n by (simp add: used_set_def)
  ultimately have "used_pages (pmm_drop p n) = used_pages p - 1"
    using assms by (simp add: pmm_inv_def pmm_drop_used)
  with n pin \<open>pmm_inv (pmm_drop p n)\<close> show ?thesis
    using pmm_free_page_owned [OF assms, of a] by (auto simp: frame_addr_owned_iff)
qed (use assms in auto)

theorem pmm_free_page_exact_witness:
  "pmm_free_page demo_pmm 0x40001000 = demo_pmm \<and> pmm_free_page demo_pmm 0x40004000 = demo_pmm"
proof -
  have "0x40001000 = frame_addr demo_pmm 1" "0x40004000 = frame_addr demo_pmm 4"
    by (simp_all add: frame_addr_def demo_pmm_fields)
  moreover have "frame_addr demo_pmm 1 \<in> pmm_pinned demo_pmm" "frame_addr demo_pmm 4 \<notin> pmm_owned demo_pmm"
    by (simp_all add: pmm_pinned_def demo_pmm_fields frame_addr_owned_iff demo_pmm_test)
  ultimately show ?thesis
    using pmm_free_page_exact [OF demo_pmm_inv] by auto
qed

text \<open>
  Freeing what a successful \<^verbatim>\<open>pmm_allocate_pages\<close> returned, with the same count,
  restores the allocator's state exactly: bitmap, counters and all.
\<close>
theorem pmm_allocate_free_roundtrip:
  assumes "pmm_inv p" and "pmm_allocate_pages p n = (q, a)" and "a \<noteq> 0"
  shows "pmm_free_pages q a n = p"
proof -
  have "0 < n"
    using assms(2,3) by (cases n) (auto simp: pmm_allocate_pages_def)
  with assms(1) show ?thesis
  proof (rule pmm_allocate_pages_cases)
    fix s assume "reserved_pages p \<le> s" "s + n \<le> total_pages p" "run_free p s n"
      "pmm_allocate_pages p n = (pmm_take_run p s n, frame_addr p s)"
    then show ?thesis using assms pmm_take_run_undo by simp
  qed (use assms in simp)
qed

theorem pmm_allocate_free_roundtrip_witness:
  "pmm_free_pages (pmm_take_run demo_pmm 4 8) 0x40004000 8 = demo_pmm"
  using pmm_allocate_free_roundtrip [OF demo_pmm_inv demo_pmm_run [of 8]] by simp

end
