(* ===== verification/Heap.thy ===== *)
theory Heap
  imports Pmm "HOL-Library.Monad_Syntax"
begin

text \<open>
  The kernel heap, \<^verbatim>\<open>src/src/mm/heap/heap.c\<close>: a first-fit allocator over a singly
  linked list of blocks, each a 32-byte header followed by its payload, in regions obtained from
  the physical memory manager.

  \<open>hmem\<close> is the memory the header pointers address: \<open>hmem a\<close> is the
  \<^verbatim>\<open>block_header\<close> stored at address \<open>a\<close>. Headers live at 16-byte aligned,
  non-overlapping addresses (the invariant \<open>heap_inv\<close> says so), which is what makes this
  typed view of memory exact; payload bytes are not part of the state. Address 0 is
  \<^verbatim>\<open>NULL\<close>. The list walks are \<open>partial_function (option)\<close>: \<open>None\<close> is a
  walk that does not return, or a \<^verbatim>\<open>NULL\<close> header that is dereferenced. Under the invariant
  every operation is proved to return.
\<close>

section \<open>State\<close>

record block_header =
  bh_size :: nat
  bh_magic :: nat
  bh_is_free :: nat
  bh_next :: nat

record heap_region =
  va_start :: nat
  size_bytes :: nat

record heap =
  pool :: pmm
  heap_head :: nat
  hmem :: "nat \<Rightarrow> block_header"
  regions :: "heap_region list"

abbreviation (input) HEAP_INITIAL_PAGES :: nat where "HEAP_INITIAL_PAGES \<equiv> 256"
abbreviation (input) HEAP_MIN_BLOCK_SIZE :: nat where "HEAP_MIN_BLOCK_SIZE \<equiv> 32"
abbreviation (input) HEAP_MAX_REGIONS :: nat where "HEAP_MAX_REGIONS \<equiv> 16"
abbreviation (input) HEAP_EXPAND_MIN_PAGES :: nat where "HEAP_EXPAND_MIN_PAGES \<equiv> 64"
abbreviation (input) BLOCK_HEADER_SIZE :: nat where "BLOCK_HEADER_SIZE \<equiv> 32"

definition BLOCK_MAGIC_ALLOC :: nat where "BLOCK_MAGIC_ALLOC = 0xA110CED"
definition BLOCK_MAGIC_FREE :: nat where "BLOCK_MAGIC_FREE = 0xFEEDF1EE"

definition heap_align_up :: "nat \<Rightarrow> nat" where
  "heap_align_up x = u64 (x + 15) div 16 * 16"

definition zero_header :: block_header where
  "zero_header = \<lparr>bh_size = 0, bh_magic = 0, bh_is_free = 0, bh_next = 0\<rparr>"

definition memset_zero :: "nat \<Rightarrow> nat \<Rightarrow> (nat \<Rightarrow> block_header) \<Rightarrow> nat \<Rightarrow> block_header" where
  "memset_zero va len mem = (\<lambda>a. if va \<le> a \<and> a < va + len then zero_header else mem a)"

section \<open>Regions\<close>

definition register_region :: "heap \<Rightarrow> nat \<Rightarrow> nat \<Rightarrow> heap \<times> bool" where
  "register_region h va bytes =
     (if HEAP_MAX_REGIONS \<le> length (regions h) then (h, False)
      else (h\<lparr>regions := regions h @ [\<lparr>va_start = va, size_bytes = bytes\<rparr>]\<rparr>, True))"

definition addr_in_any_region :: "heap \<Rightarrow> nat \<Rightarrow> bool" where
  "addr_in_any_region h addr \<longleftrightarrow>
     list_ex (\<lambda>r. va_start r \<le> addr \<and> addr < u64 (va_start r + size_bytes r)) (regions h)"

definition heap_init :: "heap \<Rightarrow> heap" where
  "heap_init h =
     (let (p, phys) = pmm_allocate_pages (pool h) HEAP_INITIAL_PAGES
      in if phys = 0 then h\<lparr>pool := p\<rparr>
         else (let va = phys_to_virt phys;
                   size = HEAP_INITIAL_PAGES * PAGE_SIZE;
                   mem = memset_zero va size (hmem h);
                   head = \<lparr>bh_size = size - BLOCK_HEADER_SIZE, bh_magic = BLOCK_MAGIC_FREE,
                           bh_is_free = 1, bh_next = 0\<rparr>
               in fst (register_region (h\<lparr>pool := p, heap_head := va, hmem := mem(va := head)\<rparr>)
                         va size)))"

section \<open>Growing the heap\<close>

partial_function (option) heap_tail :: "(nat \<Rightarrow> block_header) \<Rightarrow> nat \<Rightarrow> nat option" where
  "heap_tail mem tail =
     (if bh_next (mem tail) \<noteq> 0 then heap_tail mem (bh_next (mem tail)) else Some tail)"

definition heap_expand :: "heap \<Rightarrow> nat \<Rightarrow> (heap \<times> bool) option" where
  "heap_expand h need_bytes =
     (let bytes_required = u64 (need_bytes + BLOCK_HEADER_SIZE);
          want = u64 (bytes_required + 4095) div PAGE_SIZE;
          pages = (if want < HEAP_EXPAND_MIN_PAGES then HEAP_EXPAND_MIN_PAGES else want);
          (p, phys) = pmm_allocate_pages (pool h) pages
      in if phys = 0 then Some (h\<lparr>pool := p\<rparr>, False)
         else (let va = phys_to_virt phys;
                   bytes = u64 (pages * PAGE_SIZE);
                   mem = (memset_zero va bytes (hmem h))
                     (va := \<lparr>bh_size = sub64 bytes BLOCK_HEADER_SIZE, bh_magic = BLOCK_MAGIC_FREE,
                             bh_is_free = 1, bh_next = 0\<rparr>)
               in if heap_head h = 0 then None
                  else do {
                    tail \<leftarrow> heap_tail mem (heap_head h);
                    let linked = mem(tail := (mem tail)\<lparr>bh_next := va\<rparr>);
                    let (h', ok) = register_region (h\<lparr>pool := p, hmem := linked\<rparr>) va bytes;
                    if ok then Some (h', True)
                    else Some (h'\<lparr>hmem := linked(tail := (linked tail)\<lparr>bh_next := 0\<rparr>),
                                  pool := pmm_free_pages (pool h') phys pages\<rparr>, False)
                  }))"

section \<open>Allocation\<close>

text \<open>The first-fit walk of \<^verbatim>\<open>kmalloc\<close>; 0 is a walk that reached the end of the list.\<close>

partial_function (option) kmalloc_fit :: "(nat \<Rightarrow> block_header) \<Rightarrow> nat \<Rightarrow> nat \<Rightarrow> nat option" where
  "kmalloc_fit mem sz current =
     (if current = 0 then Some 0
      else if bh_is_free (mem current) \<noteq> 0 \<and> sz \<le> bh_size (mem current) then Some current
      else kmalloc_fit mem sz (bh_next (mem current)))"

text \<open>The body of the successful branch: split when the rest is worth a block, then mark.\<close>

definition kmalloc_split :: "(nat \<Rightarrow> block_header) \<Rightarrow> nat \<Rightarrow> nat \<Rightarrow> nat \<Rightarrow> block_header" where
  "kmalloc_split mem current sz =
     (let remaining = sub64 (bh_size (mem current)) sz in
      if BLOCK_HEADER_SIZE + HEAP_MIN_BLOCK_SIZE < remaining then
        (let new_block = u64 (current + BLOCK_HEADER_SIZE + sz);
             mem1 = mem(new_block := \<lparr>bh_size = sub64 remaining BLOCK_HEADER_SIZE,
                          bh_magic = BLOCK_MAGIC_FREE, bh_is_free = 1,
                          bh_next = bh_next (mem current)\<rparr>)
         in mem1(current := (mem1 current)\<lparr>bh_size := sz, bh_next := new_block\<rparr>))
      else mem)"

definition kmalloc_take :: "(nat \<Rightarrow> block_header) \<Rightarrow> nat \<Rightarrow> nat \<Rightarrow> nat \<Rightarrow> block_header" where
  "kmalloc_take mem current sz =
     (let m = kmalloc_split mem current sz
      in m(current := (m current)\<lparr>bh_is_free := 0, bh_magic := BLOCK_MAGIC_ALLOC\<rparr>))"

text \<open>The \<^verbatim>\<open>attempt\<close> loop, its argument the number of iterations left.\<close>

fun kmalloc_attempts :: "nat \<Rightarrow> heap \<Rightarrow> nat \<Rightarrow> (heap \<times> nat) option" where
  "kmalloc_attempts 0 h sz = Some (h, 0)"
| "kmalloc_attempts (Suc left) h sz = do {
     current \<leftarrow> kmalloc_fit (hmem h) sz (heap_head h);
     if current \<noteq> 0 then
       Some (h\<lparr>hmem := kmalloc_take (hmem h) current sz\<rparr>, u64 (current + BLOCK_HEADER_SIZE))
     else do {
       (h', ok) \<leftarrow> heap_expand h sz;
       if ok then kmalloc_attempts left h' sz else Some (h', 0)
     }
   }"

definition kmalloc :: "heap \<Rightarrow> nat \<Rightarrow> (heap \<times> nat) option" where
  "kmalloc h sz =
     (if sz = 0 then Some (h, 0)
      else if 2 ^ 64 - 1 - 15 < sz then Some (h, 0)
      else kmalloc_attempts 2 h (heap_align_up sz))"

section \<open>Release\<close>

partial_function (option)
  coalesce_at :: "(nat \<Rightarrow> block_header) \<Rightarrow> nat \<Rightarrow> (nat \<Rightarrow> block_header) option"
where
  "coalesce_at mem current =
     (let hdr = mem current; nxt = bh_next hdr in
      if bh_is_free hdr \<noteq> 0 \<and> nxt \<noteq> 0 \<and> bh_is_free (mem nxt) \<noteq> 0 \<and>
         u64 (current + BLOCK_HEADER_SIZE + bh_size hdr) = nxt
      then coalesce_at (mem(current := hdr\<lparr>
             bh_size := u64 (bh_size hdr + u64 (BLOCK_HEADER_SIZE + bh_size (mem nxt))),
             bh_next := bh_next (mem nxt)\<rparr>)) current
      else Some mem)"

partial_function (option)
  coalesce :: "(nat \<Rightarrow> block_header) \<Rightarrow> nat \<Rightarrow> (nat \<Rightarrow> block_header) option"
where
  "coalesce mem current =
     (if current = 0 then Some mem
      else do { mem' \<leftarrow> coalesce_at mem current; coalesce mem' (bh_next (mem' current)) })"

definition kfree :: "heap \<Rightarrow> nat \<Rightarrow> heap option" where
  "kfree h ptr =
     (if ptr = 0 then Some h
      else (let block = sub64 ptr BLOCK_HEADER_SIZE in
        if \<not> addr_in_any_region h block then Some h
        else if bh_magic (hmem h block) \<noteq> BLOCK_MAGIC_ALLOC then Some h
        else if bh_is_free (hmem h block) \<noteq> 0 then Some h
        else do {
          mem \<leftarrow> coalesce ((hmem h)(block := (hmem h block)
                  \<lparr>bh_is_free := 1, bh_magic := BLOCK_MAGIC_FREE\<rparr>)) (heap_head h);
          Some (h\<lparr>hmem := mem\<rparr>)
        }))"

section \<open>Statistics\<close>

partial_function (option)
  sum_blocks :: "(block_header \<Rightarrow> bool) \<Rightarrow> (nat \<Rightarrow> block_header) \<Rightarrow> nat \<Rightarrow> nat \<Rightarrow> nat option"
where
  "sum_blocks sel mem c acc =
     (if c = 0 then Some acc
      else sum_blocks sel mem (bh_next (mem c))
             (if sel (mem c) then u64 (acc + bh_size (mem c)) else acc))"

definition heap_used_bytes :: "heap \<Rightarrow> nat option" where
  "heap_used_bytes h = sum_blocks (\<lambda>b. bh_is_free b = 0) (hmem h) (heap_head h) 0"

definition heap_free_bytes :: "heap \<Rightarrow> nat option" where
  "heap_free_bytes h = sum_blocks (\<lambda>b. bh_is_free b \<noteq> 0) (hmem h) (heap_head h) 0"

definition heap_total_bytes :: "heap \<Rightarrow> nat" where
  "heap_total_bytes h = fold (\<lambda>r total. u64 (total + size_bytes r)) (regions h) 0"

section \<open>Block lists\<close>

fun bpath :: "(nat \<Rightarrow> block_header) \<Rightarrow> nat \<Rightarrow> nat list \<Rightarrow> nat \<Rightarrow> bool" where
  "bpath m p [] q \<longleftrightarrow> p = q"
| "bpath m p (b # bs) q \<longleftrightarrow> p = b \<and> b \<noteq> 0 \<and> bpath m (bh_next (m b)) bs q"

abbreviation blist :: "(nat \<Rightarrow> block_header) \<Rightarrow> nat \<Rightarrow> nat list \<Rightarrow> bool" where
  "blist m p bs \<equiv> bpath m p bs 0"

lemma bpath_append [simp]: "bpath m p (xs @ ys) q \<longleftrightarrow> (\<exists>r. bpath m p xs r \<and> bpath m r ys q)"
  by (induction xs arbitrary: p) auto

lemma bpath_cong:
  "\<forall>b \<in> set bs. bh_next (m b) = bh_next (m' b) \<Longrightarrow> bpath m p bs q \<longleftrightarrow> bpath m' p bs q"
  by (induction bs arbitrary: p) auto

lemma bpath_nonzero: "bpath m p bs q \<Longrightarrow> b \<in> set bs \<Longrightarrow> b \<noteq> 0"
  by (induction bs arbitrary: p) auto

lemma blist_unique: "blist m p bs \<Longrightarrow> blist m p cs \<Longrightarrow> bs = cs"
proof (induction bs arbitrary: p cs)
  case Nil
  then show ?case by (cases cs) auto
next
  case (Cons b bs)
  then show ?case by (cases cs) auto
qed

lemma blist_not_later: "blist m (bh_next (m b)) bs \<Longrightarrow> b \<notin> set bs"
proof
  assume bs: "blist m (bh_next (m b)) bs" and "b \<in> set bs"
  then obtain xs ys where split: "bs = xs @ b # ys"
    by (auto simp: in_set_conv_decomp)
  with bs have "blist m (bh_next (m b)) ys"
    by auto
  with bs have "bs = ys"
    by (rule blist_unique)
  with split show False by simp
qed

lemma blist_distinct: "blist m p bs \<Longrightarrow> distinct bs"
  by (induction bs arbitrary: p) (auto simp: blist_not_later)

lemma blist_insert_after:
  assumes "blist m p (xs @ c # ys)" and "n \<notin> set (xs @ c # ys)" and "n \<noteq> 0"
    and "bh_next (m' c) = n" and "bh_next (m' n) = bh_next (m c)"
    and "\<forall>b \<in> set (xs @ ys). bh_next (m' b) = bh_next (m b)"
  shows "blist m' p (xs @ c # n # ys)"
proof -
  from assms(1) have "bpath m p xs c" "c \<noteq> 0" "blist m (bh_next (m c)) ys"
    by auto
  moreover from this have "bpath m' p xs c" "blist m' (bh_next (m c)) ys"
    using assms(6) bpath_cong [of xs m m'] bpath_cong [of ys m m'] by auto
  ultimately show ?thesis
    using assms(3-5) by simp
qed

lemma blist_remove_after:
  assumes "blist m p (xs @ c # d # ys)"
    and "bh_next (m' c) = bh_next (m d)"
    and "\<forall>b \<in> set (xs @ ys). bh_next (m' b) = bh_next (m b)"
  shows "blist m' p (xs @ c # ys)"
proof -
  from assms(1) have "bpath m p xs c" "c \<noteq> 0" "blist m (bh_next (m d)) ys"
    by auto
  moreover from this have "bpath m' p xs c" "blist m' (bh_next (m d)) ys"
    using assms(3) bpath_cong [of xs m m'] bpath_cong [of ys m m'] by auto
  ultimately show ?thesis
    using assms(2) by simp
qed

section \<open>Tilings\<close>

text \<open>
  The bytes a block covers, header included, and a well-formed header. A set of blocks tiles a
  set of bytes when the blocks are well formed, pairwise disjoint and cover exactly those bytes.
\<close>

definition extent :: "(nat \<Rightarrow> block_header) \<Rightarrow> nat \<Rightarrow> nat set" where
  "extent m b = {b..<b + 32 + bh_size (m b)}"

definition block_ok :: "(nat \<Rightarrow> block_header) \<Rightarrow> nat \<Rightarrow> bool" where
  "block_ok m b \<longleftrightarrow>
     b mod 16 = 0 \<and> bh_size (m b) mod 16 = 0 \<and> b + 32 + bh_size (m b) < 2 ^ 64 \<and>
     (bh_is_free (m b) = 0 \<and> bh_magic (m b) = BLOCK_MAGIC_ALLOC \<or>
      bh_is_free (m b) = 1 \<and> bh_magic (m b) = BLOCK_MAGIC_FREE)"

definition tiling :: "(nat \<Rightarrow> block_header) \<Rightarrow> nat set \<Rightarrow> nat set \<Rightarrow> bool" where
  "tiling m B R \<longleftrightarrow>
     (\<forall>b \<in> B. block_ok m b) \<and>
     (\<forall>b \<in> B. \<forall>c \<in> B. b \<noteq> c \<longrightarrow> extent m b \<inter> extent m c = {}) \<and>
     (\<Union>b \<in> B. extent m b) = R"

lemma extent_start [simp]: "b \<in> extent m b"
  by (simp add: extent_def)

lemma tiling_ok: "tiling m B R \<Longrightarrow> b \<in> B \<Longrightarrow> block_ok m b"
  by (simp add: tiling_def)

lemma tiling_inside: "tiling m B R \<Longrightarrow> b \<in> B \<Longrightarrow> extent m b \<subseteq> R"
  by (auto simp: tiling_def)

lemma tiling_disjoint: "tiling m B R \<Longrightarrow> b \<in> B \<Longrightarrow> c \<in> B \<Longrightarrow> b \<noteq> c \<Longrightarrow> extent m b \<inter> extent m c = {}"
  by (simp add: tiling_def)

lemma tiling_start_unique:
  assumes "tiling m B R" and "c \<in> B" and "n \<in> extent m c" and "n \<noteq> c"
  shows "n \<notin> B"
proof
  assume "n \<in> B"
  with assms have "extent m n \<inter> extent m c = {}"
    by (intro tiling_disjoint)
  with assms(3) show False
    using extent_start [of n m] by blast
qed

lemma extent_cong: "bh_size (m' b) = bh_size (m b) \<Longrightarrow> extent m' b = extent m b"
  by (simp add: extent_def)

lemma tiling_same_sizes:
  assumes "tiling m B R" and "\<forall>b \<in> B. bh_size (m' b) = bh_size (m b)" and "\<forall>b \<in> B. block_ok m' b"
  shows "tiling m' B R"
proof -
  have "\<forall>b \<in> B. extent m' b = extent m b"
    using assms(2) by (simp add: extent_def)
  then show ?thesis
    using assms(1,3) by (simp add: tiling_def)
qed

lemma tiling_split:
  assumes "tiling m B R" and "c \<in> B" and "n \<notin> B"
    and "extent m' c \<union> extent m' n = extent m c" and "extent m' c \<inter> extent m' n = {}"
    and "block_ok m' c" and "block_ok m' n" and "\<forall>b \<in> B - {c}. m' b = m b"
  shows "tiling m' (insert n B) R"
proof -
  have same: "extent m' b = extent m b \<and> block_ok m' b" if "b \<in> B" "b \<noteq> c" for b
    using that assms(1,8) by (auto simp: extent_def block_ok_def tiling_def)
  have away: "extent m b \<inter> extent m c = {}" if "b \<in> B" "b \<noteq> c" for b
    using that assms(1,2) by (intro tiling_disjoint)
  have "(\<Union>b \<in> insert n B. extent m' b) = (\<Union>b \<in> B - {c}. extent m' b) \<union> extent m' c \<union> extent m' n"
    using assms(2) by auto
  also have "\<dots> = (\<Union>b \<in> B - {c}. extent m b) \<union> extent m c"
    using same assms(4) by auto
  also have "\<dots> = R"
    using assms(1,2) by (auto simp: tiling_def)
  finally have cover: "(\<Union>b \<in> insert n B. extent m' b) = R" .
  have sub: "extent m' c \<subseteq> extent m c" "extent m' n \<subseteq> extent m c"
    using assms(4) by auto
  have "extent m' b \<inter> extent m' d = {}" if "b \<in> insert n B" "d \<in> insert n B" "b \<noteq> d" for b d
    using that sub assms(1,5) same away tiling_disjoint [OF assms(1), of b d]
    by (cases "b \<in> {c, n}"; cases "d \<in> {c, n}") (auto, blast+)
  then show ?thesis
    using cover same assms(6,7) by (auto simp: tiling_def)
qed

lemma tiling_merge:
  assumes "tiling m B R" and "c \<in> B" and "d \<in> B" and "c \<noteq> d"
    and "extent m' c = extent m c \<union> extent m d" and "block_ok m' c" and "\<forall>b \<in> B - {c}. m' b = m b"
  shows "tiling m' (B - {d}) R"
proof -
  have same: "extent m' b = extent m b \<and> block_ok m' b" if "b \<in> B" "b \<noteq> c" for b
    using that assms(1,7) by (auto simp: extent_def block_ok_def tiling_def)
  have "(\<Union>b \<in> B - {d}. extent m' b) = (\<Union>b \<in> B - {c, d}. extent m' b) \<union> extent m' c"
    using assms(2,4) by auto
  also have "\<dots> = (\<Union>b \<in> B - {c, d}. extent m b) \<union> (extent m c \<union> extent m d)"
    using same assms(5) by auto
  also have "\<dots> = R"
    using assms(1-3) by (auto simp: tiling_def)
  finally have cover: "(\<Union>b \<in> B - {d}. extent m' b) = R" .
  have "extent m' b \<inter> extent m' e = {}" if "b \<in> B - {d}" "e \<in> B - {d}" "b \<noteq> e" for b e
  proof -
    have "extent m b \<inter> extent m e = {}" "extent m b \<inter> extent m d = {}" "extent m d \<inter> extent m e = {}"
      using that assms(1,3) by (auto dest: tiling_disjoint)
    then show ?thesis
      using that same assms(5) by (cases "b = c"; cases "e = c") auto
  qed
  then show ?thesis
    using cover same assms(6) by (auto simp: tiling_def)
qed

lemma tiling_add:
  assumes "tiling m B R" and "n \<notin> B" and "extent m' n \<inter> R = {}" and "block_ok m' n"
    and "\<forall>b \<in> B. bh_size (m' b) = bh_size (m b)" and "\<forall>b \<in> B. block_ok m' b"
  shows "tiling m' (insert n B) (R \<union> extent m' n)"
proof -
  have old: "tiling m' B R"
    using assms(1,5,6) by (rule tiling_same_sizes)
  then have "extent m' b \<inter> extent m' n = {}" if "b \<in> B" for b
    using that assms(3) tiling_inside [OF old that] by blast
  with old assms(4) show ?thesis
    by (auto simp: tiling_def)
qed

section \<open>Invariant\<close>

definition blocks_inv :: "(nat \<Rightarrow> block_header) \<Rightarrow> nat \<Rightarrow> nat list \<Rightarrow> nat set \<Rightarrow> bool" where
  "blocks_inv m head bs R \<longleftrightarrow> blist m head bs \<and> tiling m (set bs) R"

definition allocs_of :: "(nat \<Rightarrow> block_header) \<Rightarrow> nat list \<Rightarrow> (nat \<times> nat) set" where
  "allocs_of m bs = (\<lambda>b. (b + 32, bh_size (m b))) ` {b \<in> set bs. bh_is_free (m b) = 0}"

text \<open>The live allocations, as payload address and size.\<close>

definition allocs :: "heap \<Rightarrow> (nat \<times> nat) set" where
  "allocs h = \<Union> (allocs_of (hmem h) ` {bs. blist (hmem h) (heap_head h) bs})"

definition region_bytes :: "heap \<Rightarrow> nat set" where
  "region_bytes h = (\<Union>r \<in> set (regions h). {va_start r..<va_start r + size_bytes r})"

definition page_of :: "nat \<Rightarrow> nat" where
  "page_of x = (x - KERNEL_VA_OFFSET) div 4096 * 4096"

text \<open>
  The regions do not overlap (their sizes add up to the bytes they cover), lie in pages the heap
  holds from the memory manager, and are tiled by the blocks of the list.
\<close>

definition heap_regions_ok :: "heap \<Rightarrow> bool" where
  "heap_regions_ok h \<longleftrightarrow>
     pmm_inv (pool h) \<and> mem_region_end (pool h) < 2 ^ 48 \<and> length (regions h) \<le> 16 \<and>
     (\<forall>r \<in> set (regions h). va_start r + size_bytes r < 2 ^ 64) \<and>
     sum_list (map size_bytes (regions h)) = card (region_bytes h) \<and>
     (\<forall>x \<in> region_bytes h. KERNEL_VA_OFFSET \<le> x \<and> page_of x \<in> pmm_owned (pool h) - pmm_pinned (pool h))"

definition heap_inv :: "heap \<Rightarrow> bool" where
  "heap_inv h \<longleftrightarrow>
     heap_regions_ok h \<and> heap_head h \<noteq> 0 \<and>
     (\<exists>bs. blocks_inv (hmem h) (heap_head h) bs (region_bytes h))"

text \<open>The allocated pages that belong to somebody other than the heap.\<close>

definition foreign :: "heap \<Rightarrow> nat set" where
  "foreign h = pmm_owned (pool h) - pmm_pinned (pool h) - page_of ` region_bytes h"

lemma allocs_eq: "blist (hmem h) (heap_head h) bs \<Longrightarrow> allocs h = allocs_of (hmem h) bs"
proof -
  assume "blist (hmem h) (heap_head h) bs"
  then have "{bs. blist (hmem h) (heap_head h) bs} = {bs}"
    using blist_unique by blast
  then show ?thesis by (simp add: allocs_def)
qed

lemma blocks_inv_cong:
  assumes "blocks_inv m head bs R" and "\<forall>b \<in> set bs. m' b = m b"
  shows "blocks_inv m' head bs R" and "allocs_of m' bs = allocs_of m bs"
proof -
  have til: "tiling m (set bs) R"
    using assms(1) by (simp add: blocks_inv_def)
  have "tiling m' (set bs) R"
    using tiling_ok [OF til] assms(2)
    by (intro tiling_same_sizes [OF til]) (simp_all add: block_ok_def)
  moreover have "blist m' head bs"
    using assms bpath_cong [of bs m m' head 0] by (simp add: blocks_inv_def)
  ultimately show "blocks_inv m' head bs R" by (simp add: blocks_inv_def)
  show "allocs_of m' bs = allocs_of m bs"
    using assms(2) by (auto simp: allocs_of_def image_iff)
qed

lemma heap_invE:
  assumes "heap_inv h"
  obtains bs where "blist (hmem h) (heap_head h) bs" "tiling (hmem h) (set bs) (region_bytes h)"
    "blocks_inv (hmem h) (heap_head h) bs (region_bytes h)" "bs \<noteq> []"
    "allocs h = allocs_of (hmem h) bs"
proof -
  from assms obtain bs where "blocks_inv (hmem h) (heap_head h) bs (region_bytes h)" "heap_head h \<noteq> 0"
    by (auto simp: heap_inv_def)
  then show thesis
    using allocs_eq by (intro that [of bs]) (auto simp: blocks_inv_def)
qed

lemma allocs_disjoint:
  assumes "heap_inv h" and "(p, j) \<in> allocs h" and "(q, k) \<in> allocs h" and "p \<noteq> q"
  shows "{p - 32..<p + j} \<inter> {q - 32..<q + k} = {}"
proof -
  from assms(1) obtain bs where bs: "tiling (hmem h) (set bs) (region_bytes h)"
    "allocs h = allocs_of (hmem h) bs"
    by (rule heap_invE)
  with assms(2,3) obtain b c where "b \<in> set bs" "p = b + 32" "j = bh_size (hmem h b)"
    "c \<in> set bs" "q = c + 32" "k = bh_size (hmem h c)"
    by (auto simp: allocs_of_def)
  with tiling_disjoint [OF bs(1), of b c] assms(4) show ?thesis
    by (simp add: extent_def)
qed

lemma allocs_nonzero: "heap_inv h \<Longrightarrow> (p, k) \<in> allocs h \<Longrightarrow> p \<noteq> 0"
  by (auto simp: allocs_def allocs_of_def)

lemma allocs_functional:
  assumes "heap_inv h" and "(p, j) \<in> allocs h" and "(p, k) \<in> allocs h"
  shows "j = k"
proof -
  from assms(1) obtain bs where "allocs h = allocs_of (hmem h) bs"
    by (rule heap_invE)
  with assms(2,3) show ?thesis by (auto simp: allocs_of_def)
qed

section \<open>Marking and splitting blocks\<close>

lemma blocks_inv_mark:
  assumes "blocks_inv m head bs R" and "c \<in> set bs"
    and "f = 0 \<and> mg = BLOCK_MAGIC_ALLOC \<or> f = 1 \<and> mg = BLOCK_MAGIC_FREE"
  shows "blocks_inv (m(c := (m c)\<lparr>bh_is_free := f, bh_magic := mg\<rparr>)) head bs R"
    (is "blocks_inv ?m _ _ _")
proof -
  have til: "tiling m (set bs) R"
    using assms(1) by (simp add: blocks_inv_def)
  have "block_ok ?m b" if "b \<in> set bs" for b
    using tiling_ok [OF til that] assms(3) by (cases "b = c") (auto simp: block_ok_def)
  then have "tiling ?m (set bs) R"
    by (intro tiling_same_sizes [OF til]) simp_all
  moreover have "blist ?m head bs"
    using assms(1) bpath_cong [of bs m ?m head 0] by (simp add: blocks_inv_def)
  ultimately show ?thesis by (simp add: blocks_inv_def)
qed

lemma allocs_of_mark_used:
  assumes "c \<in> set bs"
  shows "allocs_of (m(c := (m c)\<lparr>bh_is_free := 0, bh_magic := mg\<rparr>)) bs
    = insert (c + 32, bh_size (m c)) (allocs_of m bs)"
  using assms by (auto simp: allocs_of_def image_iff)

lemma allocs_of_mark_free:
  "allocs_of (m(c := (m c)\<lparr>bh_is_free := 1, bh_magic := mg\<rparr>)) bs
    = allocs_of m bs - {(c + 32, bh_size (m c))}"
  by (auto simp: allocs_of_def image_iff)

lemma kmalloc_split_blocks:
  assumes inv: "blocks_inv m head bs R" and c: "c \<in> set bs" and free: "bh_is_free (m c) \<noteq> 0"
    and fit: "sz \<le> bh_size (m c)" and sz: "sz mod 16 = 0"
  obtains bs' where "blocks_inv (kmalloc_split m c sz) head bs' R" "c \<in> set bs'"
    "bh_is_free (kmalloc_split m c sz c) = bh_is_free (m c)" "sz \<le> bh_size (kmalloc_split m c sz c)"
    "allocs_of (kmalloc_split m c sz) bs' = allocs_of m bs"
proof -
  have til: "tiling m (set bs) R" and lst: "blist m head bs"
    using inv by (simp_all add: blocks_inv_def)
  have ok: "block_ok m c"
    using til c by (rule tiling_ok)
  then have size: "bh_size (m c) < 2 ^ 64" "c + 32 + bh_size (m c) < 2 ^ 64"
    by (auto simp: block_ok_def)
  have rem: "sub64 (bh_size (m c)) sz = bh_size (m c) - sz"
    using fit size(1) by (rule sub64_id)
  show thesis
  proof (cases "64 < bh_size (m c) - sz")
    case False
    then have "kmalloc_split m c sz = m"
      by (simp add: kmalloc_split_def rem)
    with inv c fit show thesis by (intro that [of bs]) simp_all
  next
    case True
    define n where "n = c + 32 + sz"
    define m' where "m' = kmalloc_split m c sz"
    have n: "u64 (c + 32 + sz) = n"
      using fit size(2) by (simp add: n_def u64_id)
    have "sub64 (bh_size (m c) - sz) 32 = bh_size (m c) - sz - 32"
      using True size(1) by (intro sub64_id) linarith+
    then have m': "m' = m(n := \<lparr>bh_size = bh_size (m c) - sz - 32, bh_magic = BLOCK_MAGIC_FREE,
        bh_is_free = 1, bh_next = bh_next (m c)\<rparr>, c := (m c)\<lparr>bh_size := sz, bh_next := n\<rparr>)"
      using True n by (simp add: m'_def kmalloc_split_def rem Let_def n_def fun_upd_twist)
    have "n \<noteq> c" and inside: "n \<in> extent m c"
      using True by (auto simp: n_def extent_def)
    then have new: "n \<notin> set bs"
      using til c by (intro tiling_start_unique)
    obtain xs ys where bs: "bs = xs @ c # ys"
      using c by (auto simp: in_set_conv_decomp)
    then have c': "c \<notin> set (xs @ ys)"
      using blist_distinct [OF lst] by auto
    have "blist m' head (xs @ c # n # ys)"
      using lst new c' \<open>n \<noteq> c\<close> unfolding bs
      by (intro blist_insert_after) (auto simp: m' n_def)
    moreover have "tiling m' (insert n (set bs)) R"
    proof (rule tiling_split [OF til c new])
      show "extent m' c \<union> extent m' n = extent m c" "extent m' c \<inter> extent m' n = {}"
        using True \<open>n \<noteq> c\<close> by (auto simp: extent_def m' n_def)
      have mods: "n mod 16 = 0" "(bh_size (m c) - sz - 32) mod 16 = 0"
        using ok sz by (simp_all add: n_def block_ok_def mod_eq_0_iff_dvd dvd_diff_nat)
      show "block_ok m' c" "block_ok m' n"
        using ok sz mods True size fit \<open>n \<noteq> c\<close> by (simp_all add: block_ok_def m') (simp add: n_def)
    qed (use new in \<open>auto simp: m'\<close>)
    moreover have "allocs_of m' (xs @ c # n # ys) = allocs_of m bs"
      using free new c' by (auto simp: allocs_of_def m' bs image_iff)
    ultimately show thesis
      using \<open>n \<noteq> c\<close> by (intro that [of "xs @ c # n # ys"])
        (auto simp: m'_def [symmetric] blocks_inv_def bs m' insert_commute)
  qed
qed

section \<open>The list walks return\<close>

lemma kmalloc_fit_blist:
  "blist m p bs \<Longrightarrow> kmalloc_fit m sz p =
     Some (case find (\<lambda>b. bh_is_free (m b) \<noteq> 0 \<and> sz \<le> bh_size (m b)) bs of None \<Rightarrow> 0 | Some b \<Rightarrow> b)"
proof (induction bs arbitrary: p)
  case Nil
  then show ?case by (simp add: kmalloc_fit.simps [of m sz 0])
next
  case (Cons b bs)
  then show ?case by (simp add: kmalloc_fit.simps [of m sz b])
qed

lemma kmalloc_fit_cases:
  assumes "blist m p bs"
  obtains (none) "kmalloc_fit m sz p = Some 0" "\<forall>b \<in> set bs. bh_is_free (m b) \<noteq> 0 \<longrightarrow> bh_size (m b) < sz"
  | (fit) c where "kmalloc_fit m sz p = Some c" "c \<noteq> 0" "c \<in> set bs" "bh_is_free (m c) \<noteq> 0" "sz \<le> bh_size (m c)"
proof (cases "find (\<lambda>b. bh_is_free (m b) \<noteq> 0 \<and> sz \<le> bh_size (m b)) bs")
  case None
  then have "\<forall>b \<in> set bs. bh_is_free (m b) \<noteq> 0 \<longrightarrow> bh_size (m b) < sz"
    by (auto simp: find_None_iff not_le)
  moreover have "kmalloc_fit m sz p = Some 0"
    unfolding kmalloc_fit_blist [OF assms] None by simp
  ultimately show thesis by (intro none)
next
  case (Some c)
  then have "c \<in> set bs" "bh_is_free (m c) \<noteq> 0" "sz \<le> bh_size (m c)"
    by (auto simp: find_Some_iff)
  moreover from this have "c \<noteq> 0"
    using bpath_nonzero [OF assms] by simp
  moreover have "kmalloc_fit m sz p = Some c"
    unfolding kmalloc_fit_blist [OF assms] Some by simp
  ultimately show thesis by (intro fit)
qed

lemma heap_tail_blist: "blist m p bs \<Longrightarrow> bs \<noteq> [] \<Longrightarrow> heap_tail m p = Some (last bs)"
proof (induction bs arbitrary: p)
  case (Cons b bs)
  then show ?case
    by (cases bs) (simp_all add: heap_tail.simps [of m b])
qed simp

lemma sum_blocks_blist:
  "blist m p bs \<Longrightarrow> sum_blocks sel m p acc =
     Some (fold (\<lambda>b acc. if sel (m b) then u64 (acc + bh_size (m b)) else acc) bs acc)"
proof (induction bs arbitrary: p acc)
  case Nil
  then show ?case by (simp add: sum_blocks.simps [of sel m 0])
next
  case (Cons b bs)
  then show ?case by (simp add: sum_blocks.simps [of sel m b])
qed

section \<open>Growing the heap keeps the invariant\<close>

lemma new_region_pages:
  assumes "pmm_inv p" and "s + n \<le> total_pages p" and "mem_region_end p < 2 ^ 48"
  shows "0 < n \<Longrightarrow> phys_to_virt (frame_addr p s) = frame_addr p s + KERNEL_VA_OFFSET"
    and "frame_addr p s + KERNEL_VA_OFFSET + n * 4096 < 2 ^ 64"
    and "x \<in> {frame_addr p s + KERNEL_VA_OFFSET..<frame_addr p s + KERNEL_VA_OFFSET + n * 4096} \<Longrightarrow>
      KERNEL_VA_OFFSET \<le> x \<and> page_of x \<in> frame_addr p ` {s..<s + n}"
    and "(frame_addr p s + KERNEL_VA_OFFSET) mod 4096 = 0"
proof -
  have "mem_region_start p + (s + n) * 4096 \<le> mem_region_end p"
    using assms(1,2) by (simp add: pmm_inv_def)
  then have top: "frame_addr p s + n * 4096 < 2 ^ 48"
    using assms(3) by (simp add: frame_addr_def)
  then show "frame_addr p s + KERNEL_VA_OFFSET + n * 4096 < 2 ^ 64"
    by (simp add: KERNEL_VA_OFFSET_def)
  show "phys_to_virt (frame_addr p s) = frame_addr p s + KERNEL_VA_OFFSET"
    using top by (simp add: phys_to_virt_def u64_id KERNEL_VA_OFFSET_def)
  obtain k where k: "mem_region_start p = k * 4096"
    using assms(1) by (auto simp: pmm_inv_def mod_eq_0_iff_dvd elim!: dvdE)
  then show "(frame_addr p s + KERNEL_VA_OFFSET) mod 4096 = 0"
    by (simp add: frame_addr_def KERNEL_VA_OFFSET_def mod_eq_0_iff_dvd)
  assume x: "x \<in> {frame_addr p s + KERNEL_VA_OFFSET..<frame_addr p s + KERNEL_VA_OFFSET + n * 4096}"
  define y where "y = x - KERNEL_VA_OFFSET"
  have y: "(k + s) * 4096 \<le> y" "y < (k + s + n) * 4096" "KERNEL_VA_OFFSET \<le> x"
    using x by (auto simp: y_def frame_addr_def k)
  have "k + s \<le> y div 4096" "y div 4096 < k + s + n"
    using y by (simp_all add: less_eq_div_iff_mult_less_eq less_mult_imp_div_less)
  then have "y div 4096 - k \<in> {s..<s + n}" "frame_addr p (y div 4096 - k) = y div 4096 * 4096"
    by (auto simp: frame_addr_def k diff_mult_distrib)
  then have "y div 4096 * 4096 \<in> frame_addr p ` {s..<s + n}"
    by (metis imageI)
  then show "KERNEL_VA_OFFSET \<le> x \<and> page_of x \<in> frame_addr p ` {s..<s + n}"
    using y(3) by (simp add: page_of_def y_def)
qed

definition expand_pages :: "nat \<Rightarrow> nat" where
  "expand_pages need = max 64 (u64 (u64 (need + 32) + 4095) div 4096)"

text \<open>
  The block memory after a new region has been cleared, its header written and the block linked
  behind the last one.
\<close>

lemma blocks_inv_append:
  assumes "blocks_inv m head bs R" and "bs \<noteq> []" and "{va..<va + len} \<inter> R = {}"
    and "va mod 16 = 0" and "len mod 16 = 0" and "32 \<le> len" and "0 < va" and "va + len < 2 ^ 64"
    and "hdr = \<lparr>bh_size = len - 32, bh_magic = BLOCK_MAGIC_FREE, bh_is_free = 1, bh_next = 0\<rparr>"
    and "\<forall>a. a \<notin> {va..<va + len} \<longrightarrow> mem a = m a" and "mem va = hdr"
  shows "heap_tail mem head = Some (last bs)"
    and "blocks_inv (mem(last bs := (mem (last bs))\<lparr>bh_next := va\<rparr>)) head (bs @ [va]) (R \<union> {va..<va + len})"
    and "allocs_of (mem(last bs := (mem (last bs))\<lparr>bh_next := va\<rparr>)) (bs @ [va]) = allocs_of m bs"
proof -
  let ?m = "mem(last bs := (mem (last bs))\<lparr>bh_next := va\<rparr>)"
  have til: "tiling m (set bs) R" and lst: "blist m head bs"
    using assms(1) by (simp_all add: blocks_inv_def)
  have old: "mem b = m b" "b \<noteq> va" if "b \<in> set bs" for b
  proof -
    have "b \<in> R"
      using tiling_inside [OF til that] extent_start [of b m] by blast
    then have "b \<notin> {va..<va + len}"
      using assms(3) by blast
    with assms(6,10) show "mem b = m b" "b \<noteq> va" by auto
  qed
  have lst': "blist mem head bs"
    using lst old(1) bpath_cong [of bs m mem head 0] by simp
  then show "heap_tail mem head = Some (last bs)"
    using assms(2) by (rule heap_tail_blist)
  have last: "last bs \<in> set bs" "bs = butlast bs @ [last bs]"
    using assms(2) by simp_all
  have nxt: "bh_next (mem (last bs)) = 0"
    using lst' last(2) by (metis bpath.simps bpath_append)
  have "last bs \<notin> set (butlast bs)"
    using blist_distinct [OF lst] last(2) by (metis distinct_append disjoint_iff list.set_intros(1))
  then have "blist ?m head (butlast bs @ last bs # [va])"
    using lst' last old(2) assms(7,9,11) nxt
    by (intro blist_insert_after [where m = mem]) (auto dest: in_set_butlastD)
  then have list_new: "blist ?m head (bs @ [va])"
    using last(2) by (metis append_Cons append_Nil append_assoc)
  have va: "?m va = hdr"
    using last(1) old(2) assms(11) by auto
  have ok: "block_ok ?m b" if "b \<in> set bs" for b
    using tiling_ok [OF til that] old(1) [OF that] old(1) [OF last(1)]
    by (cases "b = last bs") (simp_all add: block_ok_def)
  have ext: "extent ?m va = {va..<va + len}"
    using va assms(6,9) by (simp add: extent_def)
  have "tiling ?m (insert va (set bs)) (R \<union> extent ?m va)"
  proof (rule tiling_add [OF til])
    show "va \<notin> set bs"
      using old(2) by blast
    show "extent ?m va \<inter> R = {}"
      using ext assms(3) by simp
    show "block_ok ?m va"
      using va assms(4-9) by (simp add: block_ok_def mod_eq_0_iff_dvd dvd_diff_nat)
  qed (use ok old last in auto)
  with list_new ext show "blocks_inv ?m head (bs @ [va]) (R \<union> {va..<va + len})"
    by (simp add: blocks_inv_def)
  have "bh_is_free (?m b) = bh_is_free (m b)" "bh_size (?m b) = bh_size (m b)" if "b \<in> set bs" for b
    using old(1) [OF that] old(1) [OF last(1)] by simp_all
  moreover have "bh_is_free (?m va) \<noteq> 0"
    unfolding va assms(9) by simp
  ultimately show "allocs_of ?m (bs @ [va]) = allocs_of m bs"
    unfolding allocs_of_def by (intro image_cong) (auto simp del: fun_upd_apply)
qed

lemma new_region_disjoint:
  assumes "heap_regions_ok h" and "s + n \<le> total_pages (pool h)" and "run_free (pool h) s n"
  shows "{frame_addr (pool h) s + KERNEL_VA_OFFSET..<frame_addr (pool h) s + KERNEL_VA_OFFSET + n * 4096}
    \<inter> region_bytes h = {}"
proof -
  have inv: "pmm_inv (pool h)" "mem_region_end (pool h) < 2 ^ 48"
    "\<forall>x \<in> region_bytes h. page_of x \<in> pmm_owned (pool h)"
    using assms(1) by (auto simp: heap_regions_ok_def)
  have "frame_addr (pool h) k \<notin> pmm_owned (pool h)" if "k \<in> {s..<s + n}" for k
    using that assms(3) by (auto simp: frame_addr_owned_iff run_free_def le_iff_add)
  with inv(3) new_region_pages(3) [OF inv(1) assms(2) inv(2)] show ?thesis
    by fastforce
qed

lemma region_bytes_append:
  "region_bytes (h\<lparr>pool := p, hmem := m, heap_head := a, regions := regions h @ [r]\<rparr>)
    = region_bytes h \<union> {va_start r..<va_start r + size_bytes r}"
  by (auto simp: region_bytes_def)

lemma heap_regions_grow:
  fixes h s n
  defines "va \<equiv> frame_addr (pool h) s + KERNEL_VA_OFFSET"
  assumes "heap_regions_ok h" and "s + n \<le> total_pages (pool h)" and "run_free (pool h) s n"
    and "reserved_pages (pool h) \<le> s" and "length (regions h) < 16"
  shows "heap_regions_ok (h\<lparr>pool := pmm_take_run (pool h) s n, hmem := m, heap_head := a,
    regions := regions h @ [\<lparr>va_start = va, size_bytes = n * 4096\<rparr>]\<rparr>)" (is "heap_regions_ok ?h")
proof -
  have inv: "pmm_inv (pool h)" "mem_region_end (pool h) < 2 ^ 48"
    using assms(2) by (auto simp: heap_regions_ok_def)
  note pages = new_region_pages [OF inv(1) assms(3) inv(2), folded va_def]
  have bytes: "region_bytes ?h = region_bytes h \<union> {va..<va + n * 4096}"
    by (simp add: region_bytes_append)
  have "finite (region_bytes h)"
    by (simp add: region_bytes_def)
  then have "card (region_bytes ?h) = card (region_bytes h) + n * 4096"
    unfolding bytes using new_region_disjoint [OF assms(2-4), folded va_def]
    by (subst card_Un_disjoint) (auto simp: Int_commute)
  then have sum: "sum_list (map size_bytes (regions ?h)) = card (region_bytes ?h)"
    using assms(2) by (simp add: heap_regions_ok_def)
  have old: "\<forall>x \<in> region_bytes h. KERNEL_VA_OFFSET \<le> x \<and> page_of x \<in> pmm_owned (pool h) - pmm_pinned (pool h)"
    using assms(2) by (simp add: heap_regions_ok_def)
  have owned: "pmm_owned (pool ?h) = pmm_owned (pool h) \<union> frame_addr (pool h) ` {s..<s + n}"
    "pmm_pinned (pool ?h) = pmm_pinned (pool h)"
    using assms(3) by (simp_all add: pmm_take_run_owned pmm_take_run_pinned)
  have fresh: "frame_addr (pool h) ` {s..<s + n} \<inter> pmm_pinned (pool h) = {}"
    using assms(5) by (auto simp: pmm_pinned_def)
  have "KERNEL_VA_OFFSET \<le> x \<and> page_of x \<in> pmm_owned (pool ?h) - pmm_pinned (pool ?h)"
    if "x \<in> region_bytes ?h" for x
  proof (cases "x \<in> region_bytes h")
    case True
    with old show ?thesis unfolding owned by blast
  next
    case False
    with that have "x \<in> {va..<va + n * 4096}" unfolding bytes by blast
    with pages(3) [of x] fresh show ?thesis unfolding owned by blast
  qed
  moreover have "va + n * 4096 < 2 ^ 64"
    using pages(2) .
  moreover have "pmm_inv (pool ?h)" "mem_region_end (pool ?h) < 2 ^ 48"
    using pmm_take_run_inv [OF inv(1) assms(3,4)] inv(2) by (simp_all add: frame_simps)
  moreover have "\<forall>r \<in> set (regions h). va_start r + size_bytes r < 2 ^ 64"
    using assms(2) by (simp add: heap_regions_ok_def)
  ultimately show ?thesis
    unfolding heap_regions_ok_def using sum assms(6) by simp
qed

lemma new_region_page_set:
  assumes "pmm_inv p" and "s + n \<le> total_pages p" and "mem_region_end p < 2 ^ 48"
  shows "page_of ` {frame_addr p s + KERNEL_VA_OFFSET..<frame_addr p s + KERNEL_VA_OFFSET + n * 4096}
    = frame_addr p ` {s..<s + n}"
proof -
  have "frame_addr p k \<in> page_of ` {frame_addr p s + KERNEL_VA_OFFSET..<frame_addr p s + KERNEL_VA_OFFSET + n * 4096}"
    if "k \<in> {s..<s + n}" for k
  proof -
    have "frame_addr p k mod 4096 = 0"
      using that assms(2) by (intro frame_addr_bounds(4) [OF assms(1)]) simp
    then have "page_of (frame_addr p k + KERNEL_VA_OFFSET) = frame_addr p k"
      by (simp add: page_of_def div_mult_self_mod_0)
    moreover have "frame_addr p k + KERNEL_VA_OFFSET \<in>
        {frame_addr p s + KERNEL_VA_OFFSET..<frame_addr p s + KERNEL_VA_OFFSET + n * 4096}"
      using that by (auto simp: frame_addr_def)
    ultimately show ?thesis by (metis imageI)
  qed
  then show ?thesis
    using new_region_pages(3) [OF assms] by blast
qed

lemma foreign_grow:
  fixes h s n
  defines "va \<equiv> frame_addr (pool h) s + KERNEL_VA_OFFSET"
  assumes "heap_regions_ok h" and "s + n \<le> total_pages (pool h)" and "run_free (pool h) s n"
  shows "foreign (h\<lparr>pool := pmm_take_run (pool h) s n, hmem := m, heap_head := a,
    regions := regions h @ [\<lparr>va_start = va, size_bytes = n * 4096\<rparr>]\<rparr>) = foreign h"
proof -
  have inv: "pmm_inv (pool h)" "mem_region_end (pool h) < 2 ^ 48"
    using assms(2) by (auto simp: heap_regions_ok_def)
  have "frame_addr (pool h) ` {s..<s + n} \<inter> pmm_owned (pool h) = {}"
    using assms(4) by (auto simp: frame_addr_owned_iff run_free_def le_iff_add)
  then show ?thesis
    using new_region_page_set [OF inv(1) assms(3) inv(2), folded va_def] assms(3)
    by (auto simp: foreign_def region_bytes_append pmm_take_run_owned pmm_take_run_pinned image_Un)
qed

lemma foreign_hmem [simp]: "foreign (h\<lparr>hmem := m\<rparr>) = foreign h"
  by (simp add: foreign_def region_bytes_def)

lemma region_bytes_hmem [simp]: "region_bytes (h\<lparr>hmem := m\<rparr>) = region_bytes h"
  by (simp add: region_bytes_def)

lemma heap_inv_hmem:
  assumes "heap_inv h" and "blocks_inv m (heap_head h) bs (region_bytes h)"
  shows "heap_inv (h\<lparr>hmem := m\<rparr>)" and "allocs (h\<lparr>hmem := m\<rparr>) = allocs_of m bs"
proof -
  have "\<exists>bs. blocks_inv (hmem (h\<lparr>hmem := m\<rparr>)) (heap_head (h\<lparr>hmem := m\<rparr>)) bs (region_bytes (h\<lparr>hmem := m\<rparr>))"
    using assms(2) by auto
  then show "heap_inv (h\<lparr>hmem := m\<rparr>)"
    using assms(1) by (simp add: heap_inv_def heap_regions_ok_def)
  show "allocs (h\<lparr>hmem := m\<rparr>) = allocs_of m bs"
    using assms(2) allocs_eq [of "h\<lparr>hmem := m\<rparr>" bs] by (simp add: blocks_inv_def)
qed

lemma heap_expand_cases:
  assumes "heap_inv h" and "blocks_inv (hmem h) (heap_head h) bs (region_bytes h)"
  obtains (refused) h' where "heap_expand h need = Some (h', False)" "heap_inv h'" "allocs h' = allocs h"
      "regions h' = regions h" "pool h' = pool h"
      "length (regions h) = 16 \<or> (\<forall>s. reserved_pages (pool h) \<le> s \<and>
        s + expand_pages need \<le> total_pages (pool h) \<longrightarrow> \<not> run_free (pool h) s (expand_pages need))"
  | (grown) h' va where "heap_expand h need = Some (h', True)" "heap_inv h'" "allocs h' = allocs h"
      "foreign h' = foreign h" "blist (hmem h') (heap_head h') (bs @ [va])" "bh_is_free (hmem h' va) = 1"
      "bh_size (hmem h' va) = expand_pages need * 4096 - 32"
proof -
  define n where "n = expand_pages need"
  have n: "(if u64 (u64 (need + 32) + 4095) div 4096 < 64 then 64
      else u64 (u64 (need + 32) + 4095) div 4096) = n" "64 \<le> n"
    by (auto simp: n_def expand_pages_def)
  then have "0 < n" by simp
  have inv: "pmm_inv (pool h)" "mem_region_end (pool h) < 2 ^ 48" "heap_head h \<noteq> 0"
    "length (regions h) \<le> 16" "heap_regions_ok h"
    using assms(1) by (auto simp: heap_inv_def heap_regions_ok_def)
  have bs: "bs \<noteq> []" "allocs h = allocs_of (hmem h) bs"
    using assms(2) inv(3) allocs_eq by (auto simp: blocks_inv_def)
  have last_next: "bh_next (hmem h (last bs)) = 0"
    using assms(2) bs(1) by (metis append_butlast_last_id blocks_inv_def bpath.simps bpath_append)
  from inv(1) \<open>0 < n\<close> show thesis
  proof (rule pmm_allocate_pages_cases)
    assume none: "pmm_allocate_pages (pool h) n = (pool h, 0)"
      "\<forall>s. reserved_pages (pool h) \<le> s \<and> s + n \<le> total_pages (pool h) \<longrightarrow> \<not> run_free (pool h) s n"
    then have "heap_expand h need = Some (h, False)"
      by (simp add: heap_expand_def n)
    with assms(1) none(2) show thesis
      by (intro refused [of h]) (simp_all add: n_def)
  next
    fix s assume s: "reserved_pages (pool h) \<le> s" "s + n \<le> total_pages (pool h)" "run_free (pool h) s n"
      "pmm_allocate_pages (pool h) n = (pmm_take_run (pool h) s n, frame_addr (pool h) s)"
    define va where "va = frame_addr (pool h) s + KERNEL_VA_OFFSET"
    define len where "len = n * 4096"
    define hdr where "hdr = \<lparr>bh_size = len - 32, bh_magic = BLOCK_MAGIC_FREE, bh_is_free = 1, bh_next = 0\<rparr>"
    define mem where "mem = (memset_zero va len (hmem h))(va := hdr)"
    define linked where "linked = mem(last bs := (mem (last bs))\<lparr>bh_next := va\<rparr>)"
    note pages = new_region_pages [OF inv(1) s(2) inv(2), folded va_def len_def]
    have phys: "frame_addr (pool h) s \<noteq> 0" "phys_to_virt (frame_addr (pool h) s) = va"
      using frame_addr_bounds(3) [OF inv(1), of s] s(2) \<open>0 < n\<close> pages(1) by simp_all
    have len: "u64 len = len" "sub64 len 32 = len - 32" "32 \<le> len" "len mod 16 = 0"
      using pages(2) \<open>0 < n\<close> by (auto simp: u64_id sub64_id len_def)
    have "va mod 16 = 0" "0 < va"
      using pages(4) by (auto simp: KERNEL_VA_OFFSET_def va_def mod_eq_0_iff_dvd intro: dvd_trans [of 16 4096])
    note app = blocks_inv_append [OF assms(2) bs(1) new_region_disjoint [OF inv(5) s(2,3), folded va_def len_def]
        this(1) len(4,3) this(2) pages(2) hdr_def, of mem]
    have mem: "\<forall>a. a \<notin> {va..<va + len} \<longrightarrow> mem a = hmem h a" "mem va = hdr"
      using len(3) by (auto simp: mem_def memset_zero_def)
    note app = app [OF mem, folded linked_def]
    have mem_eq: "mem = (memset_zero va len (hmem h))(va := \<lparr>bh_size = sub64 len 32,
        bh_magic = BLOCK_MAGIC_FREE, bh_is_free = 1, bh_next = 0\<rparr>)"
      by (simp add: mem_def hdr_def len(2))
    have run: "heap_expand h need =
      (let (h', ok) = register_region (h\<lparr>pool := pmm_take_run (pool h) s n, hmem := linked\<rparr>) va len
       in if ok then Some (h', True)
          else Some (h'\<lparr>hmem := linked(last bs := (linked (last bs))\<lparr>bh_next := 0\<rparr>),
                 pool := pmm_free_pages (pool h') (frame_addr (pool h) s) n\<rparr>, False))"
      unfolding heap_expand_def Let_def n(1) s(4) prod.case phys(2) len_def [symmetric] len(1)
        mem_eq [symmetric] using inv(3) app(1) phys(1) by (simp add: linked_def split: prod.split)
    show thesis
    proof (cases "16 \<le> length (regions h)")
      case False
      then have "heap_expand h need = Some (h\<lparr>pool := pmm_take_run (pool h) s n, hmem := linked,
          regions := regions h @ [\<lparr>va_start = va, size_bytes = len\<rparr>]\<rparr>, True)" (is "_ = Some (?h, True)")
        by (simp add: run register_region_def)
      moreover have "heap_inv ?h"
        using False heap_regions_grow [OF inv(5) s(2,3,1), where m = linked and a = "heap_head h"] app(2)
          region_bytes_append [where h = h and m = linked and a = "heap_head h" and r = "\<lparr>va_start = va, size_bytes = len\<rparr>"] inv(3)
        by (auto simp: heap_inv_def va_def [symmetric] len_def [symmetric])
      moreover have "allocs ?h = allocs h"
        using app(2,3) bs(2) allocs_eq [of ?h "bs @ [va]"] by (simp add: blocks_inv_def)
      moreover have "linked va = hdr"
        using app(2) blist_distinct [of linked "heap_head h" "bs @ [va]"] bs(1) mem(2)
        by (auto simp: linked_def blocks_inv_def)
      moreover have "foreign ?h = foreign h"
        using foreign_grow [OF inv(5) s(2,3), where m = linked and a = "heap_head h"]
        by (simp add: va_def [symmetric] len_def [symmetric])
      ultimately show thesis
        using app(2) by (intro grown [of ?h va]) (auto simp: blocks_inv_def hdr_def len_def n_def)
    next
      case True
      define back_mem where "back_mem = linked(last bs := (linked (last bs))\<lparr>bh_next := 0\<rparr>)"
      have "heap_expand h need = Some (h\<lparr>hmem := back_mem\<rparr>, False)" (is "_ = Some (?h, False)")
        using True pmm_take_run_undo [OF inv(1) s(1-3)]
        by (simp add: run register_region_def back_mem_def)
      moreover have "mem b = hmem h b" if "b \<in> set bs" for b
        using that mem(1) tiling_inside [of "hmem h" "set bs" "region_bytes h" b] assms(2)
          new_region_disjoint [OF inv(5) s(2,3), folded va_def len_def] extent_start [of b "hmem h"]
        unfolding blocks_inv_def by blast
      then have "\<forall>b \<in> set bs. back_mem b = hmem h b"
        using bs(1) last_next by (simp add: back_mem_def linked_def)
      note undone = blocks_inv_cong [OF assms(2) this]
      have "heap_inv ?h" "allocs ?h = allocs h"
        using heap_inv_hmem [OF assms(1) undone(1)] undone(2) bs(2) by simp_all
      ultimately show thesis
        using True inv(4) by (intro refused [of ?h]) simp_all
    qed
  qed
qed

section \<open>Allocation\<close>

lemma kmalloc_take_blocks:
  assumes "blocks_inv m head bs R" and "c \<in> set bs" and "bh_is_free (m c) \<noteq> 0"
    and "sz \<le> bh_size (m c)" and "sz mod 16 = 0"
  obtains bs' s where "blocks_inv (kmalloc_take m c sz) head bs' R" "sz \<le> s"
    "allocs_of (kmalloc_take m c sz) bs' = insert (c + 32, s) (allocs_of m bs)"
proof -
  from assms obtain bs' where bs': "blocks_inv (kmalloc_split m c sz) head bs' R" "c \<in> set bs'"
    "sz \<le> bh_size (kmalloc_split m c sz c)" "allocs_of (kmalloc_split m c sz) bs' = allocs_of m bs"
    by (rule kmalloc_split_blocks)
  show thesis
    using blocks_inv_mark [OF bs'(1,2), of 0 BLOCK_MAGIC_ALLOC] allocs_of_mark_used [OF bs'(2)] bs'(3,4)
    by (intro that [of bs' "bh_size (kmalloc_split m c sz c)"]) (simp_all add: kmalloc_take_def Let_def)
qed

definition alloc_result :: "heap \<Rightarrow> nat \<Rightarrow> heap \<Rightarrow> nat \<Rightarrow> bool" where
  "alloc_result h n h' p \<longleftrightarrow> heap_inv h' \<and> foreign h' = foreign h \<and>
     (p = 0 \<and> allocs h' = allocs h \<or>
      p \<noteq> 0 \<and> p mod 16 = 0 \<and> (\<forall>j. (p, j) \<notin> allocs h) \<and> (\<exists>s \<ge> n. allocs h' = insert (p, s) (allocs h)))"

lemma kmalloc_take_result:
  assumes "heap_inv h" and "blocks_inv (hmem h) (heap_head h) bs (region_bytes h)" and "c \<in> set bs"
    and "bh_is_free (hmem h c) \<noteq> 0" and "sz \<le> bh_size (hmem h c)" and "sz mod 16 = 0"
  shows "u64 (c + 32) = c + 32" and "alloc_result h sz (h\<lparr>hmem := kmalloc_take (hmem h) c sz\<rparr>) (c + 32)"
proof -
  have bs: "allocs h = allocs_of (hmem h) bs"
    using assms(2) allocs_eq by (simp add: blocks_inv_def)
  have "block_ok (hmem h) c"
    using assms(2,3) tiling_ok by (auto simp: blocks_inv_def)
  then have c: "c mod 16 = 0" "c + 32 < 2 ^ 64"
    by (simp_all add: block_ok_def)
  then show "u64 (c + 32) = c + 32"
    by (intro u64_id)
  from assms(2-6) obtain bs' s where take: "blocks_inv (kmalloc_take (hmem h) c sz) (heap_head h) bs' (region_bytes h)"
    "sz \<le> s" "allocs_of (kmalloc_take (hmem h) c sz) bs' = insert (c + 32, s) (allocs_of (hmem h) bs)"
    by (rule kmalloc_take_blocks)
  moreover have "(c + 32) mod 16 = 0"
    using c(1) by (simp add: mod_eq_0_iff_dvd)
  moreover have "\<forall>j. (c + 32, j) \<notin> allocs h"
    using assms(4) by (auto simp: bs allocs_of_def)
  ultimately show "alloc_result h sz (h\<lparr>hmem := kmalloc_take (hmem h) c sz\<rparr>) (c + 32)"
    using heap_inv_hmem [OF assms(1) take(1)] by (auto simp: alloc_result_def bs)
qed

lemma kmalloc_attempts_law:
  "heap_inv h \<Longrightarrow> sz mod 16 = 0 \<Longrightarrow> \<exists>h' p. kmalloc_attempts k h sz = Some (h', p) \<and> alloc_result h sz h' p"
proof (induction k arbitrary: h)
  case 0
  then show ?case by (simp add: alloc_result_def)
next
  case (Suc k)
  from Suc.prems(1) obtain bs where bs: "blist (hmem h) (heap_head h) bs"
    "blocks_inv (hmem h) (heap_head h) bs (region_bytes h)"
    by (rule heap_invE)
  from bs(1) show ?case
  proof (rule kmalloc_fit_cases [where sz = sz])
    fix c assume "kmalloc_fit (hmem h) sz (heap_head h) = Some c" "c \<noteq> 0" "c \<in> set bs"
      "bh_is_free (hmem h c) \<noteq> 0" "sz \<le> bh_size (hmem h c)"
    with kmalloc_take_result [OF Suc.prems(1) bs(2), of c sz] Suc.prems(2) show ?case
      by simp
  next
    assume none: "kmalloc_fit (hmem h) sz (heap_head h) = Some 0"
    from Suc.prems(1) bs(2) show ?case
    proof (rule heap_expand_cases [where need = sz])
      fix h' assume "heap_expand h sz = Some (h', False)" "heap_inv h'" "allocs h' = allocs h"
        "regions h' = regions h" "pool h' = pool h"
      with none show ?case by (simp add: alloc_result_def foreign_def region_bytes_def)
    next
      fix h' assume h': "heap_expand h sz = Some (h', True)" "heap_inv h'" "allocs h' = allocs h"
        "foreign h' = foreign h"
      from Suc.IH [OF h'(2) Suc.prems(2)] h' none show ?case
        by (auto simp: alloc_result_def)
    qed
  qed
qed

lemma heap_align_up_bounds:
  assumes "n \<le> 2 ^ 64 - 16"
  shows "heap_align_up n mod 16 = 0" and "n \<le> heap_align_up n" and "heap_align_up n < n + 16"
proof -
  have "u64 (n + 15) = n + 15"
    using assms by (intro u64_id) simp
  then have eq: "heap_align_up n = (n + 15) div 16 * 16"
    by (simp add: heap_align_up_def)
  show "heap_align_up n mod 16 = 0"
    by (simp add: heap_align_up_def)
  show "n \<le> heap_align_up n" "heap_align_up n < n + 16"
    unfolding eq by linarith+
qed

lemma kmalloc_law:
  assumes "heap_inv h"
  shows "\<exists>h' p. kmalloc h n = Some (h', p) \<and> alloc_result h n h' p"
proof (cases "n = 0 \<or> 2 ^ 64 - 16 < n")
  case True
  then have "kmalloc h n = Some (h, 0)"
    by (auto simp: kmalloc_def)
  with assms show ?thesis by (simp add: alloc_result_def)
next
  case False
  then have n: "n \<le> 2 ^ 64 - 16"
    by simp
  have run: "kmalloc h n = kmalloc_attempts 2 h (heap_align_up n)"
    using False by (simp add: kmalloc_def)
  from kmalloc_attempts_law [OF assms heap_align_up_bounds(1) [OF n], of 2]
  obtain h' p where "kmalloc h n = Some (h', p)" "alloc_result h (heap_align_up n) h' p"
    unfolding run by blast
  moreover from this(2) have "alloc_result h n h' p"
    using heap_align_up_bounds(2) [OF n] unfolding alloc_result_def by (meson order_trans)
  ultimately show ?thesis by blast
qed

section \<open>Coalescing\<close>

definition adjacent_free :: "(nat \<Rightarrow> block_header) \<Rightarrow> nat \<Rightarrow> nat \<Rightarrow> bool" where
  "adjacent_free m b d \<longleftrightarrow>
     bh_is_free (m b) \<noteq> 0 \<and> bh_is_free (m d) \<noteq> 0 \<and> b + 32 + bh_size (m b) = d"

fun coalesced :: "(nat \<Rightarrow> block_header) \<Rightarrow> nat list \<Rightarrow> bool" where
  "coalesced m (b # d # bs) \<longleftrightarrow> \<not> adjacent_free m b d \<and> coalesced m (d # bs)"
| "coalesced m bs \<longleftrightarrow> True"

lemma merge_blocks:
  assumes "blocks_inv m head (xs @ c # d # ys) R" and "adjacent_free m c d"
  defines "m' \<equiv> m(c := (m c)\<lparr>bh_size := u64 (bh_size (m c) + u64 (32 + bh_size (m d))),
    bh_next := bh_next (m d)\<rparr>)"
  shows "blocks_inv m' head (xs @ c # ys) R"
    and "allocs_of m' (xs @ c # ys) = allocs_of m (xs @ c # d # ys)"
proof -
  have til: "tiling m (set (xs @ c # d # ys)) R" and lst: "blist m head (xs @ c # d # ys)"
    using assms(1) by (simp_all add: blocks_inv_def)
  have dist: "c \<notin> set (xs @ ys)" "d \<notin> set (xs @ ys)" "c \<noteq> d"
    using blist_distinct [OF lst] by auto
  have ok: "block_ok m c" "block_ok m d"
    using tiling_ok [OF til] by simp_all
  have d: "d = c + 32 + bh_size (m c)"
    using assms(2) by (simp add: adjacent_free_def)
  have size: "u64 (bh_size (m c) + u64 (32 + bh_size (m d))) = bh_size (m c) + 32 + bh_size (m d)"
    using ok(2) d by (simp add: block_ok_def u64_id)
  have "tiling m' (set (xs @ c # d # ys) - {d}) R"
  proof (rule tiling_merge [OF til])
    have merged: "bh_size (m' c) = bh_size (m c) + 32 + bh_size (m d)"
      "bh_is_free (m' c) = bh_is_free (m c)" "bh_magic (m' c) = bh_magic (m c)"
      by (simp_all add: m'_def size)
    show "extent m' c = extent m c \<union> extent m d"
      unfolding extent_def merged using d by auto
    show "block_ok m' c"
      using ok d unfolding block_ok_def merged by (simp add: mod_eq_0_iff_dvd)
  qed (use dist in \<open>auto simp: m'_def\<close>)
  moreover have "set (xs @ c # d # ys) - {d} = set (xs @ c # ys)"
    using dist by auto
  moreover have "blist m' head (xs @ c # ys)"
    using dist by (intro blist_remove_after [OF lst]) (auto simp: m'_def)
  ultimately show "blocks_inv m' head (xs @ c # ys) R"
    by (simp add: blocks_inv_def)
  show "allocs_of m' (xs @ c # ys) = allocs_of m (xs @ c # d # ys)"
    using assms(2) dist by (auto simp: allocs_of_def m'_def adjacent_free_def image_iff)
qed

definition same_flags :: "(nat \<Rightarrow> block_header) \<Rightarrow> (nat \<Rightarrow> block_header) \<Rightarrow> bool" where
  "same_flags m m' \<longleftrightarrow> (\<forall>b. bh_is_free (m' b) = bh_is_free (m b) \<and> bh_magic (m' b) = bh_magic (m b))"

lemma coalesce_at_blocks:
  "blocks_inv m head (xs @ c # ys) R \<Longrightarrow>
     \<exists>m' ys'. coalesce_at m c = Some m' \<and> blocks_inv m' head (xs @ c # ys') R \<and>
       length ys' \<le> length ys \<and> allocs_of m' (xs @ c # ys') = allocs_of m (xs @ c # ys) \<and>
       (\<forall>b. b \<noteq> c \<longrightarrow> m' b = m b) \<and> same_flags m m' \<and> set ys' \<subseteq> set ys \<and>
       (ys' = [] \<or> \<not> adjacent_free m' c (hd ys'))"
proof (induction ys arbitrary: m)
  case Nil
  then have "bh_next (m c) = 0"
    by (auto simp: blocks_inv_def)
  then have "coalesce_at m c = Some m"
    by (simp add: coalesce_at.simps [of m c])
  with Nil show ?case
    by (intro exI [of _ m] exI [of _ "[]"]) (simp add: same_flags_def)
next
  case (Cons d ys)
  have next_d: "bh_next (m c) = d" "d \<noteq> 0"
    using Cons.prems by (auto simp: blocks_inv_def)
  have "block_ok m c"
    using Cons.prems by (auto simp: blocks_inv_def intro: tiling_ok)
  then have wrap: "u64 (c + 32 + bh_size (m c)) = c + 32 + bh_size (m c)"
    by (simp add: block_ok_def u64_id)
  show ?case
  proof (cases "adjacent_free m c d")
    case False
    then have "coalesce_at m c = Some m"
      by (auto simp: coalesce_at.simps [of m c] next_d wrap adjacent_free_def Let_def)
    with Cons.prems False show ?thesis
      by (intro exI [of _ m] exI [of _ "d # ys"]) (simp add: same_flags_def)
  next
    case True
    define m1 where "m1 = m(c := (m c)\<lparr>bh_size := u64 (bh_size (m c) + u64 (32 + bh_size (m d))),
      bh_next := bh_next (m d)\<rparr>)"
    note merge = merge_blocks [OF Cons.prems True, folded m1_def]
    have "coalesce_at m c = coalesce_at m1 c"
      using True next_d wrap by (subst coalesce_at.simps) (simp add: adjacent_free_def m1_def Let_def)
    moreover from Cons.IH [OF merge(1)] obtain m' ys' where m': "coalesce_at m1 c = Some m'"
      "blocks_inv m' head (xs @ c # ys') R" "length ys' \<le> length ys"
      "allocs_of m' (xs @ c # ys') = allocs_of m1 (xs @ c # ys)" "\<forall>b. b \<noteq> c \<longrightarrow> m' b = m1 b"
      "same_flags m1 m'" "set ys' \<subseteq> set ys" "ys' = [] \<or> \<not> adjacent_free m' c (hd ys')"
      by blast
    moreover have "same_flags m m'" "\<forall>b. b \<noteq> c \<longrightarrow> m' b = m b"
      using m'(5,6) by (simp_all add: same_flags_def m1_def)
    ultimately show ?thesis
      using merge(2) by (intro exI [of _ m'] exI [of _ ys']) auto
  qed
qed

lemma blist_current: "blist m (bh_next (m c)) ys \<Longrightarrow> bh_next (m c) = (case ys of [] \<Rightarrow> 0 | d # _ \<Rightarrow> d)"
  by (cases ys) auto

lemma coalesce_blocks:
  "blocks_inv m head (xs @ ys) R \<Longrightarrow>
     \<exists>m' ys'. coalesce m (case ys of [] \<Rightarrow> 0 | c # _ \<Rightarrow> c) = Some m' \<and> blocks_inv m' head (xs @ ys') R \<and>
       allocs_of m' (xs @ ys') = allocs_of m (xs @ ys) \<and> coalesced m' ys' \<and>
       (ys = [] \<longrightarrow> ys' = []) \<and> (ys' \<noteq> [] \<longrightarrow> hd ys' = hd ys) \<and>
       (\<forall>b. b \<notin> set ys \<longrightarrow> m' b = m b) \<and> same_flags m m'"
proof (induction "length ys" arbitrary: m xs ys rule: less_induct)
  case less
  show ?case
  proof (cases ys)
    case Nil
    then have "coalesce m (case ys of [] \<Rightarrow> 0 | c # _ \<Rightarrow> c) = Some m"
      by (simp add: coalesce.simps [of m 0])
    with less.prems Nil show ?thesis
      by (intro exI [of _ m] exI [of _ "[]"]) (simp add: same_flags_def)
  next
    case (Cons c zs)
    with less.prems coalesce_at_blocks [of m head xs c zs R] obtain m1 zs1 where
      m1: "coalesce_at m c = Some m1" "blocks_inv m1 head (xs @ c # zs1) R" "length zs1 \<le> length zs"
        "allocs_of m1 (xs @ c # zs1) = allocs_of m (xs @ ys)" "\<forall>b. b \<noteq> c \<longrightarrow> m1 b = m b"
        "same_flags m m1" "set zs1 \<subseteq> set zs" "zs1 = [] \<or> \<not> adjacent_free m1 c (hd zs1)"
      by auto
    have c: "c \<noteq> 0" "bh_next (m1 c) = (case zs1 of [] \<Rightarrow> 0 | d # _ \<Rightarrow> d)" "c \<notin> set zs1"
      using m1(2) blist_current [of m1 c zs1] blist_not_later [of m1 c zs1] by (auto simp: blocks_inv_def)
    from less.hyps [of zs1 m1 "xs @ [c]"] m1(2,3) Cons obtain m2 zs2 where
      m2: "coalesce m1 (bh_next (m1 c)) = Some m2" "blocks_inv m2 head (xs @ c # zs2) R"
        "allocs_of m2 (xs @ c # zs2) = allocs_of m1 (xs @ c # zs1)" "coalesced m2 zs2"
        "zs1 = [] \<longrightarrow> zs2 = []" "zs2 \<noteq> [] \<longrightarrow> hd zs2 = hd zs1"
        "\<forall>b. b \<notin> set zs1 \<longrightarrow> m2 b = m1 b" "same_flags m1 m2"
      by (auto simp: c(2))
    have "coalesce m (case ys of [] \<Rightarrow> 0 | c # _ \<Rightarrow> c) = Some m2"
      using Cons c(1) m1(1) m2(1) by (simp add: coalesce.simps [of m c])
    moreover have "coalesced m2 (c # zs2)"
    proof (cases zs2)
      case (Cons d ws)
      then have "zs1 \<noteq> []" "hd zs1 = d"
        using m2(5,6) by auto
      then have "\<not> adjacent_free m2 c d"
        using m1(8) m2(7,8) c(3) by (auto simp: adjacent_free_def same_flags_def)
      with Cons m2(4) show ?thesis by simp
    qed simp
    moreover have "same_flags m m2" "\<forall>b. b \<notin> set ys \<longrightarrow> m2 b = m b"
      using m1(5-7) m2(7,8) Cons by (auto simp: same_flags_def)
    ultimately show ?thesis
      using m2(2,3) m1(4) Cons by (intro exI [of _ m2] exI [of _ "c # zs2"]) simp
  qed
qed

section \<open>Release\<close>

lemma addr_in_region_bytes:
  assumes "heap_inv h"
  shows "addr_in_any_region h a \<longleftrightarrow> a \<in> region_bytes h"
proof -
  have "u64 (va_start r + size_bytes r) = va_start r + size_bytes r" if "r \<in> set (regions h)" for r
    using assms that by (intro u64_id) (simp add: heap_inv_def heap_regions_ok_def)
  then show ?thesis
    by (auto simp: addr_in_any_region_def list_ex_iff region_bytes_def)
qed

lemma alloc_block:
  assumes "heap_inv h" and "(p, k) \<in> allocs h"
  obtains bs b where "blocks_inv (hmem h) (heap_head h) bs (region_bytes h)" "b \<in> set bs" "p = b + 32"
    "k = bh_size (hmem h b)" "bh_is_free (hmem h b) = 0" "bh_magic (hmem h b) = BLOCK_MAGIC_ALLOC"
    "addr_in_any_region h b" "sub64 p 32 = b" "allocs h = allocs_of (hmem h) bs"
proof -
  from assms(1) obtain bs where bs: "tiling (hmem h) (set bs) (region_bytes h)"
    "blocks_inv (hmem h) (heap_head h) bs (region_bytes h)" "allocs h = allocs_of (hmem h) bs"
    by (rule heap_invE)
  with assms(2) obtain b where b: "b \<in> set bs" "p = b + 32" "k = bh_size (hmem h b)" "bh_is_free (hmem h b) = 0"
    by (auto simp: allocs_of_def)
  have "block_ok (hmem h) b"
    using bs(1) b(1) by (rule tiling_ok)
  then have ok: "b + 32 < 2 ^ 64" "bh_magic (hmem h b) = BLOCK_MAGIC_ALLOC"
    using b(4) by (auto simp: block_ok_def)
  have "sub64 (b + 32) 32 = b"
    using ok(1) by (simp add: sub64_id)
  moreover have "b \<in> region_bytes h"
    using tiling_inside [OF bs(1) b(1)] extent_start [of b "hmem h"] by blast
  ultimately show thesis
    using bs b ok addr_in_region_bytes [OF assms(1)] by (intro that [of bs b]) simp_all
qed

lemma kfree_law:
  assumes "heap_inv h" and "(p, k) \<in> allocs h"
  shows "\<exists>h' bs. kfree h p = Some h' \<and> heap_inv h' \<and> allocs h' = allocs h - {(p, k)} \<and>
    blist (hmem h') (heap_head h') bs \<and> coalesced (hmem h') bs \<and>
    bh_magic (hmem h' (p - 32)) = BLOCK_MAGIC_FREE"
proof -
  from assms obtain bs b where b: "blocks_inv (hmem h) (heap_head h) bs (region_bytes h)" "b \<in> set bs"
    "p = b + 32" "k = bh_size (hmem h b)" "bh_is_free (hmem h b) = 0"
    "bh_magic (hmem h b) = BLOCK_MAGIC_ALLOC" "addr_in_any_region h b" "sub64 p 32 = b"
    "allocs h = allocs_of (hmem h) bs"
    by (rule alloc_block)
  define m where "m = (hmem h)(b := (hmem h b)\<lparr>bh_is_free := 1, bh_magic := BLOCK_MAGIC_FREE\<rparr>)"
  have m: "blocks_inv m (heap_head h) bs (region_bytes h)" "allocs_of m bs = allocs h - {(p, k)}"
    unfolding m_def allocs_of_mark_free using blocks_inv_mark [OF b(1,2)] by (auto simp: b)
  have head: "(case bs of [] \<Rightarrow> 0 | c # _ \<Rightarrow> c) = heap_head h"
    using b(1) by (cases bs) (auto simp: blocks_inv_def)
  from coalesce_blocks [of m "heap_head h" "[]" bs "region_bytes h"] m obtain m' bs' where
    m': "coalesce m (heap_head h) = Some m'" "blocks_inv m' (heap_head h) bs' (region_bytes h)"
      "allocs_of m' bs' = allocs h - {(p, k)}" "coalesced m' bs'" "same_flags m m'"
    unfolding head by auto
  have "kfree h p = Some (h\<lparr>hmem := m'\<rparr>)"
    using b(3,5-8) m'(1) by (simp add: kfree_def m_def)
  moreover have "bh_magic (m' b) = BLOCK_MAGIC_FREE"
    using m'(5) by (simp add: same_flags_def m_def)
  ultimately show ?thesis
    using heap_inv_hmem [OF assms(1) m'(2)] m' b(3) by (auto simp: blocks_inv_def)
qed

interpretation kheap: allocator heap_inv allocs kmalloc kfree
proof unfold_locales
  fix h n assume "heap_inv h"
  from kmalloc_law [OF this, of n] show "\<exists>h' p. kmalloc h n = Some (h', p) \<and> heap_inv h' \<and>
    (p = 0 \<and> allocs h' = allocs h \<or>
     p \<noteq> 0 \<and> (\<forall>j. (p, j) \<notin> allocs h) \<and> (\<exists>k \<ge> n. allocs h' = insert (p, k) (allocs h)))"
    unfolding alloc_result_def by blast
next
  fix h p k assume "heap_inv h" "(p, k) \<in> allocs h"
  from kfree_law [OF this] show "\<exists>h'. kfree h p = Some h' \<and> heap_inv h' \<and> allocs h' = allocs h - {(p, k)}"
    by blast
next
  fix h p j q k assume "heap_inv h" "(p, j) \<in> allocs h" "(q, k) \<in> allocs h" "p \<noteq> q"
  from allocs_disjoint [OF this] show "{p..<p + j} \<inter> {q..<q + k} = {}"
    by auto
qed

definition heap_release :: "nat \<Rightarrow> heap \<Rightarrow> heap" where
  "heap_release a h = h\<lparr>pool := pmm_free_page (pool h) a\<rparr>"

lemma kfree_frame: "kfree h p = Some h' \<Longrightarrow> pool h' = pool h \<and> regions h' = regions h"
  by (auto simp: kfree_def Let_def split: if_splits bind_splits)

lemma heap_release_law:
  assumes "heap_inv h" and "a \<in> foreign h"
  shows "heap_inv (heap_release a h)" and "foreign (heap_release a h) = foreign h - {a}"
    and "allocs (heap_release a h) = allocs h"
proof -
  have inv: "pmm_inv (pool h)"
    using assms(1) by (simp add: heap_inv_def heap_regions_ok_def)
  have a: "a \<notin> pmm_pinned (pool h)" "a \<notin> page_of ` region_bytes h"
    using assms(2) by (auto simp: foreign_def)
  have own: "pmm_owned (pmm_free_page (pool h) a) = pmm_owned (pool h) - {a}"
    using pmm_free_page_owned [OF inv, of a] a(1) by auto
  have same: "region_bytes (heap_release a h) = region_bytes h"
    by (simp add: region_bytes_def heap_release_def)
  show "allocs (heap_release a h) = allocs h"
    by (simp add: allocs_def heap_release_def)
  show "foreign (heap_release a h) = foreign h - {a}"
    using a unfolding foreign_def same by (auto simp: heap_release_def own pmm_free_page_pinned)
  have "heap_regions_ok (heap_release a h)"
    using assms(1) a(2) pmm_free_page_inv [OF inv] unfolding heap_regions_ok_def heap_inv_def same
    by (auto simp: heap_release_def own pmm_free_page_pinned frame_simps)
  then show "heap_inv (heap_release a h)"
    using assms(1) unfolding heap_inv_def same by (simp add: heap_release_def)
qed

text \<open>A page taken from the memory manager by anybody else is none of the heap's.\<close>

lemma heap_acquire_law:
  assumes "heap_inv h" and "pmm_allocate_page (pool h) = (p, a)"
  shows "heap_inv (h\<lparr>pool := p\<rparr>)" and "allocs (h\<lparr>pool := p\<rparr>) = allocs h"
    and "a = 0 \<Longrightarrow> p = pool h"
    and "a \<noteq> 0 \<Longrightarrow> a \<notin> foreign h \<and> foreign (h\<lparr>pool := p\<rparr>) = insert a (foreign h)"
proof -
  have inv: "pmm_inv (pool h)" and regs: "heap_regions_ok h"
    using assms(1) by (simp_all add: heap_inv_def heap_regions_ok_def)
  from pmm_allocate_page_law [OF inv assms(2)] have law: "pmm_inv p" "pmm_pinned p = pmm_pinned (pool h)"
    "a = 0 \<and> p = pool h \<or> a \<noteq> 0 \<and> a \<notin> pmm_owned (pool h) \<and> pmm_owned p = insert a (pmm_owned (pool h))"
    by auto
  have same: "region_bytes (h\<lparr>pool := p\<rparr>) = region_bytes h"
    by (simp add: region_bytes_def)
  have owned: "pmm_owned (pool h) \<subseteq> pmm_owned p"
    using law(3) by auto
  have "mem_region_end p = mem_region_end (pool h)"
    using inv by (rule pmm_allocate_page_cases) (use assms(2) in \<open>auto simp: frame_simps\<close>)
  then have "heap_regions_ok (h\<lparr>pool := p\<rparr>)"
    using regs law(1,2) owned unfolding heap_regions_ok_def same by auto
  then show "heap_inv (h\<lparr>pool := p\<rparr>)"
    using assms(1) unfolding heap_inv_def same by simp
  show "allocs (h\<lparr>pool := p\<rparr>) = allocs h"
    by (simp add: allocs_def)
  show "a = 0 \<Longrightarrow> p = pool h"
    using law(3) by simp
  assume "a \<noteq> 0"
  then have a: "a \<notin> pmm_owned (pool h)" "pmm_owned p = insert a (pmm_owned (pool h))"
    using law(3) by auto
  have "a \<notin> pmm_pinned (pool h)" "a \<notin> page_of ` region_bytes h"
    using a(1) pmm_pinned_owned [OF inv] regs unfolding heap_regions_ok_def by auto
  then show "a \<notin> foreign h \<and> foreign (h\<lparr>pool := p\<rparr>) = insert a (foreign h)"
    unfolding foreign_def same using a law(2) by auto
qed

interpretation kmem: kernel_memory heap_inv allocs kmalloc kfree foreign heap_release
proof unfold_locales
  fix h n h' p assume "heap_inv h" "kmalloc h n = Some (h', p)"
  with kmalloc_law [of h n] show "foreign h' = foreign h"
    by (auto simp: alloc_result_def)
next
  fix h p h' assume "kfree h p = Some h'"
  then show "foreign h' = foreign h"
    using kfree_frame by (auto simp: foreign_def region_bytes_def)
next
  fix h a assume "heap_inv h" "a \<in> foreign h"
  then show "heap_inv (heap_release a h) \<and> foreign (heap_release a h) = foreign h - {a} \<and>
    allocs (heap_release a h) = allocs h"
    using heap_release_law by blast
qed

section \<open>Initialisation\<close>

lemma heap_init_cases:
  assumes "pmm_inv (pool h)" and "mem_region_end (pool h) < 2 ^ 48" and "regions h = []"
  obtains (none) "heap_init h = h"
      "\<forall>s. reserved_pages (pool h) \<le> s \<and> s + 256 \<le> total_pages (pool h) \<longrightarrow> \<not> run_free (pool h) s 256"
  | (ready) "heap_inv (heap_init h)" "allocs (heap_init h) = {}"
proof -
  have pos: "0 < (256 :: nat)" by simp
  from assms(1) pos show thesis
  proof (rule pmm_allocate_pages_cases)
    assume "pmm_allocate_pages (pool h) 256 = (pool h, 0)"
      "\<forall>s. reserved_pages (pool h) \<le> s \<and> s + 256 \<le> total_pages (pool h) \<longrightarrow> \<not> run_free (pool h) s 256"
    then show thesis by (intro none) (simp_all add: heap_init_def)
  next
    fix s assume s: "reserved_pages (pool h) \<le> s" "s + 256 \<le> total_pages (pool h)" "run_free (pool h) s 256"
      "pmm_allocate_pages (pool h) 256 = (pmm_take_run (pool h) s 256, frame_addr (pool h) s)"
    define va where "va = frame_addr (pool h) s + KERNEL_VA_OFFSET"
    define m where "m = (memset_zero va (256 * 4096) (hmem h))(va := \<lparr>bh_size = 256 * 4096 - 32,
      bh_magic = BLOCK_MAGIC_FREE, bh_is_free = 1, bh_next = 0\<rparr>)"
    note pages = new_region_pages [OF assms(1) s(2) assms(2), folded va_def]
    have va: "phys_to_virt (frame_addr (pool h) s) = va" "frame_addr (pool h) s \<noteq> 0" "va \<noteq> 0" "va mod 16 = 0"
      using pages(1,4) frame_addr_bounds(3) [OF assms(1), of s] s(2)
      by (auto simp: va_def mod_eq_0_iff_dvd intro: dvd_trans [of 16 4096])
    have regs: "heap_regions_ok h"
      using assms by (simp add: heap_regions_ok_def region_bytes_def)
    have init: "heap_init h = h\<lparr>pool := pmm_take_run (pool h) s 256, hmem := m, heap_head := va,
        regions := regions h @ [\<lparr>va_start = va, size_bytes = 256 * 4096\<rparr>]\<rparr>"
      using va assms(3) by (simp add: heap_init_def s(4) register_region_def m_def)
    have list: "blist m va [va]"
      using va(3) by (simp add: m_def)
    have "tiling m {va} {va..<va + 256 * 4096}"
      using va(4) pages(2) by (simp add: tiling_def extent_def block_ok_def m_def add.commute)
    with list have "blocks_inv m va [va] (region_bytes (heap_init h))"
      unfolding init region_bytes_append using assms(3) by (simp add: blocks_inv_def region_bytes_def)
    moreover have "heap_regions_ok (heap_init h)"
      unfolding init va_def using assms(3) by (intro heap_regions_grow [OF regs s(2,3,1)]) simp
    moreover have "hmem (heap_init h) = m" "heap_head (heap_init h) = va"
      by (simp_all add: init)
    moreover have "allocs_of m [va] = {}"
      by (simp add: allocs_of_def m_def)
    ultimately show thesis
      using va(3) list allocs_eq [of "heap_init h" "[va]"] by (intro ready) (auto simp: heap_inv_def)
  qed
qed

section \<open>Accounting\<close>

lemma fold_sum_if:
  "acc + sum_list (map f (filter P xs)) < 2 ^ 64 \<Longrightarrow>
     fold (\<lambda>x acc. if P x then u64 (acc + f x) else acc) xs acc = acc + sum_list (map f (filter P xs))"
proof (induction xs arbitrary: acc)
  case (Cons x xs)
  show ?case
  proof (cases "P x")
    case True
    with Cons.prems have "u64 (acc + f x) = acc + f x"
      by (intro u64_id) simp
    with True Cons.prems show ?thesis by (simp add: Cons.IH)
  qed (use Cons in simp)
qed simp

lemma fold_sum_all:
  "acc + sum_list (map f xs) < 2 ^ 64 \<Longrightarrow> fold (\<lambda>x acc. u64 (acc + f x)) xs acc = acc + sum_list (map f xs)"
  using fold_sum_if [of acc f "\<lambda>_. True" xs] by simp

lemma tiling_card:
  assumes "tiling m (set bs) R" and "distinct bs"
  shows "card R = sum_list (map (\<lambda>b. 32 + bh_size (m b)) bs)"
proof -
  have "card R = card (\<Union>b \<in> set bs. extent m b)"
    using assms(1) by (simp add: tiling_def)
  also have "\<dots> = (\<Sum>b \<in> set bs. card (extent m b))"
    using assms(1) by (intro card_UN_disjoint) (auto simp: tiling_def extent_def)
  also have "\<dots> = (\<Sum>b \<in> set bs. 32 + bh_size (m b))"
    by (simp add: extent_def)
  also have "\<dots> = sum_list (map (\<lambda>b. 32 + bh_size (m b)) bs)"
    using assms(2) by (simp add: sum_list_distinct_conv_sum_set)
  finally show ?thesis .
qed

lemma region_bytes_small: "heap_inv h \<Longrightarrow> card (region_bytes h) < 2 ^ 64"
proof -
  assume h: "heap_inv h"
  have "x < 2 ^ 64 \<and> 0 < x" if "x \<in> region_bytes h" for x
  proof -
    from that obtain r where "r \<in> set (regions h)" "x < va_start r + size_bytes r"
      by (auto simp: region_bytes_def)
    with h have "x < 2 ^ 64"
      by (fastforce simp: heap_inv_def heap_regions_ok_def)
    moreover have "KERNEL_VA_OFFSET \<le> x"
      using h that by (simp add: heap_inv_def heap_regions_ok_def)
    ultimately show ?thesis by (simp add: KERNEL_VA_OFFSET_def)
  qed
  then have "region_bytes h \<subseteq> {0<..<2 ^ 64}" by auto
  then have "card (region_bytes h) \<le> card {0<..<(2 :: nat) ^ 64}"
    by (intro card_mono) simp_all
  then show ?thesis by simp
qed

lemma sum_list_filter_split:
  "sum_list (map f (filter P xs)) + sum_list (map f (filter (\<lambda>x. \<not> P x) xs)) = (sum_list (map f xs) :: nat)"
  by (induction xs) simp_all

lemma expand_pages_enough:
  assumes "need + 32 + 4095 < 2 ^ 64"
  shows "need + 32 \<le> expand_pages need * 4096"
proof -
  have "need + 32 \<le> (need + 32 + 4095) div 4096 * 4096"
    by (rule round_up_bounds)
  also have "\<dots> \<le> expand_pages need * 4096"
    using assms by (simp add: expand_pages_def u64_id)
  finally show ?thesis .
qed

text \<open>
  The guard of \<^verbatim>\<open>kmalloc\<close> protects only the rounding: for the largest sizes it lets
  through, the addition in \<^verbatim>\<open>heap_expand\<close> wraps and the heap grows by the minimum for a
  request it can never satisfy.
\<close>

lemma expand_pages_wraps:
  assumes "2 ^ 64 - 32 \<le> need" and "need < 2 ^ 64"
  shows "expand_pages need = 64"
proof -
  define d where "d = need - (2 ^ 64 - 32)"
  have "need + 32 = d + 2 ^ 64" "d < 32"
    using assms by (simp_all add: d_def)
  then show ?thesis by (simp add: expand_pages_def u64_def)
qed

section \<open>Properties\<close>

text \<open>
  The states of the witnesses: the heap right after boot on the demo memory, and the same heap
  after one allocation of 100 bytes (rounded to 112).
\<close>

definition demo_heap :: heap where
  "demo_heap = heap_init \<lparr>pool = demo_pmm, heap_head = 0, hmem = (\<lambda>_. zero_header), regions = []\<rparr>"

definition demo_heap1 :: heap where
  "demo_heap1 = demo_heap\<lparr>hmem := kmalloc_take (hmem demo_heap) 0xFFFF000040004000 112\<rparr>"

lemma demo_heap_eq:
  "heap_head demo_heap = 0xFFFF000040004000"
  "hmem demo_heap 0xFFFF000040004000 = \<lparr>bh_size = 1048544, bh_magic = BLOCK_MAGIC_FREE, bh_is_free = 1, bh_next = 0\<rparr>"
  by (simp_all add: demo_heap_def heap_init_def demo_pmm_run register_region_def phys_to_virt_def u64_def
      KERNEL_VA_OFFSET_def)

lemma demo_heap_boot:
  "pmm_inv (pool \<lparr>pool = demo_pmm, heap_head = 0, hmem = (\<lambda>_. zero_header), regions = []\<rparr>)"
  "mem_region_end (pool \<lparr>pool = demo_pmm, heap_head = 0, hmem = (\<lambda>_. zero_header), regions = []\<rparr>) < 2 ^ 48"
  "regions \<lparr>pool = demo_pmm, heap_head = 0, hmem = (\<lambda>_. zero_header), regions = []\<rparr> = []"
  by (simp_all add: demo_pmm_inv demo_pmm_fields)

lemma demo_heap_inv: "heap_inv demo_heap" "allocs demo_heap = {}"
proof -
  have "heap_inv demo_heap \<and> allocs demo_heap = {}"
    using demo_heap_boot
  proof (rule heap_init_cases)
    assume "heap_init \<lparr>pool = demo_pmm, heap_head = 0, hmem = (\<lambda>_. zero_header), regions = []\<rparr>
      = \<lparr>pool = demo_pmm, heap_head = 0, hmem = (\<lambda>_. zero_header), regions = []\<rparr>"
    then have "heap_head demo_heap = 0"
      unfolding demo_heap_def by simp
    then show ?thesis by (simp add: demo_heap_eq)
  qed (simp add: demo_heap_def)
  then show "heap_inv demo_heap" "allocs demo_heap = {}" by simp_all
qed

lemma demo_heap_blist: "blist (hmem demo_heap) (heap_head demo_heap) [0xFFFF000040004000]"
  by (simp add: demo_heap_eq)

lemma kmalloc_attempts_two: "kmalloc_attempts 2 = kmalloc_attempts (Suc (Suc 0))"
  by (simp add: numeral_2_eq_2)

lemma demo_kmalloc: "kmalloc demo_heap 100 = Some (demo_heap1, 0xFFFF000040004020)"
  by (simp add: kmalloc_def kmalloc_attempts_two heap_align_up_def u64_def demo_heap1_def demo_heap_eq
      kmalloc_fit.simps [of _ _ "0xFFFF000040004000"])

lemma demo_heap1_eq:
  "heap_head demo_heap1 = 0xFFFF000040004000"
  "hmem demo_heap1 0xFFFF000040004000 =
     \<lparr>bh_size = 112, bh_magic = BLOCK_MAGIC_ALLOC, bh_is_free = 0, bh_next = 0xFFFF000040004090\<rparr>"
  "hmem demo_heap1 0xFFFF000040004090 =
     \<lparr>bh_size = 1048400, bh_magic = BLOCK_MAGIC_FREE, bh_is_free = 1, bh_next = 0\<rparr>"
  by (simp_all add: demo_heap1_def demo_heap_eq kmalloc_take_def kmalloc_split_def sub64_def u64_def Let_def)

lemma demo_heap1_blist:
  "blist (hmem demo_heap1) (heap_head demo_heap1) [0xFFFF000040004000, 0xFFFF000040004090]"
  by (simp add: demo_heap1_eq)

lemma demo_heap1_inv: "heap_inv demo_heap1" "allocs demo_heap1 = {(0xFFFF000040004020, 112)}"
  using kmalloc_law [OF demo_heap_inv(1), of 100] allocs_eq [OF demo_heap1_blist]
  by (auto simp: demo_kmalloc alloc_result_def allocs_of_def demo_heap1_eq)

text \<open>
  C12. \<^verbatim>\<open>kmalloc\<close> always returns and keeps the heap invariant (list, tiling of the regions,
  magics, page ownership). It returns either 0, with the set of live allocations unchanged, or a
  16-byte aligned block of at least the requested size that was not live before and whose bytes,
  header included, overlap no other live allocation.
\<close>
theorem kmalloc_correct:
  assumes "heap_inv h"
  shows "\<exists>h' p. kmalloc h n = Some (h', p) \<and> heap_inv h' \<and>
    (p = 0 \<and> allocs h' = allocs h \<or>
     p \<noteq> 0 \<and> p mod 16 = 0 \<and> (\<forall>j. (p, j) \<notin> allocs h) \<and>
     (\<exists>s \<ge> n. allocs h' = insert (p, s) (allocs h) \<and>
        (\<forall>(q, k) \<in> allocs h. {p - 32..<p + s} \<inter> {q - 32..<q + k} = {})))"
proof -
  from kmalloc_law [OF assms] obtain h' p where run: "kmalloc h n = Some (h', p)" and
    res: "alloc_result h n h' p" by blast
  have "\<forall>(q, k) \<in> allocs h. {p - 32..<p + s} \<inter> {q - 32..<q + k} = {}"
    if "allocs h' = insert (p, s) (allocs h)" "\<forall>j. (p, j) \<notin> allocs h" for s
    using that res allocs_disjoint [of h' p s] by (auto simp: alloc_result_def)
  with run res show ?thesis
    unfolding alloc_result_def by (metis (no_types, lifting))
qed

theorem kmalloc_correct_witness:
  "\<exists>h' p. kmalloc demo_heap1 4000 = Some (h', p) \<and> heap_inv h' \<and>
     (p = 0 \<or> {p - 32..<p + 4000} \<inter> {0xFFFF000040004000..<0xFFFF000040004090} = {})"
  using kmalloc_correct [OF demo_heap1_inv(1), of 4000] unfolding demo_heap1_inv(2) by fastforce

text \<open>
  C13. Freeing a live allocation always returns, keeps the invariant, ends exactly that
  allocation, and leaves the list fully coalesced: no two neighbouring free blocks that touch.
\<close>
theorem kfree_correct:
  assumes "heap_inv h" and "(p, k) \<in> allocs h"
  shows "\<exists>h' bs. kfree h p = Some h' \<and> heap_inv h' \<and> allocs h' = allocs h - {(p, k)} \<and>
    blist (hmem h') (heap_head h') bs \<and> coalesced (hmem h') bs"
  using kfree_law [OF assms] by blast

theorem kfree_correct_witness:
  "\<exists>h'. kfree demo_heap1 0xFFFF000040004020 = Some h' \<and> heap_inv h' \<and> allocs h' = {}"
  using kfree_correct [OF demo_heap1_inv(1), of "0xFFFF000040004020" 112]
  by (auto simp: demo_heap1_inv(2))

text \<open>
  The guards of \<^verbatim>\<open>kfree\<close>: a null pointer, a pointer whose header lies outside every
  region, and a header without the allocation magic are refused with the heap unchanged; in
  particular a second free of the same pointer is refused.
\<close>
theorem kfree_refuses:
  assumes "heap_inv h"
  shows "(p = 0 \<or> sub64 p 32 \<notin> region_bytes h \<or> bh_magic (hmem h (sub64 p 32)) \<noteq> BLOCK_MAGIC_ALLOC \<longrightarrow>
      kfree h p = Some h) \<and>
    ((p, k) \<in> allocs h \<and> kfree h p = Some h' \<longrightarrow> kfree h' p = Some h')"
proof (intro conjI impI)
  assume "p = 0 \<or> sub64 p 32 \<notin> region_bytes h \<or> bh_magic (hmem h (sub64 p 32)) \<noteq> BLOCK_MAGIC_ALLOC"
  then show "kfree h p = Some h"
    using addr_in_region_bytes [OF assms] by (auto simp: kfree_def Let_def)
next
  assume p: "(p, k) \<in> allocs h \<and> kfree h p = Some h'"
  with kfree_law [OF assms] have "bh_magic (hmem h' (p - 32)) = BLOCK_MAGIC_FREE"
    by fastforce
  moreover from assms conjunct1 [OF p] obtain b where "p = b + 32" "sub64 p 32 = b"
    by (rule alloc_block)
  ultimately show "kfree h' p = Some h'"
    by (simp add: kfree_def BLOCK_MAGIC_FREE_def BLOCK_MAGIC_ALLOC_def)
qed

theorem kfree_refuses_witness:
  "kfree demo_heap1 0xFFFF0000400040B0 = Some demo_heap1 \<and>
   (\<exists>h'. kfree demo_heap1 0xFFFF000040004020 = Some h' \<and> kfree h' 0xFFFF000040004020 = Some h')"
proof -
  obtain h' where "kfree demo_heap1 0xFFFF000040004020 = Some h'"
    using kfree_law [OF demo_heap1_inv(1), of "0xFFFF000040004020" 112] by (auto simp: demo_heap1_inv(2))
  then show ?thesis
    using kfree_refuses [OF demo_heap1_inv(1), where p = "0xFFFF0000400040B0"]
      kfree_refuses [OF demo_heap1_inv(1), where p = "0xFFFF000040004020" and k = 112 and h' = h']
    by (auto simp: demo_heap1_inv(2) demo_heap1_eq sub64_def BLOCK_MAGIC_FREE_def BLOCK_MAGIC_ALLOC_def)
qed

text \<open>
  C21. \<^verbatim>\<open>kmalloc\<close> does not fail without a reason: for a size up to half the address space it
  returns 0 only when no free block is large enough and the heap cannot grow, because the region
  table is full or the memory manager has no contiguous run of the pages needed.
\<close>
theorem kmalloc_fails_only_when_full:
  assumes "heap_inv h" and "0 < n" and "n \<le> 2 ^ 63" and "kmalloc h n = Some (h', 0)"
    and "blist (hmem h) (heap_head h) bs"
  shows "(\<forall>b \<in> set bs. bh_is_free (hmem h b) \<noteq> 0 \<longrightarrow> bh_size (hmem h b) < heap_align_up n) \<and>
    (length (regions h) = 16 \<or>
     (let k = expand_pages (heap_align_up n) in
      \<forall>s. reserved_pages (pool h) \<le> s \<and> s + k \<le> total_pages (pool h) \<longrightarrow> \<not> run_free (pool h) s k))"
proof -
  let ?sz = "heap_align_up n"
  have n: "n \<le> 2 ^ 64 - 16" using assms(3) by simp
  have run: "kmalloc_attempts (Suc (Suc 0)) h ?sz = Some (h', 0)"
    using assms(2-4) by (simp add: kmalloc_def kmalloc_attempts_two)
  have sz: "?sz + 32 \<le> expand_pages ?sz * 4096"
    using heap_align_up_bounds(3) [OF n] assms(3) by (intro expand_pages_enough) simp
  have inv: "blocks_inv (hmem h) (heap_head h) bs (region_bytes h)"
    using assms(1,5) blist_unique by (metis blocks_inv_def heap_invE)
  from assms(5) show ?thesis
  proof (rule kmalloc_fit_cases [where sz = ?sz])
    fix c assume "kmalloc_fit (hmem h) ?sz (heap_head h) = Some c" "c \<noteq> 0" "c \<in> set bs"
      "bh_is_free (hmem h c) \<noteq> 0" "?sz \<le> bh_size (hmem h c)"
    with kmalloc_take_result(1) [OF assms(1) inv, of c ?sz] heap_align_up_bounds(1) [OF n] run
    show ?thesis by simp
  next
    assume none: "kmalloc_fit (hmem h) ?sz (heap_head h) = Some 0"
      "\<forall>b \<in> set bs. bh_is_free (hmem h b) \<noteq> 0 \<longrightarrow> bh_size (hmem h b) < ?sz"
    from assms(1) inv show ?thesis
    proof (rule heap_expand_cases [where need = ?sz])
      fix h1 va assume h1: "heap_expand h ?sz = Some (h1, True)" "heap_inv h1"
        "blist (hmem h1) (heap_head h1) (bs @ [va])" "bh_is_free (hmem h1 va) = 1"
        "bh_size (hmem h1 va) = expand_pages ?sz * 4096 - 32"
      from h1(3) have "False"
      proof (rule kmalloc_fit_cases [where sz = ?sz])
        assume "\<forall>b \<in> set (bs @ [va]). bh_is_free (hmem h1 b) \<noteq> 0 \<longrightarrow> bh_size (hmem h1 b) < ?sz"
        with h1(4) have "bh_size (hmem h1 va) < ?sz" by simp
        with h1(5) sz show False by linarith
      next
        fix c assume c: "kmalloc_fit (hmem h1) ?sz (heap_head h1) = Some c" "c \<noteq> 0"
        with run none(1) h1(1) have "u64 (c + 32) = 0" by simp
        moreover have "c + 32 \<noteq> 0" by simp
        moreover assume "c \<in> set (bs @ [va])"
        ultimately show False
          using tiling_ok [of "hmem h1" "set (bs @ [va])" "region_bytes h1" c] h1(2,3) blist_unique
          by (metis add_lessD1 block_ok_def heap_invE u64_id)
      qed
      then show ?thesis ..
    qed (use none(2) in \<open>simp add: Let_def\<close>)
  qed
qed

lemma demo_kmalloc_big: "kmalloc demo_heap (2 ^ 40) = Some (demo_heap, 0)"
proof -
  have inv: "pmm_inv (pool demo_heap)"
    using demo_heap_inv(1) by (simp add: heap_inv_def heap_regions_ok_def)
  have big: "total_pages (pool demo_heap) = 1000"
    by (simp add: demo_heap_def heap_init_def demo_pmm_run register_region_def frame_simps
        demo_pmm_fields phys_to_virt_def u64_def KERNEL_VA_OFFSET_def Let_def)
  have fail: "pmm_allocate_pages (pool demo_heap) 268435457 = (pool demo_heap, 0)"
    using inv by (rule pmm_allocate_pages_cases [where n = 268435457]) (simp_all add: big)
  then show ?thesis
    by (simp add: kmalloc_def kmalloc_attempts_two heap_align_up_def u64_def demo_heap_eq heap_expand_def
        kmalloc_fit.simps [of _ _ "0xFFFF000040004000"] kmalloc_fit.simps [of _ _ 0])
qed

theorem kmalloc_fails_only_when_full_witness:
  "kmalloc demo_heap (2 ^ 40) = Some (demo_heap, 0) \<and>
   (length (regions demo_heap) = 16 \<or>
    (let k = expand_pages (heap_align_up (2 ^ 40)) in
     \<forall>s. reserved_pages (pool demo_heap) \<le> s \<and> s + k \<le> total_pages (pool demo_heap) \<longrightarrow>
       \<not> run_free (pool demo_heap) s k))"
  using kmalloc_fails_only_when_full [OF demo_heap_inv(1) _ _ demo_kmalloc_big demo_heap_blist] demo_kmalloc_big
  by simp

text \<open>
  Nothing leaks: the bytes in use, the bytes free and one header per block add up to the
  bytes of all regions, and none of the three counters wraps.
\<close>
theorem heap_accounting:
  assumes "heap_inv h" and "blist (hmem h) (heap_head h) bs"
  shows "\<exists>u f. heap_used_bytes h = Some u \<and> heap_free_bytes h = Some f \<and>
    u + f + 32 * length bs = heap_total_bytes h \<and> heap_total_bytes h = card (region_bytes h)"
proof -
  have til: "tiling (hmem h) (set bs) (region_bytes h)"
    using assms blist_unique by (metis heap_invE)
  let ?size = "\<lambda>b. bh_size (hmem h b)" and ?used = "\<lambda>b. bh_is_free (hmem h b) = 0"
  define u where "u = sum_list (map ?size (filter ?used bs))"
  define f where "f = sum_list (map ?size (filter (\<lambda>b. \<not> ?used b) bs))"
  have "sum_list (map (\<lambda>b. 32 + ?size b) bs) = 32 * length bs + sum_list (map ?size bs)"
    by (induction bs) simp_all
  then have sum: "u + f + 32 * length bs = card (region_bytes h)"
    unfolding u_def f_def sum_list_filter_split
    using tiling_card [OF til blist_distinct [OF assms(2)]] by simp
  have small: "card (region_bytes h) < 2 ^ 64"
    using assms(1) by (rule region_bytes_small)
  have "heap_used_bytes h = Some u"
    unfolding heap_used_bytes_def sum_blocks_blist [OF assms(2)] u_def
    using sum small fold_sum_if [of 0 ?size ?used bs] by (simp add: u_def)
  moreover have "heap_free_bytes h = Some f"
    unfolding heap_free_bytes_def sum_blocks_blist [OF assms(2)] f_def
    using sum small fold_sum_if [of 0 ?size "\<lambda>b. \<not> ?used b" bs] by (simp add: f_def)
  moreover have "heap_total_bytes h = card (region_bytes h)"
    using assms(1) small fold_sum_all [of 0 size_bytes "regions h"]
    by (simp add: heap_total_bytes_def heap_inv_def heap_regions_ok_def)
  ultimately show ?thesis
    using sum by simp
qed

theorem heap_accounting_witness:
  "\<exists>u f. heap_used_bytes demo_heap1 = Some u \<and> heap_free_bytes demo_heap1 = Some f \<and>
     u + f + 64 = heap_total_bytes demo_heap1"
  using heap_accounting [OF demo_heap1_inv(1) demo_heap1_blist] by auto

text \<open>
  C22. \<^verbatim>\<open>heap_init\<close> on a machine with 256 free contiguous frames yields a heap that satisfies
  the invariant and has no live allocation.
\<close>
theorem heap_init_establishes:
  assumes "pmm_inv (pool h)" and "mem_region_end (pool h) < 2 ^ 48" and "regions h = []"
    and "reserved_pages (pool h) \<le> s" and "s + 256 \<le> total_pages (pool h)" and "run_free (pool h) s 256"
  shows "heap_inv (heap_init h) \<and> allocs (heap_init h) = {}"
  using assms(1-3) by (rule heap_init_cases) (use assms(4-6) in auto)

theorem heap_init_establishes_witness:
  "heap_inv (heap_init \<lparr>pool = demo_pmm, heap_head = 0, hmem = (\<lambda>_. zero_header), regions = []\<rparr>)"
proof -
  have "run_free demo_pmm 4 256"
    using demo_pmm_test by (simp add: run_free_def)
  then show ?thesis
    using heap_init_establishes [OF demo_heap_boot, of 4] by (simp add: demo_pmm_fields)
qed

end
