(* ===== verification/Vma.thy ===== *)
theory Vma
  imports Heap
begin

text \<open>
  The per-task list of virtual memory areas, \<^verbatim>\<open>src/src/mm/vma/vma.c\<close>. A
  \<^verbatim>\<open>vma_set_t\<close> is the list of its first \<^verbatim>\<open>count\<close> entries; the slots behind them hold
  nothing the code reads. The set is embedded in the task, so the \<^verbatim>\<open>NULL\<close> checks on the set
  pointer never fire and are left out.

  The page arrays of the areas live in the kernel heap: \<open>cells\<close> is the payload memory, the
  8-byte cell at each address, and entry \<open>i\<close> of the array at \<open>p\<close> is the cell at
  \<open>p + 8 * i\<close>. Every operation threads the heap and the cells, so aliasing between arrays is
  visible; \<open>None\<close> is a heap call that does not return.
\<close>

section \<open>State\<close>

record vma =
  vstart :: nat
  vend :: nat
  vprot :: nat
  vflags :: nat
  vpages :: nat

record vm =
  vheap :: heap
  cells :: "nat \<Rightarrow> nat"

abbreviation (input) VMA_MAX_PER_TASK :: nat where "VMA_MAX_PER_TASK \<equiv> 32"

definition vma_npages :: "vma \<Rightarrow> nat" where
  "vma_npages v = sub64 (vend v) (vstart v) div PAGE_SIZE"

definition vma_count :: "vma list \<Rightarrow> nat" where
  "vma_count vs = length vs"

definition vm_kmalloc :: "vm \<Rightarrow> nat \<Rightarrow> (vm \<times> nat) option" where
  "vm_kmalloc s n = do { (h, p) \<leftarrow> kmalloc (vheap s) n; Some (s\<lparr>vheap := h\<rparr>, p) }"

definition vm_kfree :: "vm \<Rightarrow> nat \<Rightarrow> vm option" where
  "vm_kfree s p = do { h \<leftarrow> kfree (vheap s) p; Some (s\<lparr>vheap := h\<rparr>) }"

definition vm_free_page :: "nat \<Rightarrow> vm \<Rightarrow> vm" where
  "vm_free_page a s = s\<lparr>vheap := heap_release a (vheap s)\<rparr>"

definition vm_write :: "nat \<Rightarrow> nat list \<Rightarrow> vm \<Rightarrow> vm" where
  "vm_write p xs s = fold (\<lambda>i s. s\<lparr>cells := (cells s)(p + 8 * i := xs ! i)\<rparr>) [0..<length xs] s"

definition vm_read :: "vm \<Rightarrow> nat \<Rightarrow> nat \<Rightarrow> nat list" where
  "vm_read s p n = map (\<lambda>i. cells s (p + 8 * i)) [0..<n]"

section \<open>Lookup\<close>

definition vma_init :: "vma list" where
  "vma_init = []"

definition vma_find :: "vma list \<Rightarrow> nat \<Rightarrow> vma option" where
  "vma_find vs va = find (\<lambda>v. vstart v \<le> va \<and> va < vend v) vs"

definition vma_find_overlap :: "vma list \<Rightarrow> nat \<Rightarrow> nat \<Rightarrow> vma option" where
  "vma_find_overlap vs s e = find (\<lambda>v. s < vend v \<and> vstart v < e) vs"

section \<open>Insertion\<close>

primrec vma_insert_index :: "vma list \<Rightarrow> vma \<Rightarrow> nat \<Rightarrow> nat" where
  "vma_insert_index vs v 0 = 0"
| "vma_insert_index vs v (Suc idx) =
     (if vstart v < vstart (vs ! idx) then vma_insert_index vs v idx else Suc idx)"

definition vma_insert_sorted :: "vma list \<Rightarrow> vma \<Rightarrow> vma list" where
  "vma_insert_sorted vs v =
     (let idx = vma_insert_index vs v (length vs) in take idx vs @ v # drop idx vs)"

definition vma_add :: "vm \<Rightarrow> vma list \<Rightarrow> nat \<Rightarrow> nat \<Rightarrow> nat \<Rightarrow> nat \<Rightarrow> (vm \<times> vma list \<times> vma option) option" where
  "vma_add s vs start fin prot flags =
     (if fin \<le> start then Some (s, vs, None)
      else if start mod PAGE_SIZE \<noteq> 0 \<or> fin mod PAGE_SIZE \<noteq> 0 then Some (s, vs, None)
      else if VMA_MAX_PER_TASK \<le> length vs then Some (s, vs, None)
      else if vma_find_overlap vs start fin \<noteq> None then Some (s, vs, None)
      else (let npages = (fin - start) div PAGE_SIZE in
        if 2 ^ 20 < npages then Some (s, vs, None)
        else do {
          (s1, pages) \<leftarrow> vm_kmalloc s (u64 (npages * 8));
          if pages = 0 then Some (s1, vs, None)
          else (let s2 = vm_write pages (replicate npages 0) s1;
                    vs' = vma_insert_sorted vs \<lparr>vstart = start, vend = fin, vprot = prot,
                            vflags = flags, vpages = pages\<rparr>
                in Some (s2, vs', vma_find vs' start))
        }))"

section \<open>Splitting and merging\<close>

text \<open>The first area containing \<open>va\<close> is changed in place by \<open>f\<close>.\<close>

primrec vma_update :: "(vma \<Rightarrow> vma) \<Rightarrow> nat \<Rightarrow> vma list \<Rightarrow> vma list" where
  "vma_update f va [] = []"
| "vma_update f va (v # vs) = (if vstart v \<le> va \<and> va < vend v then f v # vs else v # vma_update f va vs)"

definition vma_split_at :: "vm \<Rightarrow> vma list \<Rightarrow> nat \<Rightarrow> (vm \<times> vma list \<times> bool) option" where
  "vma_split_at s vs va =
     (if va mod PAGE_SIZE \<noteq> 0 then Some (s, vs, False)
      else case vma_find vs va of
        None \<Rightarrow> Some (s, vs, True)
      | Some v \<Rightarrow>
          if vstart v = va \<or> vend v = va then Some (s, vs, True)
          else if VMA_MAX_PER_TASK \<le> length vs then Some (s, vs, False)
          else (let head_pages = sub64 va (vstart v) div PAGE_SIZE;
                    tail_pages = sub64 (vend v) va div PAGE_SIZE
            in do {
              (s1, arr) \<leftarrow> vm_kmalloc s (u64 (tail_pages * 8));
              if arr = 0 then Some (s1, vs, False)
              else (let s2 = vm_write arr (vm_read s1 (vpages v + 8 * head_pages) tail_pages) s1;
                        tail = v\<lparr>vstart := va, vpages := arr\<rparr>
                    in Some (s2, vma_insert_sorted (vma_update (\<lambda>v. v\<lparr>vend := va\<rparr>) va vs) tail, True))
            }))"

text \<open>The loop of \<^verbatim>\<open>vma_merge_adjacent\<close> from index \<open>i\<close>.\<close>

function vma_merge_loop :: "vm \<Rightarrow> vma list \<Rightarrow> nat \<Rightarrow> nat \<Rightarrow> (vm \<times> vma list \<times> nat) option" where
  "vma_merge_loop s vs i merges =
     (if i + 1 < length vs then
        (let a = vs ! i; b = vs ! (i + 1) in
         if vend a \<noteq> vstart b \<or> vprot a \<noteq> vprot b \<or> vflags a \<noteq> vflags b
         then vma_merge_loop s vs (i + 1) merges
         else do {
           (s1, merged) \<leftarrow> vm_kmalloc s (u64 ((vma_npages a + vma_npages b) * 8));
           if merged = 0 then vma_merge_loop s1 vs (i + 1) merges
           else (let s2 = vm_write merged (vm_read s1 (vpages a) (vma_npages a)) s1;
                     s3 = vm_write (merged + 8 * vma_npages a) (vm_read s2 (vpages b) (vma_npages b)) s2
             in do {
               s4 \<leftarrow> vm_kfree s3 (vpages a);
               s5 \<leftarrow> vm_kfree s4 (vpages b);
               vma_merge_loop s5
                 (take i vs @ a\<lparr>vend := vend b, vpages := merged\<rparr> # drop (i + 2) vs) i (merges + 1)
             })
         })
      else Some (s, vs, merges))"
  by pat_completeness auto
termination
  by (relation "measure (\<lambda>(s, vs, i, merges). length vs - i)") auto

declare vma_merge_loop.simps [simp del]

definition vma_merge_adjacent :: "vm \<Rightarrow> vma list \<Rightarrow> (vm \<times> vma list \<times> nat) option" where
  "vma_merge_adjacent s vs = vma_merge_loop s vs 0 0"

section \<open>Unmapping and protecting\<close>

text \<open>Release the resident pages of one array, counting them.\<close>

definition vma_free_resident :: "vm \<Rightarrow> nat \<Rightarrow> nat \<Rightarrow> nat \<Rightarrow> vm \<times> nat" where
  "vma_free_resident s p n released =
     fold (\<lambda>i (s, released). if cells s (p + 8 * i) \<noteq> 0
             then (vm_free_page (cells s (p + 8 * i)) s, released + 1) else (s, released))
       [0..<n] (s, released)"

function vma_unmap_loop :: "vm \<Rightarrow> vma list \<Rightarrow> nat \<Rightarrow> nat \<Rightarrow> nat \<Rightarrow> nat \<Rightarrow> (vm \<times> vma list \<times> nat) option" where
  "vma_unmap_loop s vs start fin i released =
     (if i < length vs then
        (let v = vs ! i in
         if start \<le> vstart v \<and> vend v \<le> fin then
           (let (s1, released1) = vma_free_resident s (vpages v) (vma_npages v) released in do {
             s2 \<leftarrow> vm_kfree s1 (vpages v);
             vma_unmap_loop s2 (take i vs @ drop (i + 1) vs) start fin i released1
           })
         else vma_unmap_loop s vs start fin (i + 1) released)
      else Some (s, vs, released))"
  by pat_completeness auto
termination
  by (relation "measure (\<lambda>(s, vs, start, fin, i, released). length vs - i)") auto

declare vma_unmap_loop.simps [simp del]

text \<open>The result \<open>None\<close> of the inner option is the return value \<^verbatim>\<open>-1\<close>.\<close>

definition vma_unmap_range :: "vm \<Rightarrow> vma list \<Rightarrow> nat \<Rightarrow> nat \<Rightarrow> (vm \<times> vma list \<times> nat option) option" where
  "vma_unmap_range s vs start fin =
     (if fin \<le> start then Some (s, vs, None)
      else do {
        (s1, vs1, ok1) \<leftarrow> vma_split_at s vs start;
        if \<not> ok1 then Some (s1, vs1, None)
        else do {
          (s2, vs2, ok2) \<leftarrow> vma_split_at s1 vs1 fin;
          if \<not> ok2 then Some (s2, vs2, None)
          else do {
            (s3, vs3, released) \<leftarrow> vma_unmap_loop s2 vs2 start fin 0 0;
            (s4, vs4, _) \<leftarrow> vma_merge_adjacent s3 vs3;
            Some (s4, vs4, Some released)
          }
        }
      })"

definition vma_protect_all :: "vma list \<Rightarrow> nat \<Rightarrow> nat \<Rightarrow> nat \<Rightarrow> vma list \<times> nat" where
  "vma_protect_all vs start fin prot =
     (map (\<lambda>v. if start \<le> vstart v \<and> vend v \<le> fin then v\<lparr>vprot := prot\<rparr> else v) vs,
      length (filter (\<lambda>v. start \<le> vstart v \<and> vend v \<le> fin) vs))"

definition vma_protect_range :: "vm \<Rightarrow> vma list \<Rightarrow> nat \<Rightarrow> nat \<Rightarrow> nat \<Rightarrow> (vm \<times> vma list \<times> nat option) option" where
  "vma_protect_range s vs start fin prot =
     (if fin \<le> start then Some (s, vs, None)
      else do {
        (s1, vs1, ok1) \<leftarrow> vma_split_at s vs start;
        if \<not> ok1 then Some (s1, vs1, None)
        else do {
          (s2, vs2, ok2) \<leftarrow> vma_split_at s1 vs1 fin;
          if \<not> ok2 then Some (s2, vs2, None)
          else (let (vs3, touched) = vma_protect_all vs2 start fin prot in do {
            (s4, vs4, _) \<leftarrow> vma_merge_adjacent s2 vs3;
            Some (s4, vs4, Some touched)
          })
        }
      })"

section \<open>Statistics, cloning, teardown\<close>

definition vma_resident_pages :: "vm \<Rightarrow> vma list \<Rightarrow> nat" where
  "vma_resident_pages s vs =
     fold (\<lambda>v total. fold (\<lambda>p total. if cells s (vpages v + 8 * p) \<noteq> 0 then u64 (total + 1) else total)
             [0..<vma_npages v] total) vs 0"

definition vma_mapped_pages :: "vma list \<Rightarrow> nat" where
  "vma_mapped_pages vs = fold (\<lambda>v total. u64 (total + vma_npages v)) vs 0"

definition vma_release_pages :: "vm \<Rightarrow> vma \<Rightarrow> (vm \<times> vma) option" where
  "vma_release_pages s v =
     (if vpages v = 0 then Some (s, v)
      else do {
        s1 \<leftarrow> vm_kfree
          (fold (\<lambda>i s. if cells s (vpages v + 8 * i) \<noteq> 0
             then (vm_free_page (cells s (vpages v + 8 * i)) s)\<lparr>cells := (cells s)(vpages v + 8 * i := 0)\<rparr>
             else s) [0..<vma_npages v] s) (vpages v);
        Some (s1, v\<lparr>vpages := 0\<rparr>)
      })"

primrec vma_destroy :: "vm \<Rightarrow> vma list \<Rightarrow> (vm \<times> vma list) option" where
  "vma_destroy s [] = Some (s, [])"
| "vma_destroy s (v # vs) = do { (s1, _) \<leftarrow> vma_release_pages s v; vma_destroy s1 vs }"

primrec vma_clone_loop :: "vm \<Rightarrow> vma list \<Rightarrow> vma list \<Rightarrow> (vm \<times> vma list \<times> bool) option" where
  "vma_clone_loop s [] dst = Some (s, dst, True)"
| "vma_clone_loop s (v # vs) dst = do {
     (s1, pages) \<leftarrow> vm_kmalloc s (u64 (vma_npages v * 8));
     if pages = 0 then do { (s2, dst2) \<leftarrow> vma_destroy s1 dst; Some (s2, dst2, False) }
     else vma_clone_loop (vm_write pages (vm_read s1 (vpages v) (vma_npages v)) s1) vs
            (vma_insert_sorted dst (v\<lparr>vpages := pages\<rparr>))
   }"

definition vma_clone :: "vm \<Rightarrow> vma list \<Rightarrow> (vm \<times> vma list \<times> bool) option" where
  "vma_clone s src = vma_clone_loop s src vma_init"

section \<open>Arrays\<close>

lemma vm_write_upt:
  "n \<le> length xs \<Longrightarrow>
     fold (\<lambda>i s. s\<lparr>cells := (cells s)(p + 8 * i := xs ! i)\<rparr>) [0..<n] s =
     s\<lparr>cells := (\<lambda>a. if \<exists>i < n. a = p + 8 * i then xs ! ((a - p) div 8) else cells s a)\<rparr>"
proof (induction n)
  case (Suc n)
  let ?f = "\<lambda>i s. s\<lparr>cells := (cells s)(p + 8 * i := xs ! i)\<rparr>"
  let ?new = "\<lambda>n a. if \<exists>i < n. a = p + 8 * i then xs ! ((a - p) div 8) else cells s a"
  have eq: "(?new n)(p + 8 * n := xs ! n) = ?new (Suc n)"
    by (auto simp: fun_eq_iff less_Suc_eq)
  have "fold ?f [0..<Suc n] s = ?f n (fold ?f [0..<n] s)"
    by simp
  also have "\<dots> = ?f n (s\<lparr>cells := ?new n\<rparr>)"
    using Suc.prems by (intro arg_cong [where f = "?f n"] Suc.IH) simp
  also have "\<dots> = s\<lparr>cells := (?new n)(p + 8 * n := xs ! n)\<rparr>"
    by simp
  finally show ?case unfolding eq .
qed simp

lemma vm_write_eq:
  "vm_write p xs s = s\<lparr>cells := (\<lambda>a. if \<exists>i < length xs. a = p + 8 * i then xs ! ((a - p) div 8) else cells s a)\<rparr>"
  by (simp add: vm_write_def vm_write_upt)

lemma vm_write_heap [simp]: "vheap (vm_write p xs s) = vheap s"
  by (simp add: vm_write_eq)

lemma vm_write_outside: "a \<notin> {p..<p + 8 * length xs} \<Longrightarrow> cells (vm_write p xs s) a = cells s a"
  by (auto simp: vm_write_eq)

lemma vm_write_inside [simp]: "i < length xs \<Longrightarrow> cells (vm_write p xs s) (p + 8 * i) = xs ! i"
  by (auto simp: vm_write_eq)

lemma vm_read_length [simp]: "length (vm_read s p n) = n"
  by (simp add: vm_read_def)

lemma vm_read_nth [simp]: "i < n \<Longrightarrow> vm_read s p n ! i = cells s (p + 8 * i)"
  by (simp add: vm_read_def)

lemma vm_read_cong: "\<forall>i < n. cells s' (q + 8 * i) = cells s (p + 8 * i) \<Longrightarrow> vm_read s' q n = vm_read s p n"
  by (simp add: vm_read_def)

section \<open>The abstract address space\<close>

text \<open>
  What a list of areas means: the pages of the address space in order, each with its address,
  protection, flags and backing page (0 = not faulted in).
\<close>

definition vma_pages_of :: "vm \<Rightarrow> vma \<Rightarrow> (nat \<times> nat \<times> nat \<times> nat) list" where
  "vma_pages_of s v =
     map (\<lambda>i. (vstart v + 4096 * i, vprot v, vflags v, cells s (vpages v + 8 * i))) [0..<vma_npages v]"

definition vm_map :: "vm \<Rightarrow> vma list \<Rightarrow> (nat \<times> nat \<times> nat \<times> nat) list" where
  "vm_map s vs = concat (map (vma_pages_of s) vs)"

definition backing :: "(nat \<times> nat \<times> nat \<times> nat) list \<Rightarrow> nat list" where
  "backing pgs = filter (\<lambda>x. x \<noteq> 0) (map (\<lambda>(_, _, _, pg). pg) pgs)"

definition vma_ok :: "vma \<Rightarrow> bool" where
  "vma_ok v \<longleftrightarrow> vstart v mod 4096 = 0 \<and> vend v mod 4096 = 0 \<and> vstart v < vend v \<and> vend v < 2 ^ 64"

definition array_ok :: "vm \<Rightarrow> vma \<Rightarrow> bool" where
  "array_ok s v \<longleftrightarrow> (\<exists>k. (vpages v, k) \<in> allocs (vheap s) \<and> 8 * vma_npages v \<le> k)"

definition vma_inv :: "vm \<Rightarrow> vma list \<Rightarrow> bool" where
  "vma_inv s vs \<longleftrightarrow>
     heap_inv (vheap s) \<and> length vs \<le> 32 \<and> (\<forall>v \<in> set vs. vma_ok v \<and> array_ok s v) \<and>
     sorted_wrt (\<lambda>a b. vend a \<le> vstart b) vs \<and> distinct (map vpages vs) \<and>
     distinct (backing (vm_map s vs)) \<and> set (backing (vm_map s vs)) \<subseteq> foreign (vheap s)"

text \<open>
  What an operation leaves alone: every live heap block that is not one of the set's page arrays
  stays live, keeps its contents, and does not become one of the set's arrays.
\<close>

definition vm_frame :: "vm \<Rightarrow> vma list \<Rightarrow> vm \<Rightarrow> vma list \<Rightarrow> bool" where
  "vm_frame s vs s' vs' \<longleftrightarrow>
     (\<forall>p k. (p, k) \<in> allocs (vheap s) \<and> p \<notin> vpages ` set vs \<longrightarrow>
        (p, k) \<in> allocs (vheap s') \<and> p \<notin> vpages ` set vs' \<and> (\<forall>a \<in> {p..<p + k}. cells s' a = cells s a))"

lemma vm_frame_refl [simp]: "vm_frame s vs s vs"
  by (simp add: vm_frame_def)

lemma vm_frame_trans: "vm_frame s vs s1 vs1 \<Longrightarrow> vm_frame s1 vs1 s2 vs2 \<Longrightarrow> vm_frame s vs s2 vs2"
  unfolding vm_frame_def by (metis (no_types, lifting))

lemma backing_append [simp]: "backing (xs @ ys) = backing xs @ backing ys"
  by (simp add: backing_def)

lemma vm_map_append [simp]: "vm_map s (xs @ ys) = vm_map s xs @ vm_map s ys"
  by (simp add: vm_map_def)

lemma vm_map_Cons [simp]: "vm_map s (v # vs) = vma_pages_of s v @ vm_map s vs"
  by (simp add: vm_map_def)

lemma vm_map_Nil [simp]: "vm_map s [] = []"
  by (simp add: vm_map_def)

lemma vma_npages_eq: "vma_ok v \<Longrightarrow> vma_npages v = (vend v - vstart v) div 4096"
  by (simp add: vma_npages_def vma_ok_def sub64_id)

lemma vma_npages_end: "vma_ok v \<Longrightarrow> vstart v + 4096 * vma_npages v = vend v"
proof -
  assume v: "vma_ok v"
  then have "(vend v - vstart v) mod 4096 = 0"
    by (simp add: vma_ok_def mod_diff_0)
  then have "(vend v - vstart v) div 4096 * 4096 = vend v - vstart v"
    by (rule div_mult_self_mod_0)
  moreover have "vstart v < vend v"
    using v by (simp add: vma_ok_def)
  ultimately show ?thesis
    using vma_npages_eq [OF v] by linarith
qed

lemma vma_npages_bound: "vma_ok v \<Longrightarrow> 0 < vma_npages v \<and> vma_npages v < 2 ^ 52"
  using vma_npages_end [of v] by (auto simp: vma_ok_def)

lemma vma_pages_of_cong:
  assumes "array_ok s v" and "\<forall>(p, k) \<in> allocs (vheap s). p = vpages v \<longrightarrow> (\<forall>a \<in> {p..<p + k}. cells s' a = cells s a)"
  shows "vma_pages_of s' v = vma_pages_of s v"
  using assms by (fastforce simp: vma_pages_of_def array_ok_def)

section \<open>A fresh array\<close>

lemma vm_kmalloc_cases:
  assumes "heap_inv (vheap s)"
  obtains (none) s1 where "vm_kmalloc s n = Some (s1, 0)" "heap_inv (vheap s1)" "cells s1 = cells s"
      "allocs (vheap s1) = allocs (vheap s)" "foreign (vheap s1) = foreign (vheap s)"
  | (block) s1 p k where "vm_kmalloc s n = Some (s1, p)" "heap_inv (vheap s1)" "cells s1 = cells s"
      "p \<noteq> 0" "n \<le> k" "\<forall>j. (p, j) \<notin> allocs (vheap s)" "allocs (vheap s1) = insert (p, k) (allocs (vheap s))"
      "foreign (vheap s1) = foreign (vheap s)"
  using assms
proof (rule kmem.malloc_cases [where n = n])
  fix h' assume "kmalloc (vheap s) n = Some (h', 0)" "heap_inv h'" "allocs h' = allocs (vheap s)"
    "foreign h' = foreign (vheap s)"
  then show thesis by (intro none [of "s\<lparr>vheap := h'\<rparr>"]) (simp_all add: vm_kmalloc_def)
next
  fix h' p k assume "kmalloc (vheap s) n = Some (h', p)" "heap_inv h'" "p \<noteq> 0" "n \<le> k"
    "\<forall>j. (p, j) \<notin> allocs (vheap s)" "allocs h' = insert (p, k) (allocs (vheap s))"
    "foreign h' = foreign (vheap s)"
  then show thesis by (intro block [of "s\<lparr>vheap := h'\<rparr>" p k]) (simp_all add: vm_kmalloc_def)
qed

lemma fresh_disjoint:
  assumes "heap_inv h" and "allocs h = insert (p, k) A" and "\<forall>j. (p, j) \<notin> A" and "(q, j) \<in> A"
  shows "{p..<p + k} \<inter> {q..<q + j} = {}"
proof -
  have "p \<noteq> q"
    using assms(3,4) by auto
  then show ?thesis
    using assms(1,2,4) by (intro kheap.live_disjoint [of h]) auto
qed

lemma array_ok_mono:
  "array_ok s v \<Longrightarrow> allocs (vheap s) \<subseteq> allocs (vheap s') \<Longrightarrow> array_ok s' v"
  by (auto simp: array_ok_def)

lemma fresh_write:
  assumes "heap_inv (vheap s1)" and "allocs (vheap s1) = insert (p, k) (allocs (vheap s))"
    and "\<forall>j. (p, j) \<notin> allocs (vheap s)" and "8 * length xs \<le> k" and "cells s1 = cells s"
    and "(q, j) \<in> allocs (vheap s)" and "a \<in> {q..<q + j}"
  shows "cells (vm_write p xs s1) a = cells s a"
proof -
  have "{p..<p + k} \<inter> {q..<q + j} = {}"
    using assms(1-3,6) by (rule fresh_disjoint)
  then have "a \<notin> {p..<p + 8 * length xs}"
    using assms(4,7) by auto
  then show ?thesis by (simp add: vm_write_outside assms(5))
qed

lemma vma_pages_of_same:
  assumes "array_ok s v"
    and "\<And>q j a. (q, j) \<in> allocs (vheap s) \<Longrightarrow> q = vpages v \<Longrightarrow> a \<in> {q..<q + j} \<Longrightarrow> cells s' a = cells s a"
  shows "vma_pages_of s' v = vma_pages_of s v"
proof -
  obtain k where k: "(vpages v, k) \<in> allocs (vheap s)" "8 * vma_npages v \<le> k"
    using assms(1) by (auto simp: array_ok_def)
  have "cells s' (vpages v + 8 * i) = cells s (vpages v + 8 * i)" if "i < vma_npages v" for i
    using that k(2) by (intro assms(2) [OF k(1)]) auto
  then show ?thesis by (simp add: vma_pages_of_def)
qed

lemma vm_map_same:
  assumes "\<And>v. v \<in> set vs \<Longrightarrow> vma_pages_of s' v = vma_pages_of s v"
  shows "vm_map s' vs = vm_map s vs"
  using assms by (induction vs) simp_all

lemma vma_inv_same_list:
  assumes "vma_inv s vs" and "heap_inv (vheap s')" and "allocs (vheap s') = allocs (vheap s)"
    and "foreign (vheap s') = foreign (vheap s)" and "cells s' = cells s"
  shows "vma_inv s' vs" and "vm_map s' vs = vm_map s vs" and "vm_frame s vs s' vs"
proof -
  show eq: "vm_map s' vs = vm_map s vs"
    by (rule vm_map_same) (simp add: vma_pages_of_def assms(5))
  show "vma_inv s' vs"
    using assms(1) unfolding vma_inv_def eq assms(4) by (auto simp: assms(2,3) array_ok_def)
  show "vm_frame s vs s' vs"
    by (auto simp: vm_frame_def assms(3,5))
qed

section \<open>Insertion\<close>

lemma vma_insert_index_split:
  assumes "\<forall>b \<in> set bs. vstart v < vstart b" and "as = [] \<or> vstart (last as) \<le> vstart v"
  shows "j \<le> length bs \<Longrightarrow> vma_insert_index (as @ bs) v (length as + j) = length as"
proof (induction j)
  case 0
  show ?case
  proof (cases as rule: rev_cases)
    case (snoc xs x)
    with assms(2) show ?thesis by (simp add: nth_append)
  qed simp
next
  case (Suc j)
  with assms(1) show ?case by (simp add: nth_append)
qed

lemma vma_insert_sorted_split:
  assumes "\<forall>b \<in> set bs. vstart v < vstart b" and "as = [] \<or> vstart (last as) \<le> vstart v"
  shows "vma_insert_sorted (as @ bs) v = as @ v # bs"
  using vma_insert_index_split [OF assms, of "length bs"] by (simp add: vma_insert_sorted_def)

lemma vma_insert_sorted_pos:
  assumes "sorted_wrt (\<lambda>a b. vend a \<le> vstart b) vs" and "\<forall>w \<in> set vs. vma_ok w"
  obtains as bs where "vs = as @ bs" "vma_insert_sorted vs v = as @ v # bs"
    "\<forall>b \<in> set bs. vstart v < vstart b" "\<forall>a \<in> set as. vstart a \<le> vstart v"
proof -
  define as where "as = takeWhile (\<lambda>w. vstart w \<le> vstart v) vs"
  define bs where "bs = dropWhile (\<lambda>w. vstart w \<le> vstart v) vs"
  have vs: "vs = as @ bs"
    by (simp add: as_def bs_def)
  have as: "\<forall>a \<in> set as. vstart a \<le> vstart v"
    by (auto simp: as_def dest: set_takeWhileD)
  have bs: "\<forall>b \<in> set bs. vstart v < vstart b"
  proof (cases bs)
    case (Cons b0 bs')
    have "vstart v < vstart b0"
      using Cons hd_dropWhile [of "\<lambda>w. vstart w \<le> vstart v" vs] by (auto simp: bs_def)
    moreover have "\<forall>b \<in> set bs'. vend b0 \<le> vstart b" "vstart b0 < vend b0"
      using assms unfolding vs Cons by (auto simp: sorted_wrt_append vma_ok_def)
    ultimately show ?thesis by (auto simp: Cons)
  qed simp
  have "as = [] \<or> vstart (last as) \<le> vstart v"
    using as by (cases as rule: rev_cases) auto
  with bs have "vma_insert_sorted vs v = as @ v # bs"
    unfolding vs by (rule vma_insert_sorted_split)
  with vs as bs show thesis by (intro that)
qed

lemma vma_find_split:
  assumes "vma_find vs va = Some v"
  obtains xs ys where "vs = xs @ v # ys" "\<forall>x \<in> set xs. \<not> (vstart x \<le> va \<and> va < vend x)"
    "vstart v \<le> va" "va < vend v"
proof -
  from assms obtain i where i: "i < length vs" "vs ! i = v" "vstart v \<le> va" "va < vend v"
    "\<forall>j < i. \<not> (vstart (vs ! j) \<le> va \<and> va < vend (vs ! j))"
    by (auto simp: vma_find_def find_Some_iff)
  have "vs = take i vs @ v # drop (Suc i) vs"
    using i(1,2) id_take_nth_drop by blast
  moreover have "\<forall>x \<in> set (take i vs). \<not> (vstart x \<le> va \<and> va < vend x)"
    using i(1,5) by (auto simp: in_set_conv_nth)
  ultimately show thesis
    using i(3,4) by (rule that)
qed

lemma vma_update_split:
  assumes "\<forall>x \<in> set xs. \<not> (vstart x \<le> va \<and> va < vend x)" and "vstart v \<le> va" and "va < vend v"
  shows "vma_update f va (xs @ v # ys) = xs @ f v # ys"
  using assms by (induction xs) auto

lemma vma_inv_replace:
  assumes inv: "vma_inv s (xs @ old @ ys)"
    and heap: "heap_inv (vheap s')" "foreign (vheap s') = foreign (vheap s)"
    and new: "\<forall>v \<in> set new. vma_ok v \<and> array_ok s' v" "sorted_wrt (\<lambda>a b. vend a \<le> vstart b) new"
      "\<forall>w \<in> set new. (\<exists>v \<in> set old. vstart v \<le> vstart w) \<and> (\<exists>v \<in> set old. vend w \<le> vend v)"
    and rest: "\<forall>v \<in> set (xs @ ys). array_ok s' v \<and> vma_pages_of s' v = vma_pages_of s v"
    and map: "vm_map s' new = vm_map s old"
    and ptrs: "distinct (map vpages new)" "vpages ` set new \<inter> vpages ` set (xs @ ys) = {}"
    and len: "length (xs @ new @ ys) \<le> 32"
  shows "vma_inv s' (xs @ new @ ys) \<and> vm_map s' (xs @ new @ ys) = vm_map s (xs @ old @ ys)"
proof -
  have "vm_map s' xs = vm_map s xs" "vm_map s' ys = vm_map s ys"
    using rest by (auto intro: vm_map_same)
  then have same: "vm_map s' (xs @ new @ ys) = vm_map s (xs @ old @ ys)"
    by (simp add: map)
  have srt: "sorted_wrt (\<lambda>a b. vend a \<le> vstart b) (xs @ old @ ys)" "distinct (map vpages (xs @ old @ ys))"
    using inv by (simp_all add: vma_inv_def)
  have before: "vend x \<le> vstart w" if x: "x \<in> set xs" and w: "w \<in> set new" for x w
  proof -
    obtain v where "v \<in> set old" "vstart v \<le> vstart w"
      using new(3) w by blast
    moreover from this(1) have "vend x \<le> vstart v"
      using srt(1) x by (simp add: sorted_wrt_append)
    ultimately show ?thesis by simp
  qed
  have after: "vend w \<le> vstart y" if x: "y \<in> set ys" and w: "w \<in> set new" for y w
  proof -
    obtain v where "v \<in> set old" "vend w \<le> vend v"
      using new(3) w by blast
    moreover from this(1) have "vend v \<le> vstart y"
      using srt(1) x by (simp add: sorted_wrt_append)
    ultimately show ?thesis by simp
  qed
  from before after have "sorted_wrt (\<lambda>a b. vend a \<le> vstart b) (xs @ new @ ys)"
    using srt(1) new(2) by (auto simp: sorted_wrt_append)
  moreover have "distinct (map vpages (xs @ new @ ys))"
    using srt(2) ptrs by auto
  moreover have "\<forall>v \<in> set (xs @ new @ ys). vma_ok v \<and> array_ok s' v"
    using inv new(1) rest by (auto simp: vma_inv_def)
  ultimately have "vma_inv s' (xs @ new @ ys)"
    using inv len heap unfolding vma_inv_def same by simp
  with same show ?thesis by simp
qed

section \<open>Splitting\<close>

definition no_straddle :: "nat \<Rightarrow> vma list \<Rightarrow> bool" where
  "no_straddle va vs \<longleftrightarrow> (\<forall>v \<in> set vs. \<not> (vstart v < va \<and> va < vend v))"

definition refines :: "vma list \<Rightarrow> vma list \<Rightarrow> bool" where
  "refines vs' vs \<longleftrightarrow> (\<forall>w \<in> set vs'. \<exists>v \<in> set vs. vstart v \<le> vstart w \<and> vend w \<le> vend v)"

lemma no_straddle_refines: "no_straddle va vs \<Longrightarrow> refines vs' vs \<Longrightarrow> no_straddle va vs'"
  by (fastforce simp: no_straddle_def refines_def)

lemma refines_refl [simp]: "refines vs vs"
  by (auto simp: refines_def)

lemma split_arith:
  assumes "vma_ok v" and "va mod 4096 = 0" and "vstart v < va" and "va < vend v"
  shows "vma_npages (v\<lparr>vend := va\<rparr>) = sub64 va (vstart v) div 4096"
    and "vma_npages (v\<lparr>vstart := va, vpages := q\<rparr>) = sub64 (vend v) va div 4096"
    and "vma_npages v = vma_npages (v\<lparr>vend := va\<rparr>) + vma_npages (v\<lparr>vstart := va, vpages := q\<rparr>)"
    and "va = vstart v + 4096 * vma_npages (v\<lparr>vend := va\<rparr>)"
    and "vma_ok (v\<lparr>vend := va\<rparr>)" and "vma_ok (v\<lparr>vstart := va, vpages := q\<rparr>)"
proof -
  show "vma_npages (v\<lparr>vend := va\<rparr>) = sub64 va (vstart v) div 4096"
    "vma_npages (v\<lparr>vstart := va, vpages := q\<rparr>) = sub64 (vend v) va div 4096"
    by (simp_all add: vma_npages_def)
  show ok: "vma_ok (v\<lparr>vend := va\<rparr>)" "vma_ok (v\<lparr>vstart := va, vpages := q\<rparr>)"
    using assms by (simp_all add: vma_ok_def)
  from vma_npages_end [OF ok(1)] show head: "va = vstart v + 4096 * vma_npages (v\<lparr>vend := va\<rparr>)"
    by simp
  show "vma_npages v = vma_npages (v\<lparr>vend := va\<rparr>) + vma_npages (v\<lparr>vstart := va, vpages := q\<rparr>)"
    using vma_npages_end [OF assms(1)] vma_npages_end [OF ok(2)] head by simp
qed

lemma split_pages:
  assumes "vma_npages v = vma_npages h + vma_npages t" and "vstart h = vstart v"
    and "vstart t = vstart v + 4096 * vma_npages h" and "vprot h = vprot v" "vprot t = vprot v"
    "vflags h = vflags v" "vflags t = vflags v"
    and "\<forall>i < vma_npages h. cells s' (vpages h + 8 * i) = cells s (vpages v + 8 * i)"
    and "\<forall>i < vma_npages t. cells s' (vpages t + 8 * i) = cells s (vpages v + 8 * (vma_npages h + i))"
  shows "vma_pages_of s' h @ vma_pages_of s' t = vma_pages_of s v"
proof (rule nth_equalityI)
  fix i assume "i < length (vma_pages_of s' h @ vma_pages_of s' t)"
  then have i: "i < vma_npages h + vma_npages t"
    by (simp add: vma_pages_of_def)
  show "(vma_pages_of s' h @ vma_pages_of s' t) ! i = vma_pages_of s v ! i"
  proof (cases "i < vma_npages h")
    case True
    with assms i show ?thesis by (simp add: vma_pages_of_def nth_append)
  next
    case False
    then obtain j where "i = vma_npages h + j" "j < vma_npages t"
      using i by (metis add_less_cancel_left le_iff_add not_less)
    with assms show ?thesis by (simp add: vma_pages_of_def nth_append algebra_simps)
  qed
qed (simp add: vma_pages_of_def assms(1))

lemma vma_split_at_grow:
  assumes inv: "vma_inv s (xs @ v # ys)" and va: "va mod 4096 = 0" "vstart v < va" "va < vend v"
    and len: "length (xs @ v # ys) < 32"
    and s1: "heap_inv (vheap s1)" "cells s1 = cells s" "\<forall>j. (arr, j) \<notin> allocs (vheap s)"
      "allocs (vheap s1) = insert (arr, k) (allocs (vheap s))" "foreign (vheap s1) = foreign (vheap s)"
      "8 * (sub64 (vend v) va div 4096) \<le> k"
  defines "t \<equiv> v\<lparr>vstart := va, vpages := arr\<rparr>" and "h \<equiv> v\<lparr>vend := va\<rparr>"
  defines "s2 \<equiv> vm_write arr (vm_read s1 (vpages v + 8 * (sub64 va (vstart v) div 4096))
    (sub64 (vend v) va div 4096)) s1"
  shows "vma_inv s2 (xs @ h # t # ys)" and "vm_map s2 (xs @ h # t # ys) = vm_map s (xs @ v # ys)"
    and "vm_frame s (xs @ v # ys) s2 (xs @ h # t # ys)"
proof -
  have ok: "vma_ok v" "\<forall>w \<in> set (xs @ v # ys). array_ok s w" "distinct (map vpages (xs @ v # ys))"
    using inv by (auto simp: vma_inv_def)
  note hd_ar = split_arith(1,4,5) [OF ok(1) va, folded h_def]
  note tl_ar = split_arith(2,3,6) [OF ok(1) va, where q = arr, folded t_def h_def]
  have keep: "cells s2 a = cells s a" if "(q, j) \<in> allocs (vheap s)" "a \<in> {q..<q + j}" for q j a
    unfolding s2_def using s1 that by (intro fresh_write [of s1 arr k s _ q j]) simp_all
  have alive: "allocs (vheap s) \<subseteq> allocs (vheap s2)" "(arr, k) \<in> allocs (vheap s2)"
    by (auto simp: s2_def s1(4))
  have pages: "vma_pages_of s2 w = vma_pages_of s w" if "w \<in> set (xs @ v # ys)" for w
    using ok(2) that keep by (intro vma_pages_of_same) auto
  have fresh: "arr \<notin> vpages ` set (xs @ v # ys)"
    using ok(2) s1(3) by (auto simp: array_ok_def)
  have np: "vma_npages h = sub64 va (vstart v) div 4096" "vma_npages t = sub64 (vend v) va div 4096"
    using hd_ar(1) tl_ar(1) .
  have body: "cells s2 (vpages v + 8 * i) = cells s (vpages v + 8 * i)" if "i < vma_npages v" for i
    using pages [of v] that by (auto simp: vma_pages_of_def)
  have fields: "vpages h = vpages v" "vpages t = arr" "vstart h = vstart v" "vstart t = va" "vend h = va" "vend t = vend v"
    by (simp_all add: h_def t_def)
  have map: "vma_pages_of s2 h @ vma_pages_of s2 t = vma_pages_of s v"
  proof (rule split_pages [OF tl_ar(2)])
    show "vstart t = vstart v + 4096 * vma_npages h"
      using hd_ar(2) fields by simp
    show "\<forall>i < vma_npages h. cells s2 (vpages h + 8 * i) = cells s (vpages v + 8 * i)"
      using body tl_ar(2) fields(1) by simp
    show "\<forall>i < vma_npages t. cells s2 (vpages t + 8 * i) = cells s (vpages v + 8 * (vma_npages h + i))"
      unfolding np fields s2_def by (simp add: s1(2) add_mult_distrib2 add.assoc)
  qed (simp_all add: h_def t_def)
  obtain j where j: "(vpages v, j) \<in> allocs (vheap s)" "8 * vma_npages v \<le> j"
    using ok(2) by (auto simp: array_ok_def)
  have arr: "array_ok s2 h"
    unfolding array_ok_def fields using j alive tl_ar(2) by (intro exI [of _ j]) auto
  have tail_arr: "array_ok s2 t"
    unfolding array_ok_def fields using alive s1(6) np(2) by (intro exI [of _ k]) auto
  have "vma_inv s2 (xs @ [h, t] @ ys) \<and> vm_map s2 (xs @ [h, t] @ ys) = vm_map s (xs @ [v] @ ys)"
  proof (rule vma_inv_replace)
    show "vma_inv s (xs @ [v] @ ys)" using inv by simp
    show "heap_inv (vheap s2)" "foreign (vheap s2) = foreign (vheap s)"
      by (simp_all add: s2_def s1)
    show "\<forall>w \<in> set [h, t]. vma_ok w \<and> array_ok s2 w"
      using hd_ar(3) tl_ar(3) arr tail_arr by simp
    show "\<forall>w \<in> set (xs @ ys). array_ok s2 w \<and> vma_pages_of s2 w = vma_pages_of s w"
      using ok(2) pages alive(1) by (auto intro: array_ok_mono)
  qed (use map fresh ok(3) len va in \<open>auto simp: fields\<close>)
  then show "vma_inv s2 (xs @ h # t # ys)" "vm_map s2 (xs @ h # t # ys) = vm_map s (xs @ v # ys)"
    by simp_all
  show "vm_frame s (xs @ v # ys) s2 (xs @ h # t # ys)"
    using alive keep s1(3) by (auto simp: vm_frame_def h_def t_def)
qed

text \<open>Two states whose lists mean the same address space, with everything else left alone.\<close>

definition vm_same :: "vm \<Rightarrow> vma list \<Rightarrow> vm \<Rightarrow> vma list \<Rightarrow> bool" where
  "vm_same s vs s' vs' \<longleftrightarrow>
     vma_inv s' vs' \<and> vm_map s' vs' = vm_map s vs \<and> foreign (vheap s') = foreign (vheap s) \<and>
     vm_frame s vs s' vs'"

lemma vm_same_refl: "vma_inv s vs \<Longrightarrow> vm_same s vs s vs"
  by (simp add: vm_same_def)

lemma vm_same_trans: "vm_same s vs s1 vs1 \<Longrightarrow> vm_same s1 vs1 s2 vs2 \<Longrightarrow> vm_same s vs s2 vs2"
  unfolding vm_same_def by (metis vm_frame_trans)

lemma size_no_wrap: "n < 2 ^ 60 \<Longrightarrow> u64 (n * 8) = n * 8"
  by (simp add: u64_id)

lemma vma_split_at_law:
  assumes inv: "vma_inv s vs"
  obtains s' vs' ok where "vma_split_at s vs va = Some (s', vs', ok)" "vm_same s vs s' vs'"
    "\<not> ok \<longrightarrow> vs' = vs" "ok \<longrightarrow> no_straddle va vs'" "refines vs' vs"
proof (cases "va mod 4096 = 0")
  case False
  then show thesis
    using inv by (intro that [of s vs False]) (simp_all add: vma_split_at_def vm_same_refl)
next
  case aligned: True
  show thesis
  proof (cases "vma_find vs va")
    case None
    then have "no_straddle va vs"
      by (auto simp: vma_find_def find_None_iff no_straddle_def)
    with None aligned inv show thesis
      by (intro that [of s vs True]) (simp_all add: vma_split_at_def vm_same_refl)
  next
    case (Some v)
    then obtain xs ys where vs: "vs = xs @ v # ys" and xs: "\<forall>x \<in> set xs. \<not> (vstart x \<le> va \<and> va < vend x)"
      and v: "vstart v \<le> va" "va < vend v"
      by (rule vma_find_split)
    have ys: "\<forall>y \<in> set ys. vend v \<le> vstart y" and ok: "vma_ok v"
      using inv by (auto simp: vma_inv_def vs sorted_wrt_append)
    consider (edge) "vstart v = va" | (full) "vstart v \<noteq> va" "32 \<le> length vs" | (cut) "vstart v < va" "length vs < 32"
      using v by linarith
    then show thesis
    proof cases
      case edge
      then have "no_straddle va vs"
        using xs ys v by (auto simp: vs no_straddle_def)
      with edge Some aligned inv show thesis
        by (intro that [of s vs True]) (simp_all add: vma_split_at_def vm_same_refl)
    next
      case full
      with Some aligned inv v show thesis
        by (intro that [of s vs False]) (simp_all add: vma_split_at_def vm_same_refl)
    next
      case cut
      let ?tp = "sub64 (vend v) va div 4096"
      have "sub64 (vend v) va \<le> vend v" "vend v < 2 ^ 64"
        using v(2) ok by (simp_all add: vma_ok_def sub64_id)
      then have size: "u64 (?tp * 8) = ?tp * 8"
        by (intro size_no_wrap) auto
      have run: "vma_split_at s vs va = do {
          (s1, arr) \<leftarrow> vm_kmalloc s (u64 (?tp * 8));
          if arr = 0 then Some (s1, vs, False)
          else Some (vm_write arr (vm_read s1 (vpages v + 8 * (sub64 va (vstart v) div 4096)) ?tp) s1,
            vma_insert_sorted (vma_update (\<lambda>v. v\<lparr>vend := va\<rparr>) va vs) (v\<lparr>vstart := va, vpages := arr\<rparr>), True) }"
        unfolding vma_split_at_def Let_def using cut Some aligned v by simp
      have "heap_inv (vheap s)"
        using inv by (simp add: vma_inv_def)
      then show thesis
      proof (rule vm_kmalloc_cases [where n = "?tp * 8"])
        fix s1 assume s1: "vm_kmalloc s (?tp * 8) = Some (s1, 0)" "heap_inv (vheap s1)" "cells s1 = cells s"
          "allocs (vheap s1) = allocs (vheap s)" "foreign (vheap s1) = foreign (vheap s)"
        then have "vm_same s vs s1 vs"
          using vma_inv_same_list [OF inv] by (simp add: vm_same_def)
        with s1(1) show thesis
          by (intro that [of s1 vs False]) (simp_all add: run size)
      next
        fix s1 arr k assume s1: "vm_kmalloc s (?tp * 8) = Some (s1, arr)" "heap_inv (vheap s1)" "cells s1 = cells s"
          "arr \<noteq> 0" "?tp * 8 \<le> k" "\<forall>j. (arr, j) \<notin> allocs (vheap s)"
          "allocs (vheap s1) = insert (arr, k) (allocs (vheap s))" "foreign (vheap s1) = foreign (vheap s)"
        define h where "h = v\<lparr>vend := va\<rparr>"
        define t where "t = v\<lparr>vstart := va, vpages := arr\<rparr>"
        define s2 where "s2 = vm_write arr (vm_read s1 (vpages v + 8 * (sub64 va (vstart v) div 4096)) ?tp) s1"
        have len: "length (xs @ v # ys) < 32" "8 * ?tp \<le> k"
          using cut(2) s1(5) by (simp_all add: vs)
        note grow = vma_split_at_grow [OF inv [unfolded vs] aligned cut(1) v(2) len(1) s1(2,3,6,7,8) len(2),
            folded h_def t_def s2_def]
        have "vma_insert_sorted ((xs @ [h]) @ ys) t = (xs @ [h]) @ t # ys"
          using cut(1) ys v(2) by (intro vma_insert_sorted_split) (auto simp: h_def t_def)
        moreover have "vma_update (\<lambda>v. v\<lparr>vend := va\<rparr>) va vs = xs @ h # ys"
          unfolding vs h_def using xs v by (rule vma_update_split)
        ultimately have res: "vma_split_at s vs va = Some (s2, xs @ h # t # ys, True)"
          using s1(1,4) by (simp add: run size s2_def t_def)
        have "vm_same s vs s2 (xs @ h # t # ys)"
          using grow s1(8) by (simp add: vm_same_def vs s2_def)
        moreover have "no_straddle va (xs @ h # t # ys)"
          using xs ys v by (auto simp: no_straddle_def h_def t_def)
        moreover have "refines (xs @ h # t # ys) vs"
          using v cut(1) by (auto simp: refines_def vs h_def t_def)
        ultimately show thesis
          using res by (intro that [of s2 "xs @ h # t # ys" True]) simp_all
      qed
    qed
  qed
qed

section \<open>Merging\<close>

lemma vm_kfree_cases:
  assumes "heap_inv (vheap s)" and "(p, k) \<in> allocs (vheap s)"
  obtains s' where "vm_kfree s p = Some s'" "heap_inv (vheap s')" "cells s' = cells s"
    "allocs (vheap s') = allocs (vheap s) - {(p, k)}" "foreign (vheap s') = foreign (vheap s)"
  using assms
proof (rule kmem.mfree_cases)
  fix h' assume "kfree (vheap s) p = Some h'" "heap_inv h'" "allocs h' = allocs (vheap s) - {(p, k)}"
    "foreign h' = foreign (vheap s)"
  then show thesis by (intro that [of "s\<lparr>vheap := h'\<rparr>"]) (simp_all add: vm_kfree_def)
qed

lemma array_ok_diff:
  assumes "array_ok s v" and "allocs (vheap s) - D \<subseteq> allocs (vheap s')" and "\<forall>k. (vpages v, k) \<notin> D"
  shows "array_ok s' v"
  using assms by (auto simp: array_ok_def)

lemma merge_contents:
  assumes "cells s1 = cells s"
    and pa: "{m..<m + 8 * (na + nb)} \<inter> {pa..<pa + 8 * na} = {}"
    and pb: "{m..<m + 8 * (na + nb)} \<inter> {pb..<pb + 8 * nb} = {}"
  defines "s2 \<equiv> vm_write m (vm_read s1 pa na) s1"
  defines "s3 \<equiv> vm_write (m + 8 * na) (vm_read s2 pb nb) s2"
  shows "i < na \<Longrightarrow> cells s3 (m + 8 * i) = cells s (pa + 8 * i)"
    and "i < nb \<Longrightarrow> cells s3 (m + 8 * (na + i)) = cells s (pb + 8 * i)"
    and "a \<notin> {m..<m + 8 * (na + nb)} \<Longrightarrow> cells s3 a = cells s a"
proof -
  have s2_out: "cells s2 a = cells s a" if "a \<notin> {m..<m + 8 * na}" for a
    unfolding s2_def using that by (simp add: vm_write_outside assms(1))
  show "cells s3 a = cells s a" if "a \<notin> {m..<m + 8 * (na + nb)}"
  proof -
    have "a \<notin> {m + 8 * na..<m + 8 * na + 8 * nb}" "a \<notin> {m..<m + 8 * na}"
      using that by auto
    then show ?thesis
      unfolding s3_def using s2_out by (simp add: vm_write_outside)
  qed
  show "cells s3 (m + 8 * i) = cells s (pa + 8 * i)" if "i < na"
  proof -
    have "m + 8 * i \<notin> {m + 8 * na..<m + 8 * na + 8 * nb}"
      using that by auto
    then have "cells s3 (m + 8 * i) = cells s2 (m + 8 * i)"
      unfolding s3_def by (simp add: vm_write_outside)
    also have "\<dots> = cells s (pa + 8 * i)"
      unfolding s2_def using that by (simp add: assms(1))
    finally show ?thesis .
  qed
  show "cells s3 (m + 8 * (na + i)) = cells s (pb + 8 * i)" if "i < nb"
  proof -
    have "pb + 8 * i \<in> {pb..<pb + 8 * nb}"
      using that by auto
    then have "pb + 8 * i \<notin> {m..<m + 8 * na}"
      using pb by fastforce
    moreover have "cells s3 (m + 8 * na + 8 * i) = cells s2 (pb + 8 * i)"
      unfolding s3_def using that by simp
    ultimately show ?thesis
      using s2_out by (simp add: add_mult_distrib2 add.assoc)
  qed
qed

lemma merge_step:
  assumes inv: "vma_inv s (xs @ a # b # ys)"
    and adj: "vend a = vstart b" "vprot a = vprot b" "vflags a = vflags b"
    and s1: "heap_inv (vheap s1)" "cells s1 = cells s" "\<forall>j. (m, j) \<notin> allocs (vheap s)"
      "allocs (vheap s1) = insert (m, k) (allocs (vheap s))" "foreign (vheap s1) = foreign (vheap s)"
      "8 * (vma_npages a + vma_npages b) \<le> k"
  defines "s2 \<equiv> vm_write m (vm_read s1 (vpages a) (vma_npages a)) s1"
  defines "s3 \<equiv> vm_write (m + 8 * vma_npages a) (vm_read s2 (vpages b) (vma_npages b)) s2"
  defines "c \<equiv> a\<lparr>vend := vend b, vpages := m\<rparr>"
  obtains s4 s5 where "vm_kfree s3 (vpages a) = Some s4" "vm_kfree s4 (vpages b) = Some s5"
    "vm_same s (xs @ a # b # ys) s5 (xs @ c # ys)"
proof -
  have ok: "vma_ok a" "vma_ok b" "\<forall>w \<in> set (xs @ a # b # ys). array_ok s w" "distinct (map vpages (xs @ a # b # ys))"
    using inv by (auto simp: vma_inv_def)
  obtain ka where ka: "(vpages a, ka) \<in> allocs (vheap s)" "8 * vma_npages a \<le> ka"
    using ok(3) by (auto simp: array_ok_def)
  obtain kb where kb: "(vpages b, kb) \<in> allocs (vheap s)" "8 * vma_npages b \<le> kb"
    using ok(3) by (auto simp: array_ok_def)
  have disj: "{m..<m + 8 * (vma_npages a + vma_npages b)} \<inter> {q..<q + j} = {}" if "(q, j) \<in> allocs (vheap s)" for q j
    using fresh_disjoint [OF s1(1,4,3) that] s1(6) by auto
  have da: "{m..<m + 8 * (vma_npages a + vma_npages b)} \<inter> {vpages a..<vpages a + 8 * vma_npages a} = {}"
    using disj [OF ka(1)] ka(2) by auto
  have db: "{m..<m + 8 * (vma_npages a + vma_npages b)} \<inter> {vpages b..<vpages b + 8 * vma_npages b} = {}"
    using disj [OF kb(1)] kb(2) by auto
  note cont = merge_contents [OF s1(2) da db, folded s2_def, folded s3_def]
  have s3: "heap_inv (vheap s3)" "allocs (vheap s3) = insert (m, k) (allocs (vheap s))"
    "foreign (vheap s3) = foreign (vheap s)"
    by (simp_all add: s3_def s2_def s1)
  have ne: "vpages a \<noteq> vpages b" "vpages a \<noteq> m" "vpages b \<noteq> m"
    using ok(4) ka(1) kb(1) s1(3) by auto
  obtain s4 where s4: "vm_kfree s3 (vpages a) = Some s4" "heap_inv (vheap s4)" "cells s4 = cells s3"
    "allocs (vheap s4) = allocs (vheap s3) - {(vpages a, ka)}" "foreign (vheap s4) = foreign (vheap s3)"
    using s3(1) ka(1) by (auto intro: vm_kfree_cases [of s3 "vpages a" ka] simp: s3(2))
  obtain s5 where s5: "vm_kfree s4 (vpages b) = Some s5" "heap_inv (vheap s5)" "cells s5 = cells s4"
    "allocs (vheap s5) = allocs (vheap s4) - {(vpages b, kb)}" "foreign (vheap s5) = foreign (vheap s4)"
    using s4(2) kb(1) ne by (auto intro: vm_kfree_cases [of s4 "vpages b" kb] simp: s3(2) s4(4))
  have live5: "allocs (vheap s5) = insert (m, k) (allocs (vheap s)) - {(vpages a, ka), (vpages b, kb)}"
    by (auto simp: s5(4) s4(4) s3(2))
  have keep: "cells s5 x = cells s x" if "(q, j) \<in> allocs (vheap s)" "x \<in> {q..<q + j}" for q j x
    using disj [OF that(1)] that(2) cont(3) [of x] by (auto simp: s5(3) s4(3))
  have ends: "vstart a + 4096 * vma_npages a = vend a" "vstart b + 4096 * vma_npages b = vend b"
    using ok(1,2) by (auto intro: vma_npages_end)
  have c: "vma_ok c" "vpages c = m" "vstart c = vstart a" "vend c = vend b" "vprot c = vprot a" "vflags c = vflags a"
    using ok(1,2) adj by (simp_all add: c_def vma_ok_def)
  have nc: "vma_npages c = vma_npages a + vma_npages b"
    using vma_npages_end [OF c(1)] ends adj(1) c by simp
  have "vma_pages_of s a @ vma_pages_of s b = vma_pages_of s5 c"
  proof (rule split_pages [OF nc])
    show "\<forall>i < vma_npages a. cells s (vpages a + 8 * i) = cells s5 (vpages c + 8 * i)"
      using cont(1) by (simp add: c(2) s5(3) s4(3))
    show "\<forall>i < vma_npages b. cells s (vpages b + 8 * i) = cells s5 (vpages c + 8 * (vma_npages a + i))"
      using cont(2) by (simp add: c(2) s5(3) s4(3))
  qed (use c adj ends in simp_all)
  then have map: "vm_map s5 [c] = vm_map s [a, b]"
    by simp
  have rest: "array_ok s5 w \<and> vma_pages_of s5 w = vma_pages_of s w" if "w \<in> set (xs @ ys)" for w
  proof
    have w: "vpages w \<noteq> vpages a" "vpages w \<noteq> vpages b" "array_ok s w"
      using that ok(3,4) by (auto simp: image_iff)
    from w(3) show "array_ok s5 w"
      by (rule array_ok_diff [where D = "{(vpages a, ka), (vpages b, kb)}"]) (use w in \<open>auto simp: live5\<close>)
    show "vma_pages_of s5 w = vma_pages_of s w"
      using w(3) keep by (rule vma_pages_of_same) simp_all
  qed
  have arr: "array_ok s5 c"
    using s1(6) ne by (auto simp: array_ok_def live5 c(2) nc)
  have fresh: "m \<notin> vpages ` set (xs @ ys)"
    using ok(3) s1(3) by (auto simp: array_ok_def)
  have "vma_inv s5 (xs @ [c] @ ys) \<and> vm_map s5 (xs @ [c] @ ys) = vm_map s (xs @ [a, b] @ ys)"
  proof (rule vma_inv_replace [OF _ s5(2)])
    show "vma_inv s (xs @ [a, b] @ ys)" using inv by simp
    show "foreign (vheap s5) = foreign (vheap s)"
      by (simp add: s5(5) s4(5) s3(3))
    show "\<forall>w \<in> set (xs @ ys). array_ok s5 w \<and> vma_pages_of s5 w = vma_pages_of s w"
      using rest by blast
    show "length (xs @ [c] @ ys) \<le> 32"
      using inv by (simp add: vma_inv_def)
  qed (use map arr c fresh in auto)
  moreover have "vm_frame s (xs @ a # b # ys) s5 (xs @ c # ys)"
    using keep s1(3) by (auto simp: vm_frame_def live5 c(2))
  ultimately show thesis
    using s4(1) s5(1) s5(5) s4(5) s3(3) by (intro that [of s4 s5]) (simp_all add: vm_same_def)
qed

lemma nth_pair_split:
  assumes "i + 1 < length vs"
  shows "vs = take i vs @ vs ! i # vs ! (i + 1) # drop (i + 2) vs"
  using assms by (metis Cons_nth_drop_Suc Suc_eq_plus1 add_2_eq_Suc' add_lessD1 append_take_drop_id)

lemma vma_merge_loop_law:
  "vma_inv s vs \<Longrightarrow> \<exists>s' vs' n. vma_merge_loop s vs i merges = Some (s', vs', n) \<and>
     vm_same s vs s' vs' \<and> length vs' \<le> length vs"
proof (induction "length vs - i" arbitrary: s vs i merges rule: less_induct)
  case less
  show ?case
  proof (cases "i + 1 < length vs")
    case False
    with less.prems show ?thesis
      by (simp add: vma_merge_loop.simps [of s vs i] vm_same_refl)
  next
    case True
    let ?a = "vs ! i" and ?b = "vs ! (i + 1)"
    note vs = nth_pair_split [OF True]
    show ?thesis
    proof (cases "vend ?a \<noteq> vstart ?b \<or> vprot ?a \<noteq> vprot ?b \<or> vflags ?a \<noteq> vflags ?b")
      case skip: True
      have "vma_merge_loop s vs i merges = vma_merge_loop s vs (i + 1) merges"
        using True skip by (subst vma_merge_loop.simps) (simp add: Let_def)
      then show ?thesis
        using less.hyps [of vs "i + 1" s merges] less.prems True by simp
    next
      case adj: False
      let ?n = "vma_npages ?a + vma_npages ?b"
      have ok: "vma_ok ?a" "vma_ok ?b" "heap_inv (vheap s)"
        using less.prems True by (auto simp: vma_inv_def)
      have size: "u64 (?n * 8) = ?n * 8"
        using vma_npages_bound [OF ok(1)] vma_npages_bound [OF ok(2)] by (intro size_no_wrap) simp
      define rest where "rest s1 merged = (let s2 = vm_write merged (vm_read s1 (vpages ?a) (vma_npages ?a)) s1;
          s3 = vm_write (merged + 8 * vma_npages ?a) (vm_read s2 (vpages ?b) (vma_npages ?b)) s2
        in do { s4 \<leftarrow> vm_kfree s3 (vpages ?a); s5 \<leftarrow> vm_kfree s4 (vpages ?b);
          vma_merge_loop s5 (take i vs @ ?a\<lparr>vend := vend ?b, vpages := merged\<rparr> # drop (i + 2) vs) i (merges + 1) })"
        for s1 merged
      have run: "vma_merge_loop s vs i merges = do { (s1, merged) \<leftarrow> vm_kmalloc s (?n * 8);
          if merged = 0 then vma_merge_loop s1 vs (i + 1) merges else rest s1 merged }"
        unfolding vma_merge_loop.simps [of s vs i merges] Let_def size rest_def using True adj by simp
      from ok(3) show ?thesis
      proof (rule vm_kmalloc_cases [where n = "?n * 8"])
        fix s1 assume s1: "vm_kmalloc s (?n * 8) = Some (s1, 0)" "heap_inv (vheap s1)" "cells s1 = cells s"
          "allocs (vheap s1) = allocs (vheap s)" "foreign (vheap s1) = foreign (vheap s)"
        then have same: "vm_same s vs s1 vs"
          using vma_inv_same_list [OF less.prems] by (simp add: vm_same_def)
        then have "vma_inv s1 vs" by (simp add: vm_same_def)
        from less.hyps [OF _ this, of "i + 1" merges] True obtain s' vs' n where
          "vma_merge_loop s1 vs (i + 1) merges = Some (s', vs', n)" "vm_same s1 vs s' vs'" "length vs' \<le> length vs"
          by fastforce
        with s1(1) same show ?thesis
          by (auto simp: run intro: vm_same_trans)
      next
        fix s1 m k assume s1: "vm_kmalloc s (?n * 8) = Some (s1, m)" "heap_inv (vheap s1)" "cells s1 = cells s"
          "m \<noteq> 0" "?n * 8 \<le> k" "\<forall>j. (m, j) \<notin> allocs (vheap s)"
          "allocs (vheap s1) = insert (m, k) (allocs (vheap s))" "foreign (vheap s1) = foreign (vheap s)"
        let ?c = "?a\<lparr>vend := vend ?b, vpages := m\<rparr>"
        let ?vs = "take i vs @ ?c # drop (i + 2) vs"
        have "vma_inv s (take i vs @ ?a # ?b # drop (i + 2) vs)" "8 * ?n \<le> k"
          "vend ?a = vstart ?b" "vprot ?a = vprot ?b" "vflags ?a = vflags ?b"
          using less.prems vs s1(5) adj by simp_all
        then obtain s4 s5 where step:
          "vm_kfree (vm_write (m + 8 * vma_npages ?a) (vm_read (vm_write m (vm_read s1 (vpages ?a) (vma_npages ?a)) s1)
             (vpages ?b) (vma_npages ?b)) (vm_write m (vm_read s1 (vpages ?a) (vma_npages ?a)) s1)) (vpages ?a) = Some s4"
          "vm_kfree s4 (vpages ?b) = Some s5" "vm_same s vs s5 ?vs"
          using merge_step [of s "take i vs" ?a ?b "drop (i + 2) vs" s1 m k] s1 vs by metis
        have len: "length ?vs = length vs - 1"
          using True by simp
        have "vma_inv s5 ?vs"
          using step(3) by (simp add: vm_same_def)
        moreover have "length ?vs - i < length vs - i"
          using True len by linarith
        ultimately obtain s' vs' n where
          "vma_merge_loop s5 ?vs i (merges + 1) = Some (s', vs', n)" "vm_same s5 ?vs s' vs'" "length vs' \<le> length ?vs"
          using less.hyps [of ?vs i s5 "merges + 1"] by blast
        moreover have "vma_merge_loop s vs i merges = vma_merge_loop s5 ?vs i (merges + 1)"
          using s1(1,4) step(1,2) by (simp add: run rest_def Let_def)
        ultimately show ?thesis
          using step(3) len by (auto intro: vm_same_trans)
      qed
    qed
  qed
qed

lemma vma_merge_adjacent_law:
  assumes "vma_inv s vs"
  obtains s' vs' n where "vma_merge_adjacent s vs = Some (s', vs', n)" "vm_same s vs s' vs'" "length vs' \<le> length vs"
  using vma_merge_loop_law [OF assms, of 0 0] unfolding vma_merge_adjacent_def by blast

section \<open>Unmapping\<close>

lemma backing_pages_of: "backing (vma_pages_of s v) = filter (\<lambda>x. x \<noteq> 0) (vm_read s (vpages v) (vma_npages v))"
  by (simp add: backing_def vma_pages_of_def vm_read_def comp_def)

lemma vma_free_resident_eq:
  "vma_free_resident s p n r =
     (s\<lparr>vheap := fold heap_release (filter (\<lambda>x. x \<noteq> 0) (vm_read s p n)) (vheap s)\<rparr>,
      r + length (filter (\<lambda>x. x \<noteq> 0) (vm_read s p n)))"
proof (induction n)
  case 0
  then show ?case by (simp add: vma_free_resident_def vm_read_def)
next
  case (Suc n)
  then show ?case
    by (simp add: vma_free_resident_def vm_read_def vm_free_page_def)
qed

lemma unmap_one:
  assumes inv: "vma_inv s (xs @ v # ys)"
  obtains s1 s2 where "vma_free_resident s (vpages v) (vma_npages v) r = (s1, r + length (backing (vma_pages_of s v)))"
    "vm_kfree s1 (vpages v) = Some s2" "vma_inv s2 (xs @ ys)" "vm_map s2 (xs @ ys) = vm_map s (xs @ ys)"
    "cells s2 = cells s" "foreign (vheap s2) = foreign (vheap s) - set (backing (vma_pages_of s v))"
    "vm_frame s (xs @ v # ys) s2 (xs @ ys)"
proof -
  let ?pgs = "backing (vma_pages_of s v)"
  define s1 where "s1 = s\<lparr>vheap := fold heap_release ?pgs (vheap s)\<rparr>"
  have res: "vma_free_resident s (vpages v) (vma_npages v) r = (s1, r + length ?pgs)"
    by (simp add: vma_free_resident_eq backing_pages_of s1_def)
  have facts: "heap_inv (vheap s)" "distinct (map vpages (xs @ v # ys))" "\<forall>w \<in> set (xs @ v # ys). array_ok s w"
    "distinct ?pgs" "set ?pgs \<subseteq> foreign (vheap s)"
    "set (backing (vm_map s (xs @ ys))) \<subseteq> foreign (vheap s) - set ?pgs"
    using inv by (auto simp: vma_inv_def)
  have s1: "heap_inv (vheap s1)" "foreign (vheap s1) = foreign (vheap s) - set ?pgs" "allocs (vheap s1) = allocs (vheap s)"
    "cells s1 = cells s"
    using kmem.release_all [OF facts(1,4,5)] by (simp_all add: s1_def)
  obtain k where k: "(vpages v, k) \<in> allocs (vheap s)"
    using facts(3) by (auto simp: array_ok_def)
  then obtain s2 where s2: "vm_kfree s1 (vpages v) = Some s2" "heap_inv (vheap s2)" "cells s2 = cells s1"
    "allocs (vheap s2) = allocs (vheap s1) - {(vpages v, k)}" "foreign (vheap s2) = foreign (vheap s1)"
    using s1(1,3) by (auto intro: vm_kfree_cases [of s1 "vpages v" k])
  have same: "vm_map s2 (xs @ ys) = vm_map s (xs @ ys)"
    by (rule vm_map_same) (simp add: vma_pages_of_def s2(3) s1(4))
  have "array_ok s2 w" if "w \<in> set (xs @ ys)" for w
  proof -
    have "array_ok s w" "vpages w \<noteq> vpages v"
      using that facts(2,3) by (auto simp: image_iff)
    then show ?thesis
      by (intro array_ok_diff [of s w "{(vpages v, k)}" s2]) (simp_all add: s2(4) s1(3))
  qed
  then have "vma_inv s2 (xs @ ys)"
    using inv facts(6) s2(2,5) s1(2) unfolding vma_inv_def same
    by (auto simp: sorted_wrt_append)
  moreover have "vm_frame s (xs @ v # ys) s2 (xs @ ys)"
    by (auto simp: vm_frame_def s2(3,4) s1(3,4))
  ultimately show thesis
    using res s2 s1 same by (intro that [of s1 s2]) simp_all
qed

definition in_range :: "nat \<Rightarrow> nat \<Rightarrow> vma \<Rightarrow> bool" where
  "in_range start fin v \<longleftrightarrow> start \<le> vstart v \<and> vend v \<le> fin"

lemma vma_unmap_loop_law:
  "vma_inv s vs \<Longrightarrow> \<forall>v \<in> set (take i vs). \<not> in_range start fin v \<Longrightarrow>
   \<exists>s'. let gone = filter (in_range start fin) vs; kept = filter (\<lambda>v. \<not> in_range start fin v) vs in
     vma_unmap_loop s vs start fin i r = Some (s', kept, r + length (backing (vm_map s gone))) \<and>
     vma_inv s' kept \<and> vm_map s' kept = vm_map s kept \<and>
     foreign (vheap s') = foreign (vheap s) - set (backing (vm_map s gone)) \<and> vm_frame s vs s' kept"
proof (induction "length vs - i" arbitrary: s vs i r rule: less_induct)
  case less
  show ?case
  proof (cases "i < length vs")
    case False
    then have "filter (in_range start fin) vs = []" "filter (\<lambda>v. \<not> in_range start fin v) vs = vs"
      using less.prems(2) by (simp_all add: filter_empty_conv filter_id_conv)
    with less.prems(1) False show ?thesis
      by (simp add: vma_unmap_loop.simps [of s vs start fin i r] backing_def)
  next
    case True
    let ?v = "vs ! i" and ?xs = "take i vs" and ?ys = "drop (i + 1) vs"
    have vs: "vs = ?xs @ ?v # ?ys"
      using True id_take_nth_drop [of i vs] by simp
    show ?thesis
    proof (cases "in_range start fin ?v")
      case False
      have "vma_unmap_loop s vs start fin i r = vma_unmap_loop s vs start fin (i + 1) r"
        using True False by (subst vma_unmap_loop.simps) (auto simp: Let_def in_range_def)
      moreover have "\<forall>v \<in> set (take (i + 1) vs). \<not> in_range start fin v"
        using less.prems(2) False True by (auto simp: take_Suc_conv_app_nth)
      ultimately show ?thesis
        using less.hyps [of vs "i + 1" s r] less.prems(1) True by simp
    next
      case hit: True
      from less.prems(1) have "vma_inv s (?xs @ ?v # ?ys)"
        using vs by simp
      then obtain s1 s2 where step:
        "vma_free_resident s (vpages ?v) (vma_npages ?v) r = (s1, r + length (backing (vma_pages_of s ?v)))"
        "vm_kfree s1 (vpages ?v) = Some s2" "vma_inv s2 (?xs @ ?ys)" "vm_map s2 (?xs @ ?ys) = vm_map s (?xs @ ?ys)"
        "cells s2 = cells s" "foreign (vheap s2) = foreign (vheap s) - set (backing (vma_pages_of s ?v))"
        "vm_frame s (?xs @ ?v # ?ys) s2 (?xs @ ?ys)"
        by (rule unmap_one)
      let ?r = "r + length (backing (vma_pages_of s ?v))"
      have run: "vma_unmap_loop s vs start fin i r = vma_unmap_loop s2 (?xs @ ?ys) start fin i ?r"
        using True hit step(1,2) by (subst vma_unmap_loop.simps) (simp add: Let_def in_range_def)
      have pages: "vma_pages_of s2 w = vma_pages_of s w" for w
        by (simp add: vma_pages_of_def step(5))
      then have maps: "vm_map s2 ws = vm_map s ws" for ws
        by (intro vm_map_same)
      have none: "filter (in_range start fin) ?xs = []" "filter (\<lambda>v. \<not> in_range start fin v) ?xs = ?xs"
        using less.prems(2) by (simp_all add: filter_empty_conv filter_id_conv)
      have filt: "filter (in_range start fin) vs = ?v # filter (in_range start fin) (?xs @ ?ys)"
        "filter (\<lambda>v. \<not> in_range start fin v) vs = filter (\<lambda>v. \<not> in_range start fin v) (?xs @ ?ys)"
        using hit none by (subst vs, simp)+
      have shorter: "length (?xs @ ?ys) - i < length vs - i"
        using True by simp
      have "\<forall>v \<in> set (take i (?xs @ ?ys)). \<not> in_range start fin v"
        using less.prems(2) True by simp
      from less.hyps [OF shorter step(3) this, of ?r] obtain s' where s':
        "vma_unmap_loop s2 (?xs @ ?ys) start fin i ?r = Some (s', filter (\<lambda>v. \<not> in_range start fin v) (?xs @ ?ys),
           ?r + length (backing (vm_map s2 (filter (in_range start fin) (?xs @ ?ys)))))"
        "vma_inv s' (filter (\<lambda>v. \<not> in_range start fin v) (?xs @ ?ys))"
        "vm_map s' (filter (\<lambda>v. \<not> in_range start fin v) (?xs @ ?ys)) = vm_map s2 (filter (\<lambda>v. \<not> in_range start fin v) (?xs @ ?ys))"
        "foreign (vheap s') = foreign (vheap s2) - set (backing (vm_map s2 (filter (in_range start fin) (?xs @ ?ys))))"
        "vm_frame s2 (?xs @ ?ys) s' (filter (\<lambda>v. \<not> in_range start fin v) (?xs @ ?ys))"
        unfolding Let_def by blast
      have "vm_frame s vs s' (filter (\<lambda>v. \<not> in_range start fin v) (?xs @ ?ys))"
        using step(7) s'(5) vs by (metis vm_frame_trans)
      then show ?thesis
        unfolding Let_def filt run using s' step(6) maps by (intro exI [of _ s']) (auto simp del: filter_append)
    qed
  qed
qed

text \<open>Once both ends are area boundaries, an area is either inside the range or outside it.\<close>

definition page_in :: "nat \<Rightarrow> nat \<Rightarrow> nat \<times> nat \<times> nat \<times> nat \<Rightarrow> bool" where
  "page_in start fin = (\<lambda>(va, _). start \<le> va \<and> va < fin)"

lemma page_in_area:
  assumes "vma_ok v" and "pg \<in> set (vma_pages_of s v)"
  shows "vstart v \<le> fst pg" and "fst pg < vend v"
  using assms(2) vma_npages_end [OF assms(1)] by (auto simp: vma_pages_of_def)

lemma filter_pages_of:
  assumes "vma_ok v" and "\<not> (vstart v < start \<and> start < vend v)" and "\<not> (vstart v < fin \<and> fin < vend v)"
    and "start < fin"
  shows "filter (page_in start fin) (vma_pages_of s v) = (if in_range start fin v then vma_pages_of s v else [])"
    and "filter (\<lambda>pg. \<not> page_in start fin pg) (vma_pages_of s v) = (if in_range start fin v then [] else vma_pages_of s v)"
proof -
  have "page_in start fin pg \<longleftrightarrow> in_range start fin v" if "pg \<in> set (vma_pages_of s v)" for pg
    using page_in_area [OF assms(1) that] assms(2-4)
    by (cases pg) (auto simp: page_in_def in_range_def)
  then show "filter (page_in start fin) (vma_pages_of s v) = (if in_range start fin v then vma_pages_of s v else [])"
    "filter (\<lambda>pg. \<not> page_in start fin pg) (vma_pages_of s v) = (if in_range start fin v then [] else vma_pages_of s v)"
    by (auto simp: filter_empty_conv filter_id_conv)
qed

lemma filter_vm_map:
  assumes "\<forall>v \<in> set vs. vma_ok v" and "no_straddle start vs" and "no_straddle fin vs" and "start < fin"
  shows "vm_map s (filter (in_range start fin) vs) = filter (page_in start fin) (vm_map s vs)"
    and "vm_map s (filter (\<lambda>v. \<not> in_range start fin v) vs) = filter (\<lambda>pg. \<not> page_in start fin pg) (vm_map s vs)"
proof -
  have "vm_map s (filter (in_range start fin) vs) = filter (page_in start fin) (vm_map s vs) \<and>
    vm_map s (filter (\<lambda>v. \<not> in_range start fin v) vs) = filter (\<lambda>pg. \<not> page_in start fin pg) (vm_map s vs)"
    using assms(1-3)
  proof (induction vs)
    case (Cons v vs)
    then have "vma_ok v" "\<not> (vstart v < start \<and> start < vend v)" "\<not> (vstart v < fin \<and> fin < vend v)"
      by (auto simp: no_straddle_def)
    note filter_pages_of [OF this assms(4), of s]
    moreover have "vm_map s (filter (in_range start fin) vs) = filter (page_in start fin) (vm_map s vs) \<and>
      vm_map s (filter (\<lambda>v. \<not> in_range start fin v) vs) = filter (\<lambda>pg. \<not> page_in start fin pg) (vm_map s vs)"
      using Cons by (auto simp: no_straddle_def)
    ultimately show ?case by simp
  qed simp
  then show "vm_map s (filter (in_range start fin) vs) = filter (page_in start fin) (vm_map s vs)"
    "vm_map s (filter (\<lambda>v. \<not> in_range start fin v) vs) = filter (\<lambda>pg. \<not> page_in start fin pg) (vm_map s vs)"
    by simp_all
qed

text \<open>The two cuts at the ends of a range, shared by unmapping and protecting.\<close>

lemma split_both:
  assumes "vma_inv s vs"
  obtains (failed) s1 vs1 where "vma_split_at s vs start = Some (s1, vs1, False)" "vm_same s vs s1 vs1"
  | (half) s1 vs1 s2 vs2 where "vma_split_at s vs start = Some (s1, vs1, True)"
      "vma_split_at s1 vs1 fin = Some (s2, vs2, False)" "vm_same s vs s2 vs2"
  | (cut) s1 vs1 s2 vs2 where "vma_split_at s vs start = Some (s1, vs1, True)"
      "vma_split_at s1 vs1 fin = Some (s2, vs2, True)" "vm_same s vs s2 vs2"
      "no_straddle start vs2" "no_straddle fin vs2" "vma_inv s2 vs2"
proof -
  obtain s1 vs1 ok1 where s1: "vma_split_at s vs start = Some (s1, vs1, ok1)" "vm_same s vs s1 vs1"
    "ok1 \<longrightarrow> no_straddle start vs1"
    using assms by (rule vma_split_at_law)
  then have "vma_inv s1 vs1" by (simp add: vm_same_def)
  then obtain s2 vs2 ok2 where s2: "vma_split_at s1 vs1 fin = Some (s2, vs2, ok2)" "vm_same s1 vs1 s2 vs2"
    "ok2 \<longrightarrow> no_straddle fin vs2" "refines vs2 vs1"
    by (rule vma_split_at_law)
  have "vm_same s vs s2 vs2" "vma_inv s2 vs2"
    using s1(2) s2(2) vm_same_trans by (auto simp: vm_same_def)
  then show thesis
    using s1 s2 no_straddle_refines failed half cut by (cases ok1; cases ok2) auto
qed

lemma vma_unmap_range_law:
  assumes "vma_inv s vs" and "start < fin"
  shows "\<exists>s' vs' r. vma_unmap_range s vs start fin = Some (s', vs', r) \<and> vma_inv s' vs' \<and> vm_frame s vs s' vs' \<and>
    (case r of
       None \<Rightarrow> vm_map s' vs' = vm_map s vs \<and> foreign (vheap s') = foreign (vheap s)
     | Some n \<Rightarrow>
         vm_map s' vs' = filter (\<lambda>pg. \<not> page_in start fin pg) (vm_map s vs) \<and>
         foreign (vheap s') = foreign (vheap s) - set (backing (filter (page_in start fin) (vm_map s vs))) \<and>
         n = length (backing (filter (page_in start fin) (vm_map s vs))))"
  using assms(1)
proof (rule split_both [where start = start and fin = fin])
  fix s1 vs1 assume "vma_split_at s vs start = Some (s1, vs1, False)" "vm_same s vs s1 vs1"
  with assms(2) show ?thesis by (simp add: vma_unmap_range_def vm_same_def)
next
  fix s1 vs1 s2 vs2 assume "vma_split_at s vs start = Some (s1, vs1, True)"
    "vma_split_at s1 vs1 fin = Some (s2, vs2, False)" "vm_same s vs s2 vs2"
  with assms(2) show ?thesis by (simp add: vma_unmap_range_def vm_same_def)
next
  fix s1 vs1 s2 vs2 assume cut: "vma_split_at s vs start = Some (s1, vs1, True)"
    "vma_split_at s1 vs1 fin = Some (s2, vs2, True)" "vm_same s vs s2 vs2"
    "no_straddle start vs2" "no_straddle fin vs2" "vma_inv s2 vs2"
  let ?kept = "filter (\<lambda>v. \<not> in_range start fin v) vs2"
  have ok: "\<forall>v \<in> set vs2. vma_ok v"
    using cut(6) by (simp add: vma_inv_def)
  note maps = filter_vm_map [OF ok cut(4,5) assms(2), of s2]
  from vma_unmap_loop_law [OF cut(6), of 0 start fin 0] obtain s3 where
    s3: "vma_unmap_loop s2 vs2 start fin 0 0 = Some (s3, ?kept, length (backing (filter (page_in start fin) (vm_map s2 vs2))))"
      "vma_inv s3 ?kept" "vm_map s3 ?kept = filter (\<lambda>pg. \<not> page_in start fin pg) (vm_map s2 vs2)"
      "foreign (vheap s3) = foreign (vheap s2) - set (backing (filter (page_in start fin) (vm_map s2 vs2)))"
      "vm_frame s2 vs2 s3 ?kept"
    unfolding Let_def maps by auto
  obtain s4 vs4 n where s4: "vma_merge_adjacent s3 ?kept = Some (s4, vs4, n)" "vm_same s3 ?kept s4 vs4"
    using s3(2) by (rule vma_merge_adjacent_law)
  have run: "vma_unmap_range s vs start fin =
      Some (s4, vs4, Some (length (backing (filter (page_in start fin) (vm_map s2 vs2)))))"
    using assms(2) cut(1,2) s3(1) s4(1) by (simp add: vma_unmap_range_def)
  have "vm_frame s vs s4 vs4"
    using cut(3) s3(5) s4(2) unfolding vm_same_def by (metis vm_frame_trans)
  then show ?thesis
    using run cut(3) s3(3,4) s4(2) by (auto simp: vm_same_def)
qed

section \<open>Protecting\<close>

definition set_prot :: "nat \<Rightarrow> nat \<Rightarrow> nat \<Rightarrow> nat \<times> nat \<times> nat \<times> nat \<Rightarrow> nat \<times> nat \<times> nat \<times> nat" where
  "set_prot start fin prot = (\<lambda>(va, pr, fl, pg). (va, if start \<le> va \<and> va < fin then prot else pr, fl, pg))"

lemma backing_set_prot [simp]: "backing (map (set_prot start fin prot) pgs) = backing pgs"
  by (induction pgs) (auto simp: backing_def set_prot_def)

lemma vma_prot_update [simp]:
  "vma_npages (v\<lparr>vprot := prot\<rparr>) = vma_npages v" "vma_ok (v\<lparr>vprot := prot\<rparr>) = vma_ok v"
  "array_ok s (v\<lparr>vprot := prot\<rparr>) = array_ok s v"
  by (simp_all add: vma_npages_def vma_ok_def array_ok_def)

lemma protect_pages_of:
  assumes "vma_ok v" and "\<not> (vstart v < start \<and> start < vend v)" and "\<not> (vstart v < fin \<and> fin < vend v)"
    and "start < fin"
  shows "vma_pages_of s (if in_range start fin v then v\<lparr>vprot := prot\<rparr> else v)
    = map (set_prot start fin prot) (vma_pages_of s v)"
proof -
  have eq: "page_in start fin pg \<longleftrightarrow> in_range start fin v" if "pg \<in> set (vma_pages_of s v)" for pg
    using page_in_area [OF assms(1) that] assms(2-4)
    by (cases pg) (auto simp: page_in_def in_range_def)
  have "start \<le> vstart v + 4096 * i \<and> vstart v + 4096 * i < fin \<longleftrightarrow> in_range start fin v" if "i < vma_npages v" for i
    using eq [of "(vstart v + 4096 * i, vprot v, vflags v, cells s (vpages v + 8 * i))"] that
    by (auto simp: vma_pages_of_def page_in_def)
  then show ?thesis
    by (auto simp: vma_pages_of_def set_prot_def)
qed

lemma vma_protect_all_map:
  assumes "\<forall>v \<in> set vs. vma_ok v" and "no_straddle start vs" and "no_straddle fin vs" and "start < fin"
  shows "vm_map s (fst (vma_protect_all vs start fin prot)) = map (set_prot start fin prot) (vm_map s vs)"
  using assms(1-3)
proof (induction vs)
  case (Cons v vs)
  then have "vma_ok v" "\<not> (vstart v < start \<and> start < vend v)" "\<not> (vstart v < fin \<and> fin < vend v)"
    by (auto simp: no_straddle_def)
  note protect_pages_of [OF this assms(4), of s prot]
  moreover have "vm_map s (fst (vma_protect_all vs start fin prot)) = map (set_prot start fin prot) (vm_map s vs)"
    using Cons by (auto simp: no_straddle_def)
  ultimately show ?case
    by (simp add: vma_protect_all_def in_range_def split: if_splits)
qed (simp add: vma_protect_all_def)

lemma vma_protect_all_inv:
  assumes "vma_inv s vs" and "no_straddle start vs" and "no_straddle fin vs" and "start < fin"
  shows "vma_inv s (fst (vma_protect_all vs start fin prot))" and "vm_frame s vs s (fst (vma_protect_all vs start fin prot))"
proof -
  let ?f = "\<lambda>v. if start \<le> vstart v \<and> vend v \<le> fin then v\<lparr>vprot := prot\<rparr> else v"
  have map: "vm_map s (map ?f vs) = map (set_prot start fin prot) (vm_map s vs)"
    using vma_protect_all_map [OF _ assms(2-4), of s prot] assms(1) by (simp add: vma_protect_all_def vma_inv_def)
  have same: "vstart (?f v) = vstart v" "vend (?f v) = vend v" "vpages (?f v) = vpages v" for v
    by simp_all
  have ptrs: "map (vpages \<circ> ?f) vs = map vpages vs"
    by simp
  show "vma_inv s (fst (vma_protect_all vs start fin prot))"
    using assms(1) unfolding vma_inv_def vma_protect_all_def fst_conv map
    by (auto simp: same sorted_wrt_map ptrs simp del: if_split split del: if_split)
  show "vm_frame s vs s (fst (vma_protect_all vs start fin prot))"
    by (auto simp: vm_frame_def vma_protect_all_def image_iff)
qed

lemma vma_protect_range_law:
  assumes "vma_inv s vs" and "start < fin"
  shows "\<exists>s' vs' r. vma_protect_range s vs start fin prot = Some (s', vs', r) \<and> vma_inv s' vs' \<and>
    vm_frame s vs s' vs' \<and> foreign (vheap s') = foreign (vheap s) \<and>
    vm_map s' vs' = (if r = None then vm_map s vs else map (set_prot start fin prot) (vm_map s vs))"
  using assms(1)
proof (rule split_both [where start = start and fin = fin])
  fix s1 vs1 assume "vma_split_at s vs start = Some (s1, vs1, False)" "vm_same s vs s1 vs1"
  with assms(2) show ?thesis by (simp add: vma_protect_range_def vm_same_def)
next
  fix s1 vs1 s2 vs2 assume "vma_split_at s vs start = Some (s1, vs1, True)"
    "vma_split_at s1 vs1 fin = Some (s2, vs2, False)" "vm_same s vs s2 vs2"
  with assms(2) show ?thesis by (simp add: vma_protect_range_def vm_same_def)
next
  fix s1 vs1 s2 vs2 assume cut: "vma_split_at s vs start = Some (s1, vs1, True)"
    "vma_split_at s1 vs1 fin = Some (s2, vs2, True)" "vm_same s vs s2 vs2"
    "no_straddle start vs2" "no_straddle fin vs2" "vma_inv s2 vs2"
  obtain vs3 t where vs3: "vma_protect_all vs2 start fin prot = (vs3, t)"
    by fastforce
  have ok: "\<forall>v \<in> set vs2. vma_ok v"
    using cut(6) by (simp add: vma_inv_def)
  have inv3: "vma_inv s2 vs3" "vm_frame s2 vs2 s2 vs3" "vm_map s2 vs3 = map (set_prot start fin prot) (vm_map s2 vs2)"
    using vma_protect_all_inv [OF cut(6,4,5) assms(2), of prot] vma_protect_all_map [OF ok cut(4,5) assms(2), of s2 prot]
    by (simp_all add: vs3)
  obtain s4 vs4 n where s4: "vma_merge_adjacent s2 vs3 = Some (s4, vs4, n)" "vm_same s2 vs3 s4 vs4"
    using inv3(1) by (rule vma_merge_adjacent_law)
  have run: "vma_protect_range s vs start fin prot = Some (s4, vs4, Some t)"
    using assms(2) cut(1,2) s4(1) by (simp add: vma_protect_range_def vs3)
  have "vm_frame s vs s4 vs4"
    using cut(3) inv3(2) s4(2) unfolding vm_same_def by (metis vm_frame_trans)
  then show ?thesis
    using run cut(3) inv3(3) s4(2) by (auto simp: vm_same_def)
qed

section \<open>Adding an area\<close>

definition blank_pages :: "nat \<Rightarrow> nat \<Rightarrow> nat \<Rightarrow> nat \<Rightarrow> (nat \<times> nat \<times> nat \<times> nat) list" where
  "blank_pages start fin prot flags = map (\<lambda>i. (start + 4096 * i, prot, flags, 0)) [0..<(fin - start) div 4096]"

lemma backing_blank [simp]: "backing (blank_pages start fin prot flags) = []"
  by (simp add: backing_def blank_pages_def)

lemma vma_add_grow:
  assumes inv: "vma_inv s (as @ bs)" and ok: "vma_ok v" and len: "length (as @ bs) < 32"
    and as: "\<forall>a \<in> set as. vend a \<le> vstart v" and bs: "\<forall>b \<in> set bs. vend v \<le> vstart b"
    and s1: "heap_inv (vheap s1)" "cells s1 = cells s" "\<forall>j. (vpages v, j) \<notin> allocs (vheap s)"
      "allocs (vheap s1) = insert (vpages v, k) (allocs (vheap s))" "foreign (vheap s1) = foreign (vheap s)"
      "8 * vma_npages v \<le> k"
  defines "s2 \<equiv> vm_write (vpages v) (replicate (vma_npages v) 0) s1"
  shows "vma_inv s2 (as @ v # bs)"
    and "vm_map s2 (as @ v # bs) = vm_map s as @ blank_pages (vstart v) (vend v) (vprot v) (vflags v) @ vm_map s bs"
    and "vm_frame s (as @ bs) s2 (as @ v # bs)"
proof -
  have arr: "\<forall>w \<in> set (as @ bs). array_ok s w"
    using inv by (simp add: vma_inv_def)
  have keep: "cells s2 a = cells s a" if "(q, j) \<in> allocs (vheap s)" "a \<in> {q..<q + j}" for q j a
    unfolding s2_def using s1 that by (intro fresh_write [of s1 "vpages v" k s _ q j]) simp_all
  have alive: "allocs (vheap s2) = insert (vpages v, k) (allocs (vheap s))"
    by (simp add: s2_def s1(4))
  have pages: "vma_pages_of s2 w = vma_pages_of s w" if "w \<in> set (as @ bs)" for w
    using arr that keep by (intro vma_pages_of_same) auto
  have "vma_pages_of s2 v = blank_pages (vstart v) (vend v) (vprot v) (vflags v)"
    using vma_npages_eq [OF ok] by (auto simp: vma_pages_of_def blank_pages_def s2_def)
  moreover have "vm_map s2 as = vm_map s as" "vm_map s2 bs = vm_map s bs"
    using pages by (auto intro: vm_map_same)
  ultimately show map: "vm_map s2 (as @ v # bs) = vm_map s as @ blank_pages (vstart v) (vend v) (vprot v) (vflags v) @ vm_map s bs"
    by simp
  have "vpages v \<notin> vpages ` set (as @ bs)"
    using arr s1(3) unfolding array_ok_def by (metis imageE)
  moreover have "array_ok s2 v"
    using s1(6) by (auto simp: array_ok_def alive)
  moreover have "\<forall>w \<in> set (as @ bs). array_ok s2 w"
    using arr alive by (auto intro: array_ok_mono)
  ultimately show "vma_inv s2 (as @ v # bs)"
    using inv ok len as bs s1(1,5) unfolding vma_inv_def map
    by (auto simp: s2_def sorted_wrt_append)
  show "vm_frame s (as @ bs) s2 (as @ v # bs)"
    using keep s1(3) by (auto simp: vm_frame_def alive)
qed

lemma vma_add_law:
  assumes inv: "vma_inv s vs" and fin: "fin < 2 ^ 64"
  shows "\<exists>s' vs' r. vma_add s vs start fin prot flags = Some (s', vs', r) \<and> vma_inv s' vs' \<and>
    vm_frame s vs s' vs' \<and> foreign (vheap s') = foreign (vheap s) \<and>
    (case r of
       None \<Rightarrow> vs' = vs \<and> vm_map s' vs' = vm_map s vs
     | Some v \<Rightarrow> vstart v = start \<and> vend v = fin \<and> vprot v = prot \<and> vflags v = flags \<and>
         (\<exists>as bs. vs = as @ bs \<and> vs' = as @ v # bs \<and>
            vm_map s' vs' = vm_map s as @ blank_pages start fin prot flags @ vm_map s bs))"
proof (cases "fin \<le> start \<or> start mod 4096 \<noteq> 0 \<or> fin mod 4096 \<noteq> 0 \<or> 32 \<le> length vs \<or>
    vma_find_overlap vs start fin \<noteq> None \<or> 2 ^ 20 < (fin - start) div 4096")
  case True
  then have "vma_add s vs start fin prot flags = Some (s, vs, None)"
    by (auto simp: vma_add_def Let_def)
  with inv show ?thesis by simp
next
  case good: False
  define n where "n = (fin - start) div 4096"
  have n: "u64 (n * 8) = n * 8"
    using good by (intro size_no_wrap) (simp add: n_def)
  have srt: "sorted_wrt (\<lambda>a b. vend a \<le> vstart b) vs" "\<forall>w \<in> set vs. vma_ok w" "heap_inv (vheap s)"
    using inv by (auto simp: vma_inv_def)
  have apart: "\<not> (start < vend w \<and> vstart w < fin)" if "w \<in> set vs" for w
    using good that by (auto simp: vma_find_overlap_def find_None_iff)
  have run: "vma_add s vs start fin prot flags = do {
      (s1, pages) \<leftarrow> vm_kmalloc s (n * 8);
      if pages = 0 then Some (s1, vs, None)
      else Some (vm_write pages (replicate n 0) s1,
        vma_insert_sorted vs \<lparr>vstart = start, vend = fin, vprot = prot, vflags = flags, vpages = pages\<rparr>,
        vma_find (vma_insert_sorted vs \<lparr>vstart = start, vend = fin, vprot = prot, vflags = flags, vpages = pages\<rparr>) start) }"
    unfolding vma_add_def Let_def n_def [symmetric] n using good by (simp add: n_def)
  from srt(3) show ?thesis
  proof (rule vm_kmalloc_cases [where n = "n * 8"])
    fix s1 assume s1: "vm_kmalloc s (n * 8) = Some (s1, 0)" "heap_inv (vheap s1)" "cells s1 = cells s"
      "allocs (vheap s1) = allocs (vheap s)" "foreign (vheap s1) = foreign (vheap s)"
    then show ?thesis
      using vma_inv_same_list [OF inv s1(2,4,5,3)] by (simp add: run)
  next
    fix s1 p k assume s1: "vm_kmalloc s (n * 8) = Some (s1, p)" "heap_inv (vheap s1)" "cells s1 = cells s" "p \<noteq> 0"
      "n * 8 \<le> k" "\<forall>j. (p, j) \<notin> allocs (vheap s)" "allocs (vheap s1) = insert (p, k) (allocs (vheap s))"
      "foreign (vheap s1) = foreign (vheap s)"
    define v where "v = \<lparr>vstart = start, vend = fin, vprot = prot, vflags = flags, vpages = p\<rparr>"
    from srt(1,2) obtain as bs where ab: "vs = as @ bs" "vma_insert_sorted vs v = as @ v # bs"
      "\<forall>b \<in> set bs. vstart v < vstart b" "\<forall>a \<in> set as. vstart a \<le> vstart v"
      by (rule vma_insert_sorted_pos)
    have ok: "vma_ok v" "vma_npages v = n" "vpages v = p"
      using good fin vma_npages_eq [of v] by (auto simp: v_def vma_ok_def n_def)
    have as: "\<forall>a \<in> set as. vend a \<le> vstart v"
    proof
      fix a assume a: "a \<in> set as"
      with ab(1,4) apart [of a] good show "vend a \<le> vstart v"
        by (auto simp: v_def)
    qed
    have bs: "\<forall>b \<in> set bs. vend v \<le> vstart b"
    proof
      fix b assume b: "b \<in> set bs"
      with ab(1) srt(2) have "vstart b < vend b" by (auto simp: vma_ok_def)
      with b ab(1,3) apart [of b] show "vend v \<le> vstart b"
        by (auto simp: v_def)
    qed
    have len: "length (as @ bs) < 32"
      using good ab(1) by simp
    have s1': "\<forall>j. (vpages v, j) \<notin> allocs (vheap s)" "allocs (vheap s1) = insert (vpages v, k) (allocs (vheap s))"
      "8 * vma_npages v \<le> k"
      using s1 ok by simp_all
    note grow = vma_add_grow [OF inv [unfolded ab(1)] ok(1) len as bs s1(2,3) s1'(1,2) s1(8) s1'(3), unfolded ok(2,3)]
    have "\<forall>a \<in> set as. \<not> (vstart a \<le> start \<and> start < vend a)"
      using as by (auto simp: v_def)
    then have "vma_find (as @ v # bs) start = Some v"
      using good unfolding vma_find_def by (induction as) (auto simp: v_def)
    then have "vma_add s vs start fin prot flags = Some (vm_write p (replicate n 0) s1, as @ v # bs, Some v)"
      using s1(1,4) ab(2) by (simp add: run v_def)
    then show ?thesis
      using grow ab(1) s1(8) by (auto simp: v_def)
  qed
qed

section \<open>Teardown\<close>

lemma release_fold_eq:
  "fold (\<lambda>i s. if cells s (p + 8 * i) \<noteq> 0
     then (vm_free_page (cells s (p + 8 * i)) s)\<lparr>cells := (cells s)(p + 8 * i := 0)\<rparr> else s) [0..<n] s
   = s\<lparr>vheap := fold heap_release (filter (\<lambda>x. x \<noteq> 0) (vm_read s p n)) (vheap s),
       cells := (\<lambda>a. if \<exists>i < n. a = p + 8 * i then 0 else cells s a)\<rparr>"
proof (induction n)
  case 0
  then show ?case by (simp add: vm_read_def)
next
  case (Suc n)
  let ?zero = "\<lambda>n a. if \<exists>i < n. a = p + 8 * i then 0 else cells s a"
  have "cells s (p + 8 * n) = 0 \<Longrightarrow> ?zero n = ?zero (Suc n)" "(?zero n)(p + 8 * n := 0) = ?zero (Suc n)"
    by (auto simp: fun_eq_iff less_Suc_eq)
  then show ?case
    by (simp only: upt_Suc_append fold_append comp_apply fold.simps id_apply Suc) (simp add: vm_read_def vm_free_page_def)
qed

lemma vma_release_pages_law:
  assumes inv: "vma_inv s (v # vs)"
  obtains s' where "vma_release_pages s v = Some (s', v\<lparr>vpages := 0\<rparr>)" "vma_inv s' vs" "vm_map s' vs = vm_map s vs"
    "foreign (vheap s') = foreign (vheap s) - set (backing (vma_pages_of s v))"
    "\<And>p k. (p, k) \<in> allocs (vheap s') \<longleftrightarrow> (p, k) \<in> allocs (vheap s) \<and> p \<noteq> vpages v"
proof -
  let ?pgs = "backing (vma_pages_of s v)"
  define s1 where "s1 = s\<lparr>vheap := fold heap_release ?pgs (vheap s),
    cells := (\<lambda>a. if \<exists>i < vma_npages v. a = vpages v + 8 * i then 0 else cells s a)\<rparr>"
  have facts: "heap_inv (vheap s)" "vpages v \<notin> vpages ` set vs" "\<forall>w \<in> set (v # vs). array_ok s w"
    "distinct ?pgs" "set ?pgs \<subseteq> foreign (vheap s)"
    "set (backing (vm_map s vs)) \<subseteq> foreign (vheap s) - set ?pgs"
    using inv by (auto simp: vma_inv_def)
  have s1: "heap_inv (vheap s1)" "foreign (vheap s1) = foreign (vheap s) - set ?pgs" "allocs (vheap s1) = allocs (vheap s)"
    using kmem.release_all [OF facts(1,4,5)] by (simp_all add: s1_def)
  obtain k where k: "(vpages v, k) \<in> allocs (vheap s)" "8 * vma_npages v \<le> k"
    using facts(3) by (auto simp: array_ok_def)
  then obtain s2 where s2: "vm_kfree s1 (vpages v) = Some s2" "heap_inv (vheap s2)" "cells s2 = cells s1"
    "allocs (vheap s2) = allocs (vheap s1) - {(vpages v, k)}" "foreign (vheap s2) = foreign (vheap s1)"
    using s1(1,3) by (auto intro: vm_kfree_cases [of s1 "vpages v" k])
  have nz: "vpages v \<noteq> 0"
    using allocs_nonzero [OF facts(1) k(1)] .
  have unique: "j = k" if "(vpages v, j) \<in> allocs (vheap s)" for j
    using allocs_functional [OF facts(1) that k(1)] .
  have keep: "cells s2 a = cells s a" if "(q, j) \<in> allocs (vheap s)" "a \<in> {q..<q + j}" "q \<noteq> vpages v" for q j a
  proof -
    have "{vpages v..<vpages v + k} \<inter> {q..<q + j} = {}"
      using facts(1) k(1) that by (intro kheap.live_disjoint) auto
    then have "a \<notin> {vpages v..<vpages v + 8 * vma_npages v}"
      using that(2) k(2) by auto
    then show ?thesis by (auto simp: s2(3) s1_def)
  qed
  have rest: "vma_pages_of s2 w = vma_pages_of s w" "array_ok s2 w" if "w \<in> set vs" for w
  proof -
    have w: "array_ok s w" "vpages w \<noteq> vpages v"
      using that facts(2,3) by (auto simp: image_iff)
    show "vma_pages_of s2 w = vma_pages_of s w"
      using w keep by (intro vma_pages_of_same) auto
    from w(1) show "array_ok s2 w"
      by (rule array_ok_diff [where D = "{(vpages v, k)}"]) (use w(2) in \<open>simp_all add: s2(4) s1(3)\<close>)
  qed
  then have same: "vm_map s2 vs = vm_map s vs"
    by (intro vm_map_same)
  have "vma_inv s2 vs"
    using inv facts(6) s2(2,5) s1(2) rest(2) unfolding vma_inv_def same by auto
  moreover have "vma_release_pages s v = Some (s2, v\<lparr>vpages := 0\<rparr>)"
    unfolding vma_release_pages_def release_fold_eq backing_pages_of [symmetric] s1_def [symmetric]
    using nz s2(1) by simp
  ultimately show thesis
    using same s2 s1 unique by (intro that [of s2]) auto
qed

lemma vma_destroy_law:
  assumes "vma_inv s vs"
  shows "\<exists>s'. vma_destroy s vs = Some (s', []) \<and> heap_inv (vheap s') \<and>
    foreign (vheap s') = foreign (vheap s) - set (backing (vm_map s vs)) \<and>
    (\<forall>p k. (p, k) \<in> allocs (vheap s') \<longleftrightarrow> (p, k) \<in> allocs (vheap s) \<and> p \<notin> vpages ` set vs)"
  using assms
proof (induction vs arbitrary: s)
  case Nil
  then show ?case by (simp add: vma_inv_def backing_def)
next
  case (Cons v vs)
  then obtain s1 where s1: "vma_release_pages s v = Some (s1, v\<lparr>vpages := 0\<rparr>)" "vma_inv s1 vs" "vm_map s1 vs = vm_map s vs"
    "foreign (vheap s1) = foreign (vheap s) - set (backing (vma_pages_of s v))"
    "\<And>p k. (p, k) \<in> allocs (vheap s1) \<longleftrightarrow> (p, k) \<in> allocs (vheap s) \<and> p \<noteq> vpages v"
    by (auto elim: vma_release_pages_law)
  from Cons.IH [OF s1(2)] obtain s' where s': "vma_destroy s1 vs = Some (s', [])" "heap_inv (vheap s')"
    "foreign (vheap s') = foreign (vheap s1) - set (backing (vm_map s vs))"
    "\<forall>p k. (p, k) \<in> allocs (vheap s') \<longleftrightarrow> (p, k) \<in> allocs (vheap s1) \<and> p \<notin> vpages ` set vs"
    by (auto simp: s1(3))
  show ?case
    using s1 s' by (intro exI [of _ s']) auto
qed

section \<open>Cloning\<close>

lemma vma_inv_extend:
  assumes inv: "vma_inv s vs" and heap: "heap_inv (vheap s')" "allocs (vheap s) \<subseteq> allocs (vheap s')"
    "foreign (vheap s') = foreign (vheap s)"
    and keep: "\<forall>q j a. (q, j) \<in> allocs (vheap s) \<and> a \<in> {q..<q + j} \<longrightarrow> cells s' a = cells s a"
  shows "vma_inv s' vs" and "vm_map s' vs = vm_map s vs"
proof -
  have arr: "\<forall>v \<in> set vs. array_ok s v"
    using inv by (simp add: vma_inv_def)
  show same: "vm_map s' vs = vm_map s vs"
    using arr keep by (intro vm_map_same vma_pages_of_same) auto
  show "vma_inv s' vs"
    using inv heap arr unfolding vma_inv_def same by (auto intro: array_ok_mono)
qed

text \<open>A partial clone: the areas copied so far, each with an array of its own.\<close>

definition clone_of :: "vm \<Rightarrow> vma list \<Rightarrow> vma list \<Rightarrow> bool" where
  "clone_of s xs dst \<longleftrightarrow>
     vma_inv s dst \<and> vm_map s dst = vm_map s xs \<and>
     list_all2 (\<lambda>a b. vstart b = vstart a \<and> vend b = vend a \<and> vprot b = vprot a \<and> vflags b = vflags a) xs dst"

lemma clone_step:
  assumes inv: "vma_inv s (xs @ v # ys)" and cl: "clone_of s xs dst"
    and disj: "vpages ` set dst \<inter> vpages ` set (xs @ v # ys) = {}"
    and s1: "heap_inv (vheap s1)" "cells s1 = cells s" "\<forall>j. (p, j) \<notin> allocs (vheap s)"
      "allocs (vheap s1) = insert (p, k) (allocs (vheap s))" "foreign (vheap s1) = foreign (vheap s)"
      "8 * vma_npages v \<le> k"
  defines "s2 \<equiv> vm_write p (vm_read s1 (vpages v) (vma_npages v)) s1"
  defines "c \<equiv> v\<lparr>vpages := p\<rparr>"
  shows "vma_inv s2 (xs @ v # ys)" and "vm_map s2 (xs @ v # ys) = vm_map s (xs @ v # ys)"
    and "vm_map s2 xs = vm_map s xs"
    and "vma_insert_sorted dst c = dst @ [c]" and "clone_of s2 (xs @ [v]) (dst @ [c])"
    and "vpages ` set (dst @ [c]) \<inter> vpages ` set (xs @ v # ys) = {}"
    and "foreign (vheap s2) = foreign (vheap s)"
proof -
  have keep: "cells s2 a = cells s a" if "(q, j) \<in> allocs (vheap s)" "a \<in> {q..<q + j}" for q j a
    unfolding s2_def using s1 that by (intro fresh_write [of s1 p k s _ q j]) simp_all
  have alive: "allocs (vheap s2) = insert (p, k) (allocs (vheap s))" "heap_inv (vheap s2)"
    "foreign (vheap s2) = foreign (vheap s)"
    by (simp_all add: s2_def s1)
  then show "foreign (vheap s2) = foreign (vheap s)" by simp
  have sub: "allocs (vheap s) \<subseteq> allocs (vheap s2)"
    using alive(1) by blast
  have all: "\<forall>q j a. (q, j) \<in> allocs (vheap s) \<and> a \<in> {q..<q + j} \<longrightarrow> cells s2 a = cells s a"
    using keep by blast
  note src2 = vma_inv_extend [OF inv alive(2) sub alive(3) all]
  then show "vma_inv s2 (xs @ v # ys)" "vm_map s2 (xs @ v # ys) = vm_map s (xs @ v # ys)" .
  have dinv: "vma_inv s dst" "vm_map s dst = vm_map s xs" and shape: "list_all2 (\<lambda>a b. vstart b = vstart a \<and>
    vend b = vend a \<and> vprot b = vprot a \<and> vflags b = vflags a) xs dst"
    using cl by (simp_all add: clone_of_def)
  note dst2 = vma_inv_extend [OF dinv(1) alive(2) sub alive(3) all]
  have facts: "vma_ok v" "\<forall>w \<in> set (xs @ v # ys). array_ok s w" "length (xs @ v # ys) \<le> 32"
    "\<forall>x \<in> set xs. vend x \<le> vstart v \<and> vma_ok x" "distinct (backing (vm_map s (xs @ [v])))"
    "set (backing (vm_map s (xs @ [v]))) \<subseteq> foreign (vheap s)"
    using inv by (auto simp: vma_inv_def sorted_wrt_append)
  have bounds: "\<forall>w \<in> set dst. vend w \<le> vstart v \<and> vstart w \<le> vstart v"
  proof
    fix w assume "w \<in> set dst"
    then obtain i where i: "i < length dst" "w = dst ! i"
      by (auto simp: in_set_conv_nth)
    then have "vend w = vend (xs ! i)" "vstart w = vstart (xs ! i)" "xs ! i \<in> set xs"
      using list_all2_nthD2 [OF shape i(1)] list_all2_lengthD [OF shape] by simp_all
    then show "vend w \<le> vstart v \<and> vstart w \<le> vstart v"
      using facts(4) by (auto simp: vma_ok_def)
  qed
  have "dst = [] \<or> vstart (last dst) \<le> vstart c"
    using bounds by (cases dst rule: rev_cases) (auto simp: c_def)
  then show "vma_insert_sorted dst c = dst @ [c]"
    using vma_insert_sorted_split [of "[]" c dst] by simp
  show map_xs: "vm_map s2 xs = vm_map s xs"
    using facts(2) keep by (intro vm_map_same vma_pages_of_same) auto
  have np: "vma_npages c = vma_npages v"
    by (simp add: c_def vma_npages_def)
  have pv: "vma_pages_of s2 v = vma_pages_of s v"
    using facts(2) keep by (intro vma_pages_of_same) auto
  have pc: "vma_pages_of s2 c = vma_pages_of s v"
    unfolding vma_pages_of_def np by (auto simp: c_def s2_def s1(2))
  have fresh: "p \<notin> vpages ` set dst" "p \<notin> vpages ` set (xs @ v # ys)"
    using dinv(1) facts(2) s1(3) unfolding vma_inv_def array_ok_def by (metis imageE)+
  have map: "vm_map s2 (dst @ [c]) = vm_map s (xs @ [v])"
    using dst2(2) dinv(2) pc by simp
  have "array_ok s2 c" "vma_ok c"
    using s1(6) facts(1) np by (auto simp: array_ok_def alive(1) c_def vma_ok_def)
  then have "vma_inv s2 (dst @ [c])"
    using dst2(1) bounds fresh(1) facts(3,5,6) list_all2_lengthD [OF shape] alive(3)
    unfolding vma_inv_def map by (auto simp: sorted_wrt_append c_def)
  then show "clone_of s2 (xs @ [v]) (dst @ [c])"
    using map map_xs pv shape by (simp add: clone_of_def list_all2_appendI c_def)
  show "vpages ` set (dst @ [c]) \<inter> vpages ` set (xs @ v # ys) = {}"
    using disj fresh(2) by (auto simp: c_def)
qed

text \<open>
  A failed clone destroys the partial copy, and with it the pages the copy shares with the source.
\<close>

lemma vma_clone_loop_law:
  "vma_inv s (xs @ ys) \<Longrightarrow> clone_of s xs dst \<Longrightarrow> vpages ` set dst \<inter> vpages ` set (xs @ ys) = {} \<Longrightarrow>
   \<exists>s' dst' ok. vma_clone_loop s ys dst = Some (s', dst', ok) \<and>
     (if ok then vma_inv s' (xs @ ys) \<and> vm_map s' (xs @ ys) = vm_map s (xs @ ys) \<and> clone_of s' (xs @ ys) dst' \<and>
        vpages ` set dst' \<inter> vpages ` set (xs @ ys) = {} \<and> foreign (vheap s') = foreign (vheap s)
      else dst' = [] \<and> (\<exists>copied v rest. xs @ ys = copied @ v # rest \<and>
        foreign (vheap s') = foreign (vheap s) - set (backing (vm_map s copied))))"
proof (induction ys arbitrary: s xs dst)
  case Nil
  then show ?case by (intro exI [of _ s] exI [of _ dst] exI [of _ True]) simp
next
  case (Cons v ys)
  have ok: "vma_ok v" "heap_inv (vheap s)"
    using Cons.prems(1) by (auto simp: vma_inv_def)
  let ?n = "vma_npages v * 8"
  have size: "u64 ?n = ?n"
    using vma_npages_bound [OF ok(1)] by (intro size_no_wrap) simp
  from ok(2) show ?case
  proof (rule vm_kmalloc_cases [where n = ?n])
    fix s1 assume s1: "vm_kmalloc s ?n = Some (s1, 0)" "heap_inv (vheap s1)" "cells s1 = cells s"
      "allocs (vheap s1) = allocs (vheap s)" "foreign (vheap s1) = foreign (vheap s)"
    have dst: "vma_inv s dst" "vm_map s dst = vm_map s xs"
      using Cons.prems(2) by (simp_all add: clone_of_def)
    note dst1 = vma_inv_same_list [OF dst(1) s1(2,4,5,3)]
    from vma_destroy_law [OF dst1(1)] obtain s2 where
      "vma_destroy s1 dst = Some (s2, [])" "foreign (vheap s2) = foreign (vheap s) - set (backing (vm_map s xs))"
      by (auto simp: dst1(2) dst(2) s1(5))
    with s1(1) show ?thesis
      by (auto simp: size)
  next
    fix s1 p k assume s1: "vm_kmalloc s ?n = Some (s1, p)" "heap_inv (vheap s1)" "cells s1 = cells s" "p \<noteq> 0" "?n \<le> k"
      "\<forall>j. (p, j) \<notin> allocs (vheap s)" "allocs (vheap s1) = insert (p, k) (allocs (vheap s))"
      "foreign (vheap s1) = foreign (vheap s)"
    define s2 where "s2 = vm_write p (vm_read s1 (vpages v) (vma_npages v)) s1"
    have k: "8 * vma_npages v \<le> k"
      using s1(5) by simp
    note step = clone_step [OF Cons.prems s1(2,3,6,7,8) k, folded s2_def]
    have run: "vma_clone_loop s (v # ys) dst = vma_clone_loop s2 ys (dst @ [v\<lparr>vpages := p\<rparr>])"
      using s1(1,4) step(4) by (simp add: size s2_def)
    have pre: "vma_inv s2 ((xs @ [v]) @ ys)" "clone_of s2 (xs @ [v]) (dst @ [v\<lparr>vpages := p\<rparr>])"
      "vpages ` set (dst @ [v\<lparr>vpages := p\<rparr>]) \<inter> vpages ` set ((xs @ [v]) @ ys) = {}"
      using step(1,5,6) by simp_all
    have same: "vm_map s2 copied = vm_map s copied" if "xs @ v # ys = copied @ w # rest" for copied w rest
    proof -
      have "vm_map s2 copied @ vm_map s2 (w # rest) = vm_map s copied @ vm_map s (w # rest)"
        using step(2) that by (metis vm_map_append)
      moreover have "length (vm_map s2 copied) = length (vm_map s copied)"
        by (induction copied) (simp_all add: vma_pages_of_def)
      ultimately show ?thesis by simp
    qed
    from Cons.IH [OF pre] same step(2,7) show ?thesis
      unfolding run by fastforce
  qed
qed

lemma vma_clone_law:
  assumes "vma_inv s src"
  shows "\<exists>s' dst ok. vma_clone s src = Some (s', dst, ok) \<and>
     (if ok then vma_inv s' src \<and> vm_map s' src = vm_map s src \<and> vma_inv s' dst \<and> vm_map s' dst = vm_map s src \<and>
        vpages ` set dst \<inter> vpages ` set src = {} \<and> foreign (vheap s') = foreign (vheap s)
      else dst = [] \<and> (\<exists>copied v rest. src = copied @ v # rest \<and>
        foreign (vheap s') = foreign (vheap s) - set (backing (vm_map s copied))))"
proof -
  have "heap_inv (vheap s)"
    using assms by (simp add: vma_inv_def)
  then have "clone_of s [] []"
    by (simp add: clone_of_def vma_inv_def backing_def)
  from vma_clone_loop_law [of s "[]" src, OF _ this] assms show ?thesis
    unfolding vma_clone_def vma_init_def clone_of_def by fastforce
qed

section \<open>Lookup\<close>

lemma vma_find_iff:
  assumes "vma_inv s vs"
  shows "vma_find vs va = Some v \<longleftrightarrow> v \<in> set vs \<and> vstart v \<le> va \<and> va < vend v"
proof
  assume "vma_find vs va = Some v"
  then show "v \<in> set vs \<and> vstart v \<le> va \<and> va < vend v"
    by (auto elim: vma_find_split)
next
  assume v: "v \<in> set vs \<and> vstart v \<le> va \<and> va < vend v"
  then obtain xs ys where vs: "vs = xs @ v # ys"
    by (auto simp: in_set_conv_decomp)
  then have "\<forall>x \<in> set xs. vend x \<le> vstart v"
    using assms by (auto simp: vma_inv_def sorted_wrt_append)
  then have "\<forall>x \<in> set xs. \<not> (vstart x \<le> va \<and> va < vend x)"
    using v by auto
  then show "vma_find vs va = Some v"
    using v unfolding vs vma_find_def by (induction xs) auto
qed

lemma page_index:
  assumes "vma_ok v" and "vstart v \<le> va" and "va < vend v"
  shows "va div 4096 * 4096 = vstart v + 4096 * ((va - vstart v) div 4096)" and "(va - vstart v) div 4096 < vma_npages v"
proof -
  obtain k where k: "vstart v = 4096 * k"
    using assms(1) by (auto simp: vma_ok_def mod_eq_0_iff_dvd elim!: dvdE)
  define d where "d = va - vstart v"
  have va: "va = d + k * 4096"
    using assms(2) by (simp add: d_def k)
  have "va div 4096 = d div 4096 + k"
    unfolding va by simp
  then show "va div 4096 * 4096 = vstart v + 4096 * ((va - vstart v) div 4096)"
    by (simp add: d_def k)
  show "(va - vstart v) div 4096 < vma_npages v"
    using vma_npages_end [OF assms(1)] assms(2,3) by (intro less_mult_imp_div_less) simp
qed

section \<open>Properties\<close>

text \<open>
  The state of the witnesses: one four-page area whose array is the 112-byte block of the demo
  heap, with its second page faulted in.
\<close>

definition demo_page :: nat where
  "demo_page = snd (pmm_allocate_page (pool demo_heap1))"

definition demo_vm :: vm where
  "demo_vm = \<lparr>vheap = demo_heap1\<lparr>pool := fst (pmm_allocate_page (pool demo_heap1))\<rparr>,
     cells = (\<lambda>_. 0)(0xFFFF000040004028 := demo_page)\<rparr>"

definition demo_vmas :: "vma list" where
  "demo_vmas = [\<lparr>vstart = 0x400000, vend = 0x404000, vprot = 3, vflags = 1, vpages = 0xFFFF000040004020\<rparr>]"

lemma demo_page_nonzero: "demo_page \<noteq> 0"
proof -
  have inv: "pmm_inv (pool demo_heap1)"
    using demo_heap1_inv(1) by (simp add: heap_inv_def heap_regions_ok_def)
  have pool: "pool demo_heap1 = pmm_take_run demo_pmm 4 256"
    by (simp add: demo_heap1_def demo_heap_def heap_init_def demo_pmm_run register_region_def
        phys_to_virt_def u64_def KERNEL_VA_OFFSET_def Let_def)
  have free: "\<not> bitmap_test 260 (pool demo_heap1)" "260 < total_pages (pool demo_heap1)"
    unfolding pool by (simp_all add: demo_pmm_test demo_pmm_fields frame_simps)
  from inv show ?thesis
  proof (rule pmm_allocate_page_cases)
    assume "\<forall>n < total_pages (pool demo_heap1). bitmap_test n (pool demo_heap1)"
    with free show ?thesis by blast
  next
    fix n assume "n < total_pages (pool demo_heap1)"
      "pmm_allocate_page (pool demo_heap1) = (pmm_take (pool demo_heap1) n, frame_addr (pool demo_heap1) n)"
    with frame_addr_bounds(3) [OF inv] show ?thesis by (simp add: demo_page_def)
  qed
qed

lemma demo_vm_pages:
  "vm_map demo_vm demo_vmas = [(0x400000, 3, 1, 0), (0x401000, 3, 1, demo_page), (0x402000, 3, 1, 0), (0x403000, 3, 1, 0)]"
proof -
  have "[0..<4] = [0, 1, 2, 3 :: nat]"
    by code_simp
  then show ?thesis
    by (simp add: vm_map_def vma_pages_of_def demo_vmas_def demo_vm_def vma_npages_def sub64_def)
qed

lemma demo_vm_inv: "vma_inv demo_vm demo_vmas"
proof -
  note acq = heap_acquire_law [OF demo_heap1_inv(1) surjective_pairing]
  have heap: "heap_inv (vheap demo_vm)" "allocs (vheap demo_vm) = {(0xFFFF000040004020, 112)}"
    "demo_page \<in> foreign (vheap demo_vm)"
    using acq demo_page_nonzero demo_heap1_inv(2) by (auto simp: demo_vm_def demo_page_def)
  have "backing (vm_map demo_vm demo_vmas) = [demo_page]"
    using demo_page_nonzero by (simp add: demo_vm_pages backing_def)
  with heap show ?thesis
    by (simp add: vma_inv_def demo_vmas_def vma_ok_def array_ok_def vma_npages_def sub64_def)
qed

text \<open>
  C11. Unmapping refines removal on the abstract address space: \<^verbatim>\<open>vma_unmap_range\<close> always
  returns, keeps the invariant and every foreign heap block; on success exactly the pages of the
  range are gone, exactly their backing pages are released, and the result counts them; on
  failure the address space is unchanged.
\<close>
theorem vma_unmap_range_refines:
  assumes "vma_inv s vs" and "start < fin"
  shows "\<exists>s' vs' r. vma_unmap_range s vs start fin = Some (s', vs', r) \<and> vma_inv s' vs' \<and> vm_frame s vs s' vs' \<and>
    (case r of
       None \<Rightarrow> vm_map s' vs' = vm_map s vs \<and> foreign (vheap s') = foreign (vheap s)
     | Some n \<Rightarrow>
         vm_map s' vs' = filter (\<lambda>pg. \<not> page_in start fin pg) (vm_map s vs) \<and>
         foreign (vheap s') = foreign (vheap s) - set (backing (filter (page_in start fin) (vm_map s vs))) \<and>
         n = length (backing (filter (page_in start fin) (vm_map s vs))))"
  using assms by (rule vma_unmap_range_law)

theorem vma_unmap_range_refines_witness:
  "\<exists>s' vs' r. vma_unmap_range demo_vm demo_vmas 0x401000 0x402000 = Some (s', vs', r) \<and> vma_inv s' vs' \<and>
     (r = None \<or> r = Some 1 \<and> map fst (vm_map s' vs') = [0x400000, 0x402000, 0x403000])"
  using vma_unmap_range_refines [OF demo_vm_inv, of "0x401000" "0x402000"] demo_page_nonzero
  by (fastforce simp: demo_vm_pages page_in_def backing_def split: option.splits)

text \<open>
  C23. Re-protecting refines a pointwise update: on success exactly the pages of the range carry
  the new protection, with addresses, flags and backing pages unchanged; on failure nothing
  changes. No physical page is gained or lost either way.
\<close>
theorem vma_protect_range_refines:
  assumes "vma_inv s vs" and "start < fin"
  shows "\<exists>s' vs' r. vma_protect_range s vs start fin prot = Some (s', vs', r) \<and> vma_inv s' vs' \<and>
    vm_frame s vs s' vs' \<and> foreign (vheap s') = foreign (vheap s) \<and>
    vm_map s' vs' = (if r = None then vm_map s vs else map (set_prot start fin prot) (vm_map s vs))"
  using assms by (rule vma_protect_range_law)

theorem vma_protect_range_refines_witness:
  "\<exists>s' vs' r. vma_protect_range demo_vm demo_vmas 0x402000 0x404000 1 = Some (s', vs', r) \<and>
     (r = None \<or> vm_map s' vs' = [(0x400000, 3, 1, 0), (0x401000, 3, 1, demo_page), (0x402000, 1, 1, 0), (0x403000, 1, 1, 0)])"
  using vma_protect_range_refines [OF demo_vm_inv, of "0x402000" "0x404000" "1"]
  by (fastforce simp: demo_vm_pages set_prot_def)

text \<open>
  C24. \<^verbatim>\<open>vma_add\<close> either leaves the list as it was, or inserts one area at its place in the
  address order: the abstract address space gains exactly the blank pages of the new range, and
  the returned area is the new one.
\<close>
theorem vma_add_correct:
  assumes "vma_inv s vs" and "fin < 2 ^ 64"
  shows "\<exists>s' vs' r. vma_add s vs start fin prot flags = Some (s', vs', r) \<and> vma_inv s' vs' \<and>
    vm_frame s vs s' vs' \<and> foreign (vheap s') = foreign (vheap s) \<and>
    (case r of
       None \<Rightarrow> vs' = vs \<and> vm_map s' vs' = vm_map s vs
     | Some v \<Rightarrow> vstart v = start \<and> vend v = fin \<and> vprot v = prot \<and> vflags v = flags \<and>
         (\<exists>as bs. vs = as @ bs \<and> vs' = as @ v # bs \<and>
            vm_map s' vs' = vm_map s as @ blank_pages start fin prot flags @ vm_map s bs))"
  using assms by (rule vma_add_law)

theorem vma_add_correct_witness:
  "\<exists>s' vs' r. vma_add demo_vm demo_vmas 0x500000 0x502000 1 1 = Some (s', vs', r) \<and> vma_inv s' vs'"
  using vma_add_correct [OF demo_vm_inv, of "0x502000" "0x500000" "1" "1"] by fastforce

text \<open>
  \<^verbatim>\<open>vma_destroy\<close> returns exactly what the set owns: every resident page goes back to
  the memory manager, every page array back to the heap, and nothing else is touched.
\<close>
theorem vma_destroy_releases:
  assumes "vma_inv s vs"
  shows "\<exists>s'. vma_destroy s vs = Some (s', []) \<and> heap_inv (vheap s') \<and>
    foreign (vheap s') = foreign (vheap s) - set (backing (vm_map s vs)) \<and>
    (\<forall>p k. (p, k) \<in> allocs (vheap s') \<longleftrightarrow> (p, k) \<in> allocs (vheap s) \<and> p \<notin> vpages ` set vs)"
  using assms by (rule vma_destroy_law)

theorem vma_destroy_releases_witness:
  "\<exists>s'. vma_destroy demo_vm demo_vmas = Some (s', []) \<and> demo_page \<notin> foreign (vheap s')"
  using vma_destroy_releases [OF demo_vm_inv] demo_page_nonzero
  by (fastforce simp: demo_vm_pages backing_def)



text \<open>
  Lookup agrees with the abstract address space: \<^verbatim>\<open>vma_find\<close> finds an area with
  protection \<open>pr\<close> at \<open>va\<close> exactly when the page of \<open>va\<close> is mapped with that
  protection.
\<close>
theorem vma_find_abstract:
  assumes "vma_inv s vs"
  shows "(\<exists>v. vma_find vs va = Some v \<and> vprot v = pr) \<longleftrightarrow>
    (\<exists>fl pg. (va div 4096 * 4096, pr, fl, pg) \<in> set (vm_map s vs))"
proof
  assume "\<exists>v. vma_find vs va = Some v \<and> vprot v = pr"
  then obtain v where v: "v \<in> set vs" "vstart v \<le> va" "va < vend v" "vprot v = pr"
    using vma_find_iff [OF assms] by auto
  then have "vma_ok v"
    using assms by (simp add: vma_inv_def)
  note page_index [OF this v(2,3)]
  with v show "\<exists>fl pg. (va div 4096 * 4096, pr, fl, pg) \<in> set (vm_map s vs)"
    by (fastforce simp: vm_map_def vma_pages_of_def)
next
  assume "\<exists>fl pg. (va div 4096 * 4096, pr, fl, pg) \<in> set (vm_map s vs)"
  then obtain v fl pg where v: "v \<in> set vs" "(va div 4096 * 4096, pr, fl, pg) \<in> set (vma_pages_of s v)"
    by (auto simp: vm_map_def)
  then have ok: "vma_ok v"
    using assms by (simp add: vma_inv_def)
  have pos: "vstart v \<le> va div 4096 * 4096" "va div 4096 * 4096 < vend v" "vprot v = pr"
    using page_in_area [OF ok v(2)] v(2) by (auto simp: vma_pages_of_def)
  have "vend v mod 4096 = 0"
    using ok by (simp add: vma_ok_def)
  then obtain k where "vend v = 4096 * k"
    by (auto simp: mod_eq_0_iff_dvd elim!: dvdE)
  then have "va < vend v"
    using pos(2) less_mult_imp_div_less [of va k 4096] div_less_iff_less_mult [of 4096 va k]
    by (simp add: mult.commute)
  moreover have "vstart v \<le> va"
    using pos(1) by linarith
  ultimately have "vstart v \<le> va" "va < vend v" by simp_all
  then show "\<exists>v. vma_find vs va = Some v \<and> vprot v = pr"
    using v(1) \<open>vprot v = pr\<close> vma_find_iff [OF assms] by auto
qed

theorem vma_find_abstract_witness:
  "(\<exists>v. vma_find demo_vmas 0x401234 = Some v \<and> vprot v = 3) \<and> \<not> (\<exists>v. vma_find demo_vmas 0x404000 = Some v \<and> vprot v = 3)"
  using vma_find_abstract [OF demo_vm_inv, of "0x401234" "3"] vma_find_abstract [OF demo_vm_inv, of "0x404000" "3"]
  by (auto simp: demo_vm_pages)

end
