(* ===== verification/Mmu.thy ===== *)
theory Mmu
  imports Pmm
begin

text \<open>
  Translation tables, \<^verbatim>\<open>src/src/mm/mmu/mmu.c\<close>. A table page is addressed by its physical
  address, as the descriptors are; \<open>tables t i\<close> is entry \<open>i\<close> of the table at \<open>t\<close>.
  The kernel reads and writes tables through the upper-half alias \<^verbatim>\<open>PHYS_TO_VIRT\<close>, which
  is injective, so the alias does not appear in the model. The system registers the code writes
  and the page numbers it hands to \<^verbatim>\<open>tlbi vae1\<close> are part of the state; what the hardware
  does with them is not.
\<close>

section \<open>Descriptors\<close>

definition PTE_VALID :: "64 word" where "PTE_VALID = 1"
definition PTE_TABLE :: "64 word" where "PTE_TABLE = push_bit 1 1"
definition PTE_BLOCK :: "64 word" where "PTE_BLOCK = 0"
definition PTE_AF :: "64 word" where "PTE_AF = push_bit 10 1"
definition PTE_SH_INNER :: "64 word" where "PTE_SH_INNER = push_bit 8 3"
definition PTE_AP_RW :: "64 word" where "PTE_AP_RW = 0"
definition PTE_AP_RW_EL0 :: "64 word" where "PTE_AP_RW_EL0 = push_bit 6 1"
definition PTE_AP_RO :: "64 word" where "PTE_AP_RO = push_bit 6 2"
definition PTE_AP_RO_EL0 :: "64 word" where "PTE_AP_RO_EL0 = push_bit 6 3"
definition PTE_ATTRIDX :: "64 word \<Rightarrow> 64 word" where "PTE_ATTRIDX idx = push_bit 2 idx"
definition PTE_UXN :: "64 word" where "PTE_UXN = push_bit 54 1"
definition PTE_PXN :: "64 word" where "PTE_PXN = push_bit 53 1"
definition PTE_NG :: "64 word" where "PTE_NG = push_bit 11 1"
definition PTE_ADDR_MASK :: "64 word" where "PTE_ADDR_MASK = 0x0000FFFFFFFFF000"
definition TTBR_BADDR_MASK :: "64 word" where "TTBR_BADDR_MASK = 0x0000FFFFFFFFFFFF"

definition L0_INDEX :: "nat \<Rightarrow> nat" where "L0_INDEX va = va div 2 ^ 39 mod 512"
definition L1_INDEX :: "nat \<Rightarrow> nat" where "L1_INDEX va = va div 2 ^ 30 mod 512"
definition L2_INDEX :: "nat \<Rightarrow> nat" where "L2_INDEX va = va div 2 ^ 21 mod 512"
definition L3_INDEX :: "nat \<Rightarrow> nat" where "L3_INDEX va = va div 2 ^ 12 mod 512"

definition ttbr_pack :: "64 word \<Rightarrow> 16 word \<Rightarrow> 64 word" where
  "ttbr_pack baddr asid = (baddr AND TTBR_BADDR_MASK) OR push_bit 48 (ucast asid)"

definition ttbr_baddr :: "64 word \<Rightarrow> 64 word" where
  "ttbr_baddr ttbr = ttbr AND TTBR_BADDR_MASK"

definition ttbr_asid :: "64 word \<Rightarrow> 16 word" where
  "ttbr_asid ttbr = ucast (drop_bit 48 ttbr)"

definition pte_next_table :: "64 word \<Rightarrow> nat" where
  "pte_next_table entry = unat (entry AND PTE_ADDR_MASK)"

definition pte_valid :: "64 word \<Rightarrow> bool" where
  "pte_valid entry \<longleftrightarrow> entry AND PTE_VALID \<noteq> 0"

section \<open>State\<close>

record sysregs =
  mair_el1 :: "64 word"
  tcr_el1 :: "64 word"
  ttbr0_el1 :: "64 word"
  ttbr1_el1 :: "64 word"
  sctlr_el1 :: "64 word"

record mmu =
  mpool :: pmm
  tables :: "nat \<Rightarrow> nat \<Rightarrow> 64 word"
  l0_table_lo :: nat
  l0_table_hi :: nat
  regs :: sysregs
  tlbi :: "nat list"

definition set_entry :: "nat \<Rightarrow> nat \<Rightarrow> 64 word \<Rightarrow> mmu \<Rightarrow> mmu" where
  "set_entry t i e m = m\<lparr>tables := (tables m)(t := (tables m t)(i := e))\<rparr>"

definition alloc_table :: "mmu \<Rightarrow> mmu \<times> nat" where
  "alloc_table m =
     (let (p, t) = pmm_allocate_page (mpool m) in
      if t = 0 then (m\<lparr>mpool := p\<rparr>, 0)
      else (m\<lparr>mpool := p, tables := (tables m)(t := (\<lambda>_. 0))\<rparr>, t))"

definition table_entry :: "nat \<Rightarrow> 64 word" where
  "table_entry t = of_nat t OR PTE_VALID OR PTE_TABLE"

section \<open>Boot tables\<close>

definition MEM_START :: nat where "MEM_START = 0x40000000"
definition MEM_SIZE :: nat where "MEM_SIZE = 8 * 1024 * 1024 * 1024"

text \<open>One L2 table of 2 MiB blocks: entry \<open>l2i\<close> maps \<open>base + l2i * 2 MiB\<close>.\<close>

definition block_entry :: "nat \<Rightarrow> nat \<Rightarrow> 64 word" where
  "block_entry phys attr =
     of_nat phys OR PTE_VALID OR PTE_BLOCK OR PTE_AF OR PTE_SH_INNER OR PTE_AP_RW OR PTE_ATTRIDX (of_nat attr)"

definition fill_l2_low :: "nat \<Rightarrow> nat \<Rightarrow> mmu \<Rightarrow> mmu" where
  "fill_l2_low l2 l1i m =
     fold (\<lambda>l2i m. let phys = l1i * 0x40000000 + l2i * 0x200000 in
             if phys = 0 then m
             else set_entry l2 l2i (block_entry phys
                    (if MEM_START \<le> phys \<and> phys < MEM_START + MEM_SIZE then 1 else 0)) m) [0..<512] m"

definition fill_l2_high :: "nat \<Rightarrow> nat \<Rightarrow> mmu \<Rightarrow> mmu" where
  "fill_l2_high l2 l1i m =
     fold (\<lambda>l2i m. set_entry l2 l2i (block_entry (0x8000000000 + l1i * 0x40000000 + l2i * 0x200000) 0) m) [0..<512] m"

text \<open>The loop over the 512 entries of one L1 table; \<open>None\<close> is the early return of 0.\<close>

fun fill_l1 :: "(nat \<Rightarrow> nat \<Rightarrow> mmu \<Rightarrow> mmu) \<Rightarrow> nat \<Rightarrow> nat list \<Rightarrow> mmu \<Rightarrow> mmu \<times> bool" where
  "fill_l1 fill l1 [] m = (m, True)"
| "fill_l1 fill l1 (l1i # is) m =
     (let (m1, l2) = alloc_table m in
      if l2 = 0 then (m1, False)
      else fill_l1 fill l1 is (fill l2 l1i (set_entry l1 l1i (table_entry l2) m1)))"

definition build_identity_tables :: "mmu \<Rightarrow> mmu \<times> nat \<times> nat" where
  "build_identity_tables m =
     (let (m1, l0) = alloc_table m in
      if l0 = 0 then (m1, 0, 0)
      else let (m2, l1) = alloc_table m1 in
      if l1 = 0 then (m2, 0, 0)
      else let (m3, ok) = fill_l1 fill_l2_low l1 [0..<512] (set_entry l0 0 (table_entry l1) m2) in
      if \<not> ok then (m3, 0, 0)
      else let (m4, l1_hi) = alloc_table m3 in
      if l1_hi = 0 then (m4, 0, 0)
      else let (m5, ok2) = fill_l1 fill_l2_high l1_hi [0..<512] (set_entry l0 1 (table_entry l1_hi) m4) in
      if \<not> ok2 then (m5, 0, 0) else (m5, l0, l1))"

definition TCR_VALUE :: "64 word" where
  "TCR_VALUE = push_bit 0 16 OR push_bit 8 1 OR push_bit 10 1 OR push_bit 12 3 OR push_bit 14 0 OR
     push_bit 16 16 OR push_bit 24 1 OR push_bit 26 1 OR push_bit 28 3 OR push_bit 30 2 OR
     push_bit 32 2 OR push_bit 36 1"

definition mmu_init :: "mmu \<Rightarrow> mmu \<times> nat" where
  "mmu_init m =
     (let m0 = m\<lparr>regs := (regs m)\<lparr>mair_el1 := push_bit 0 0 OR push_bit 8 0xff\<rparr>\<rparr>;
          (m1, lo, l1) = build_identity_tables m0;
          m2 = m1\<lparr>l0_table_lo := lo\<rparr>
      in if lo = 0 then (m2, 0)
         else let (m3, hi, _) = build_identity_tables m2;
                  m4 = m3\<lparr>l0_table_hi := hi\<rparr>
         in if hi = 0 then (m4, 0)
            else (m4\<lparr>regs := (regs m4)\<lparr>tcr_el1 := TCR_VALUE, ttbr0_el1 := of_nat lo, ttbr1_el1 := of_nat hi,
                   sctlr_el1 := sctlr_el1 (regs m4) OR push_bit 0 1 OR push_bit 2 1 OR push_bit 12 1\<rparr>\<rparr>, l1))"

definition mmu_create_user_tables :: "mmu \<Rightarrow> mmu \<times> nat" where
  "mmu_create_user_tables m = alloc_table m"

section \<open>Walking\<close>

text \<open>One level of \<^verbatim>\<open>walk_levels\<close>: the next table, allocated on demand; 0 is the early return.\<close>

definition walk_next :: "mmu \<Rightarrow> nat \<Rightarrow> nat \<Rightarrow> bool \<Rightarrow> mmu \<times> nat option" where
  "walk_next m t i alloc =
     (if \<not> pte_valid (tables m t i) then
        if \<not> alloc then (m, None)
        else (let (m1, t1) = alloc_table m in
              if t1 = 0 then (m1, None) else (set_entry t i (table_entry t1) m1, Some t1))
      else (m, Some (pte_next_table (tables m t i))))"

fun walk_path :: "mmu \<Rightarrow> nat \<Rightarrow> nat list \<Rightarrow> bool \<Rightarrow> mmu \<times> nat option" where
  "walk_path m t [] alloc = (m, Some t)"
| "walk_path m t (i # is) alloc =
     (case walk_next m t i alloc of
        (m1, None) \<Rightarrow> (m1, None)
      | (m1, Some t1) \<Rightarrow> walk_path m1 t1 is alloc)"

definition walk_levels :: "mmu \<Rightarrow> nat \<Rightarrow> nat \<Rightarrow> nat \<Rightarrow> bool \<Rightarrow> mmu \<times> (nat \<times> nat) option" where
  "walk_levels m l0 va target_level alloc =
     (case walk_path m l0 (if target_level = 2 then [L0_INDEX va, L1_INDEX va]
                           else [L0_INDEX va, L1_INDEX va, L2_INDEX va]) alloc of
        (m1, None) \<Rightarrow> (m1, None)
      | (m1, Some t) \<Rightarrow> (m1, Some (t, if target_level = 2 then L2_INDEX va else L3_INDEX va)))"

section \<open>User mappings\<close>

definition page_entry :: "nat \<Rightarrow> 64 word \<Rightarrow> 64 word" where
  "page_entry pa flags =
     (of_nat pa AND PTE_ADDR_MASK) OR PTE_VALID OR PTE_TABLE OR PTE_AF OR PTE_SH_INNER OR PTE_NG OR flags"

fun map_pages :: "mmu \<Rightarrow> nat \<Rightarrow> nat \<Rightarrow> nat \<Rightarrow> 64 word \<Rightarrow> nat list \<Rightarrow> mmu" where
  "map_pages m l0 va pa flags [] = m"
| "map_pages m l0 va pa flags (i # is) =
     (case walk_levels m l0 (u64 (va + i * PAGE_SIZE)) 3 True of
        (m1, None) \<Rightarrow> m1
      | (m1, Some (t, j)) \<Rightarrow>
          map_pages (set_entry t j (page_entry (u64 (pa + i * PAGE_SIZE)) flags) m1) l0 va pa flags is)"

definition mmu_map_user_range :: "mmu \<Rightarrow> nat \<Rightarrow> nat \<Rightarrow> nat \<Rightarrow> nat \<Rightarrow> 64 word \<Rightarrow> mmu" where
  "mmu_map_user_range m l0 va pa pages flags = map_pages m l0 va pa flags [0..<pages]"

definition VMA_PROT_READ :: "32 word" where "VMA_PROT_READ = 1"
definition VMA_PROT_WRITE :: "32 word" where "VMA_PROT_WRITE = 2"
definition VMA_PROT_EXEC :: "32 word" where "VMA_PROT_EXEC = 4"

definition mmu_prot_to_flags :: "32 word \<Rightarrow> 64 word" where
  "mmu_prot_to_flags prot =
     (let f0 = PTE_ATTRIDX 1 OR PTE_PXN;
          f1 = (if prot AND VMA_PROT_WRITE \<noteq> 0 then f0 OR PTE_AP_RW_EL0
                else f0 OR (if prot AND VMA_PROT_READ \<noteq> 0 then PTE_AP_RO_EL0 else PTE_AP_RO))
      in if prot AND VMA_PROT_EXEC = 0 then f1 OR PTE_UXN else f1)"

text \<open>
  The operands of the \<^verbatim>\<open>tlbi\<close> loop, one per 2 MiB; the counter wraps as in C, so a span
  at the top of the address space never ends.
\<close>

partial_function (option) tlbi_span :: "nat \<Rightarrow> nat \<Rightarrow> nat list option" where
  "tlbi_span g granule_end =
     (if g < granule_end
      then Option.bind (tlbi_span (u64 (g + 0x200000)) granule_end) (\<lambda>ops. Some (g div 4096 # ops))
      else Some [])"

definition invalidate_user_span :: "nat \<Rightarrow> nat \<Rightarrow> mmu \<Rightarrow> mmu option" where
  "invalidate_user_span va pages m =
     (if pages = 0 then Some m
      else Option.bind (tlbi_span (page_align_down va) (page_align_up (u64 (va + pages * PAGE_SIZE))))
             (\<lambda>ops. Some (m\<lparr>tlbi := tlbi m @ ops\<rparr>)))"

definition unmap_page :: "nat \<Rightarrow> nat \<Rightarrow> mmu \<Rightarrow> mmu" where
  "unmap_page l0 a m =
     (case walk_levels m l0 a 3 False of
        (m1, Some (t, j)) \<Rightarrow> if pte_valid (tables m1 t j) then set_entry t j 0 m1 else m1
      | (m1, None) \<Rightarrow> m1)"

definition mmu_unmap_user_range :: "mmu \<Rightarrow> nat \<Rightarrow> nat \<Rightarrow> nat \<Rightarrow> mmu option" where
  "mmu_unmap_user_range m l0 va pages =
     (if l0 = 0 \<or> pages = 0 then Some m
      else invalidate_user_span va pages
             (fold (\<lambda>i. unmap_page l0 (u64 (va + i * PAGE_SIZE))) [0..<pages] m))"

definition PERM_MASK :: "64 word" where
  "PERM_MASK = push_bit 6 3 OR PTE_UXN OR PTE_PXN OR PTE_ATTRIDX 3"

definition protect_page :: "nat \<Rightarrow> 64 word \<Rightarrow> nat \<Rightarrow> mmu \<times> nat \<Rightarrow> mmu \<times> nat" where
  "protect_page l0 flags a = (\<lambda>(m, changed).
     case walk_levels m l0 a 3 False of
       (m1, Some (t, j)) \<Rightarrow>
         if pte_valid (tables m1 t j)
         then (set_entry t j ((tables m1 t j AND NOT PERM_MASK) OR (flags AND PERM_MASK)) m1, changed + 1)
         else (m1, changed)
     | (m1, None) \<Rightarrow> (m1, changed))"

definition mmu_protect_user_range :: "mmu \<Rightarrow> nat \<Rightarrow> nat \<Rightarrow> nat \<Rightarrow> 64 word \<Rightarrow> (mmu \<times> nat) option" where
  "mmu_protect_user_range m l0 va pages flags =
     (if l0 = 0 \<or> pages = 0 then Some (m, 0)
      else (let (m1, changed) = fold (\<lambda>i. protect_page l0 flags (u64 (va + i * PAGE_SIZE))) [0..<pages] (m, 0)
            in Option.bind (invalidate_user_span va pages m1) (\<lambda>m2. Some (m2, changed))))"

section \<open>Teardown\<close>

definition free_table :: "nat \<Rightarrow> mmu \<Rightarrow> mmu" where
  "free_table t m = m\<lparr>mpool := pmm_free_page (mpool m) t\<rparr>"

definition free_l2 :: "nat \<Rightarrow> mmu \<Rightarrow> mmu" where
  "free_l2 l2 m =
     fold (\<lambda>k m. let e = tables m l2 k in
             if \<not> pte_valid e \<or> e AND PTE_TABLE = 0 then m else free_table (pte_next_table e) m) [0..<512] m"

definition free_l1 :: "nat \<Rightarrow> mmu \<Rightarrow> mmu" where
  "free_l1 l1 m =
     fold (\<lambda>j m. let e = tables m l1 j in
             if \<not> pte_valid e \<or> e AND PTE_TABLE = 0 then m
             else free_table (pte_next_table e) (free_l2 (pte_next_table e) m)) [0..<512] m"

definition mmu_free_user_tables :: "nat \<Rightarrow> mmu \<Rightarrow> mmu" where
  "mmu_free_user_tables l0 m =
     free_table l0 (fold (\<lambda>i m. let e = tables m l0 i in
       if \<not> pte_valid e then m else free_table (pte_next_table e) (free_l1 (pte_next_table e) m)) [0..<512] m)"

section \<open>Descriptor arithmetic\<close>

lemmas pte_defs = PTE_VALID_def PTE_TABLE_def PTE_BLOCK_def PTE_AF_def PTE_SH_INNER_def PTE_AP_RW_def
  PTE_AP_RW_EL0_def PTE_AP_RO_def PTE_AP_RO_EL0_def PTE_ATTRIDX_def PTE_UXN_def PTE_PXN_def PTE_NG_def

lemma addr_mask: "PTE_ADDR_MASK = push_bit 12 (mask 36)"
  by (simp add: PTE_ADDR_MASK_def mask_eq_exp_minus_1)

lemma pte_valid_bit: "pte_valid e \<longleftrightarrow> bit e 0"
  by (simp add: pte_valid_def PTE_VALID_def and_one_eq odd_iff_mod_2_eq_one bit_0)

lemma table_entry_valid [simp]: "pte_valid (table_entry t)"
  by (simp add: pte_valid_bit table_entry_def PTE_VALID_def bit_simps)

lemma page_entry_valid [simp]: "pte_valid (page_entry pa flags)"
  by (simp add: pte_valid_bit page_entry_def PTE_VALID_def bit_simps)

lemma table_entry_is_table [simp]: "table_entry t AND PTE_TABLE \<noteq> 0"
proof -
  have "bit (table_entry t AND PTE_TABLE) 1"
    by (simp add: table_entry_def PTE_TABLE_def bit_simps)
  then show ?thesis by (metis bit_0_eq bot_apply bot_bool_def)
qed

lemma pte_valid_0 [simp]: "\<not> pte_valid 0"
  by (simp add: pte_valid_def)

lemma of_nat_page_bit:
  assumes "t mod 4096 = 0" and "t < 2 ^ 48"
  shows "(of_nat t :: 64 word) AND PTE_ADDR_MASK = of_nat t"
proof -
  obtain k where k: "t = k * 4096"
    using assms(1) by (metis div_mult_mod_eq add.right_neutral)
  with assms(2) have "k < 2 ^ 36" by simp
  then have "take_bit 36 k = k"
    by (simp add: take_bit_nat_eq_self_iff)
  moreover have "t = push_bit 12 k"
    by (simp add: k push_bit_eq_mult)
  ultimately have "t = push_bit 12 (take_bit 36 k)" by simp
  then show ?thesis
    unfolding addr_mask
    by (intro bit_word_eqI) (auto simp: bit_simps)
qed

lemma next_table_entry:
  assumes "t mod 4096 = 0" and "t < 2 ^ 48"
  shows "pte_next_table (table_entry t) = t"
proof -
  have "(PTE_VALID OR PTE_TABLE) AND PTE_ADDR_MASK = 0"
    by (simp add: PTE_VALID_def PTE_TABLE_def PTE_ADDR_MASK_def)
  then have "table_entry t AND PTE_ADDR_MASK = of_nat t"
    using of_nat_page_bit [OF assms]
    by (simp add: table_entry_def bit.conj_disj_distrib2 or.assoc [symmetric] or_eq_0_iff)
  then show ?thesis
    using assms(2) by (simp add: pte_next_table_def unsigned_of_nat take_bit_nat_eq_self)
qed

section \<open>The tree of tables\<close>

text \<open>
  \<open>tbl m t p\<close> is the table reached from \<open>t\<close> along the indices \<open>p\<close>, and
  \<open>pte m l0 va\<close> the valid leaf descriptor the hardware walk finds for an address.
\<close>

fun tbl :: "mmu \<Rightarrow> nat \<Rightarrow> nat list \<Rightarrow> nat option" where
  "tbl m t [] = Some t"
| "tbl m t (i # p) = (if pte_valid (tables m t i) then tbl m (pte_next_table (tables m t i)) p else None)"

definition va_path :: "nat \<Rightarrow> nat list" where
  "va_path va = [L0_INDEX va, L1_INDEX va, L2_INDEX va]"

definition pte :: "mmu \<Rightarrow> nat \<Rightarrow> nat \<Rightarrow> 64 word option" where
  "pte m l0 va =
     (case tbl m l0 (va_path va) of
        None \<Rightarrow> None
      | Some t \<Rightarrow> if pte_valid (tables m t (L3_INDEX va)) then Some (tables m t (L3_INDEX va)) else None)"

abbreviation node :: "nat list \<Rightarrow> bool" where
  "node p \<equiv> length p \<le> 3 \<and> set p \<subseteq> {..<512}"

definition table_pages :: "mmu \<Rightarrow> nat \<Rightarrow> nat set" where
  "table_pages m l0 = {t. \<exists>p. node p \<and> tbl m l0 p = Some t}"

definition pt_inv :: "mmu \<Rightarrow> nat \<Rightarrow> bool" where
  "pt_inv m l0 \<longleftrightarrow>
     pmm_inv (mpool m) \<and> mem_region_end (mpool m) \<le> 2 ^ 48 \<and>
     table_pages m l0 \<subseteq> pmm_owned (mpool m) - pmm_pinned (mpool m) \<and>
     (\<forall>p q t. node p \<and> node q \<and> tbl m l0 p = Some t \<and> tbl m l0 q = Some t \<longrightarrow> p = q) \<and>
     (\<forall>p t i. node p \<and> length p \<le> 2 \<and> i < 512 \<and> tbl m l0 p = Some t \<and> pte_valid (tables m t i) \<longrightarrow>
        tables m t i AND PTE_TABLE \<noteq> 0)"

lemma tbl_snoc:
  "tbl m t (p @ [i]) =
     (case tbl m t p of None \<Rightarrow> None
      | Some t' \<Rightarrow> if pte_valid (tables m t' i) then Some (pte_next_table (tables m t' i)) else None)"
  by (induction p arbitrary: t) simp_all

lemma index_less [simp]: "L0_INDEX va < 512" "L1_INDEX va < 512" "L2_INDEX va < 512" "L3_INDEX va < 512"
  by (simp_all add: L0_INDEX_def L1_INDEX_def L2_INDEX_def L3_INDEX_def)

lemma va_path_node [simp]: "length (va_path va) = 3" "set (va_path va) \<subseteq> {..<512}"
  by (simp_all add: va_path_def)

lemma va_path_eq_iff:
  assumes "va < 2 ^ 48" and "vb < 2 ^ 48"
  shows "va_path va = va_path vb \<and> L3_INDEX va = L3_INDEX vb \<longleftrightarrow> va div 4096 = vb div 4096"
proof
  have split: "x div 4096 = ((L0_INDEX x * 512 + L1_INDEX x) * 512 + L2_INDEX x) * 512 + L3_INDEX x"
    if "x < 2 ^ 48" for x :: nat
  proof -
    define y where "y = x div 4096"
    have y: "y div 134217728 < 512"
      using that by (simp add: y_def div_mult2_eq [symmetric] div_less_iff_less_mult)
    have "L0_INDEX x = y div 134217728" "L1_INDEX x = y div 262144 mod 512" "L2_INDEX x = y div 512 mod 512"
        "L3_INDEX x = y mod 512"
      using y by (simp_all add: L0_INDEX_def L1_INDEX_def L2_INDEX_def L3_INDEX_def y_def div_mult2_eq [symmetric])
    moreover have "y = ((y div 134217728 * 512 + y div 262144 mod 512) * 512 + y div 512 mod 512) * 512 + y mod 512"
    proof -
      have "y div 262144 = y div 134217728 * 512 + y div 262144 mod 512"
        using div_mult_mod_eq [of "y div 262144" 512] by (simp add: div_mult2_eq [symmetric])
      moreover have "y div 512 = y div 262144 * 512 + y div 512 mod 512"
        using div_mult_mod_eq [of "y div 512" 512] by (simp add: div_mult2_eq [symmetric])
      moreover have "y = y div 512 * 512 + y mod 512" by simp
      ultimately show ?thesis by metis
    qed
    ultimately show ?thesis by (simp add: y_def)
  qed
  show "va_path va = va_path vb \<and> L3_INDEX va = L3_INDEX vb \<Longrightarrow> va div 4096 = vb div 4096"
    using split [OF assms(1)] split [OF assms(2)] by (simp add: va_path_def)
next
  assume e: "va div 4096 = vb div 4096"
  have r: "x div 2 ^ 39 = x div 4096 div 134217728" "x div 2 ^ 30 = x div 4096 div 262144"
    "x div 2 ^ 21 = x div 4096 div 512" for x :: nat
    by (simp_all add: div_mult2_eq [symmetric])
  show "va_path va = va_path vb \<and> L3_INDEX va = L3_INDEX vb"
    unfolding va_path_def L0_INDEX_def L1_INDEX_def L2_INDEX_def L3_INDEX_def r e by (simp add: e)
qed

lemma pt_invD:
  assumes "pt_inv m l0"
  shows "pmm_inv (mpool m)" "mem_region_end (mpool m) \<le> 2 ^ 48"
    "table_pages m l0 \<subseteq> pmm_owned (mpool m) - pmm_pinned (mpool m)"
    "node p \<Longrightarrow> node q \<Longrightarrow> tbl m l0 p = Some t \<Longrightarrow> tbl m l0 q = Some t \<Longrightarrow> p = q"
    "node p \<Longrightarrow> length p \<le> 2 \<Longrightarrow> i < 512 \<Longrightarrow> tbl m l0 p = Some t \<Longrightarrow> pte_valid (tables m t i) \<Longrightarrow>
       tables m t i AND PTE_TABLE \<noteq> 0"
  using assms unfolding pt_inv_def by blast+

lemma pt_invI:
  assumes "pmm_inv (mpool m)" and "mem_region_end (mpool m) \<le> 2 ^ 48"
    and "table_pages m l0 \<subseteq> pmm_owned (mpool m) - pmm_pinned (mpool m)"
    and "\<And>p q t. node p \<Longrightarrow> node q \<Longrightarrow> tbl m l0 p = Some t \<Longrightarrow> tbl m l0 q = Some t \<Longrightarrow> p = q"
    and "\<And>p t i. node p \<Longrightarrow> length p \<le> 2 \<Longrightarrow> i < 512 \<Longrightarrow> tbl m l0 p = Some t \<Longrightarrow>
      pte_valid (tables m t i) \<Longrightarrow> tables m t i AND PTE_TABLE \<noteq> 0"
  shows "pt_inv m l0"
  unfolding pt_inv_def using assms by blast

lemma tbl_owned:
  "pt_inv m l0 \<Longrightarrow> node p \<Longrightarrow> tbl m l0 p = Some t \<Longrightarrow> t \<in> pmm_owned (mpool m)"
  using pt_invD(3) unfolding table_pages_def by blast

subsection \<open>Updating a leaf\<close>

text \<open>An update of a leaf descriptor changes no table and exactly one translation.\<close>

lemma set_entry_tables [simp]:
  "tables (set_entry t i e m) s j = (if s = t \<and> j = i then e else tables m s j)"
  by (simp add: set_entry_def)

lemma set_entry_mpool [simp]: "mpool (set_entry t i e m) = mpool m"
  by (simp add: set_entry_def)

lemma leaf_tbl:
  assumes "pt_inv m l0" and "node p" and "length p = 3" and "tbl m l0 p = Some t" and "node q"
  shows "tbl (set_entry t i e m) l0 q = tbl m l0 q"
  using assms(5)
proof (induction q rule: rev_induct)
  case (snoc j q)
  then have q: "node q" "length q \<noteq> 3" by auto
  have "tbl m l0 q = Some s \<Longrightarrow> s \<noteq> t" for s
    using pt_invD(4) [OF assms(1,2) q(1) assms(4)] assms(3) q(2) by blast
  with snoc q show ?case
    by (auto simp: tbl_snoc split: option.split)
qed simp

lemma leaf_inv:
  assumes "pt_inv m l0" and "node p" and "length p = 3" and "tbl m l0 p = Some t"
  shows "pt_inv (set_entry t i e m) l0"
proof -
  note T = leaf_tbl [OF assms]
  have tp: "table_pages (set_entry t i e m) l0 = table_pages m l0"
    unfolding table_pages_def using T by (metis (no_types, lifting))
  have "s \<noteq> t" if "node q" "length q \<le> 2" "tbl m l0 q = Some s" for q s
    using pt_invD(4) [OF assms(1,2) that(1) assms(4)] that assms(3) by auto
  then have tb: "tables (set_entry t i e m) s j = tables m s j"
    if "node q" "length q \<le> 2" "tbl m l0 q = Some s" for q s j
    using that by auto
  show ?thesis
  proof (rule pt_invI)
    fix q r s assume "node q" "node r" "tbl (set_entry t i e m) l0 q = Some s" "tbl (set_entry t i e m) l0 r = Some s"
    then show "q = r" using T pt_invD(4) [OF assms(1)] by metis
  next
    fix q s j assume q: "node q" "length q \<le> 2" "j < 512" "tbl (set_entry t i e m) l0 q = Some s"
      "pte_valid (tables (set_entry t i e m) s j)"
    have s: "tbl m l0 q = Some s" using q(4) T [OF q(1)] by simp
    show "tables (set_entry t i e m) s j AND PTE_TABLE \<noteq> 0"
      using pt_invD(5) [OF assms(1) q(1-3) s] q(5) unfolding tb [OF q(1,2) s] by simp
  qed (use pt_invD(1-3) [OF assms(1)] in \<open>simp_all only: set_entry_mpool tp\<close>)
qed

lemma leaf_pte:
  assumes "pt_inv m l0" and "tbl m l0 (va_path va) = Some t" and "va < 2 ^ 48" and "vb < 2 ^ 48"
  shows "pte (set_entry t (L3_INDEX va) e m) l0 vb =
    (if vb div 4096 = va div 4096 then (if pte_valid e then Some e else None) else pte m l0 vb)"
proof -
  have T: "tbl (set_entry t (L3_INDEX va) e m) l0 (va_path vb) = tbl m l0 (va_path vb)"
    by (rule leaf_tbl [OF assms(1) _ _ assms(2)]) auto
  have "s = t \<longleftrightarrow> va_path vb = va_path va" if "tbl m l0 (va_path vb) = Some s" for s
    using pt_invD(4) [OF assms(1), of "va_path vb" "va_path va" t] that assms(2) by auto
  then show ?thesis
    unfolding pte_def T
    using va_path_eq_iff [OF assms(4,3)] assms(2) by (auto split: option.split)
qed

subsection \<open>Inserting a table\<close>

lemma alloc_table_cases:
  assumes "pmm_inv (mpool m)" and "mem_region_end (mpool m) \<le> 2 ^ 48"
  obtains "alloc_table m = (m, 0)" and "pmm_allocate_page (mpool m) = (mpool m, 0)"
  | q t where "pmm_allocate_page (mpool m) = (q, t)" and "t \<noteq> 0" and "t \<notin> pmm_owned (mpool m)"
      and "t mod 4096 = 0" and "t < 2 ^ 48" and "pmm_inv q" and "pmm_pinned q = pmm_pinned (mpool m)"
      and "pmm_owned q = insert t (pmm_owned (mpool m))" and "mem_region_end q = mem_region_end (mpool m)"
      and "alloc_table m = (m\<lparr>mpool := q, tables := (tables m)(t := (\<lambda>_. 0))\<rparr>, t)"
  using assms(1)
proof (rule pmm_allocate_page_cases)
  assume "pmm_allocate_page (mpool m) = (mpool m, 0)"
  with that(1) show thesis by (simp add: alloc_table_def)
next
  fix n assume n: "n < total_pages (mpool m)" "\<not> bitmap_test n (mpool m)"
    "pmm_allocate_page (mpool m) = (pmm_take (mpool m) n, frame_addr (mpool m) n)"
  note law = pmm_allocate_page_law [OF assms(1) n(3)]
  note b = frame_addr_bounds [OF assms(1) n(1)]
  have lt: "frame_addr (mpool m) n < 2 ^ 48"
    using b assms(2) by linarith
  have al: "frame_addr (mpool m) n mod 4096 = 0"
    using assms(1) by (simp add: frame_addr_def pmm_inv_def mod_add_eq [symmetric])
  show thesis
    using law b(3)
    by (intro that(2) [OF n(3) _ _ al lt]) (simp_all add: alloc_table_def n(3) frame_simps)
qed

lemma insert_tbl:
  assumes "pt_inv m l0" and "node (p @ [i])" and "tbl m l0 p = Some t" and "\<not> pte_valid (tables m t i)"
    and "t1 \<notin> pmm_owned (mpool m)" and "t1 mod 4096 = 0" and "t1 < 2 ^ 48"
    and m': "tables m' = (tables m)(t1 := (\<lambda>_. 0), t := (tables m t)(i := table_entry t1))"
    and "node q"
  shows "tbl m' l0 q = (if q = p @ [i] then Some t1 else tbl m l0 q)"
  using assms(9)
proof (induction q rule: rev_induct)
  case (snoc j q)
  have nt: "t1 \<noteq> t"
    using tbl_owned [OF assms(1) _ assms(3)] assms(2,5) by auto
  from snoc have q: "node q" and IH: "tbl m' l0 q = (if q = p @ [i] then Some t1 else tbl m l0 q)"
    by auto
  show ?case
  proof (cases "q = p @ [i]")
    case True
    have "tbl m l0 q = None" "tbl m' l0 q = Some t1"
      using True IH assms(3,4) by (simp_all add: tbl_snoc)
    then have "tbl m l0 (q @ [j]) = None" "tbl m' l0 (q @ [j]) = None"
      using nt by (simp_all add: tbl_snoc m')
    with True show ?thesis by simp
  next
    case False
    then have IH: "tbl m' l0 q = tbl m l0 q" using IH by simp
    have "s \<noteq> t1" "s = t \<longleftrightarrow> q = p" if "tbl m l0 q = Some s" for s
      using tbl_owned [OF assms(1) q that] pt_invD(4) [OF assms(1) q, of p] assms(2,3,5) that by auto
    then show ?thesis
      using assms(3,4) nt
      by (auto simp: tbl_snoc IH m' next_table_entry [OF assms(6,7)] split: option.split)
  qed
qed simp

lemma insert_inv:
  assumes "pt_inv m l0" and "node (p @ [i])" and "tbl m l0 p = Some t" and "\<not> pte_valid (tables m t i)"
    and "t1 \<notin> pmm_owned (mpool m)" and "t1 mod 4096 = 0" and "t1 < 2 ^ 48"
    and "tables m' = (tables m)(t1 := (\<lambda>_. 0), t := (tables m t)(i := table_entry t1))"
    and pool: "pmm_inv (mpool m')" "mem_region_end (mpool m') = mem_region_end (mpool m)"
      "pmm_pinned (mpool m') = pmm_pinned (mpool m)" "pmm_owned (mpool m') = insert t1 (pmm_owned (mpool m))"
  shows "pt_inv m' l0"
proof -
  note T = insert_tbl [OF assms(1-8)]
  have t1: "t1 \<notin> table_pages m l0"
    using pt_invD(3) [OF assms(1)] assms(5) by blast
  have old: "tbl m l0 q \<noteq> Some t1" if "node q" for q
    using t1 that by (auto simp: table_pages_def)
  have "t1 \<notin> pmm_pinned (mpool m)"
    using assms(5) pmm_pinned_owned [OF pt_invD(1) [OF assms(1)]] by blast
  moreover have "table_pages m' l0 \<subseteq> insert t1 (table_pages m l0)"
    by (auto simp: table_pages_def T split: if_splits)
  ultimately have pages: "table_pages m' l0 \<subseteq> pmm_owned (mpool m') - pmm_pinned (mpool m')"
    using pt_invD(3) [OF assms(1)] unfolding pool by blast
  have inj: "q = r" if "node q" "node r" "tbl m' l0 q = Some s" "tbl m' l0 r = Some s" for q r s
    using that T [OF that(1)] T [OF that(2)] old [OF that(1)] old [OF that(2)] pt_invD(4) [OF assms(1) that(1,2)]
    by (auto split: if_splits)
  have "tables m' s j AND PTE_TABLE \<noteq> 0"
    if "node q" "length q \<le> 2" "j < 512" "tbl m' l0 q = Some s" "pte_valid (tables m' s j)" for q s j
    using that T [OF that(1)] pt_invD(5) [OF assms(1) that(1-3)] old [of p] assms(2,3)
    by (auto simp: assms(8) split: if_splits)
  then show ?thesis
    using pages inj pt_invD(2) [OF assms(1)] pool(1,2) by (intro pt_invI) simp_all
qed

lemma insert_pte:
  assumes "pt_inv m l0" and "node (p @ [i])" and "tbl m l0 p = Some t" and "\<not> pte_valid (tables m t i)"
    and "t1 \<notin> pmm_owned (mpool m)" and "t1 mod 4096 = 0" and "t1 < 2 ^ 48"
    and m': "tables m' = (tables m)(t1 := (\<lambda>_. 0), t := (tables m t)(i := table_entry t1))"
  shows "pte m' l0 va = pte m l0 va"
proof -
  have n: "node (va_path va)" by simp
  note T = insert_tbl [OF assms n]
  have t: "t \<in> pmm_owned (mpool m)"
    using tbl_owned [OF assms(1) _ assms(3)] assms(2) by auto
  show ?thesis
  proof (cases "va_path va = p @ [i]")
    case True
    then have "tbl m l0 (va_path va) = None"
      using assms(3,4) by (simp only: tbl_snoc) simp
    moreover have "tbl m' l0 (va_path va) = Some t1"
      using T True by simp
    ultimately show ?thesis
      using t assms(5) unfolding pte_def by (auto simp: m')
  next
    case False
    have "length p < 3" using assms(2) by simp
    then have "s \<noteq> t \<and> s \<noteq> t1" if "tbl m l0 (va_path va) = Some s" for s
      using tbl_owned [OF assms(1) n that] pt_invD(4) [OF assms(1) n, of p] assms(2,3,5) that by auto
    then show ?thesis
      using T False unfolding pte_def by (auto simp: m' split: option.split)
  qed
qed

subsection \<open>The walk\<close>

lemma walk_path_no_alloc: "walk_path m t p False = (m, tbl m t p)"
  by (induction p arbitrary: t) (simp_all add: walk_next_def)

lemma walk_levels_no_alloc:
  "walk_levels m l0 va 3 False = (m, map_option (\<lambda>t. (t, L3_INDEX va)) (tbl m l0 (va_path va)))"
  by (simp add: walk_levels_def walk_path_no_alloc va_path_def split: option.split del: tbl.simps)

text \<open>
  What an allocating walk keeps: the invariant, every translation, and the pages of everybody
  else; a walk that gives up has found the memory manager exhausted.
\<close>

definition grows :: "nat \<Rightarrow> mmu \<Rightarrow> mmu \<Rightarrow> bool" where
  "grows l0 m m' \<longleftrightarrow>
     pt_inv m' l0 \<and> pmm_pinned (mpool m') = pmm_pinned (mpool m) \<and> mem_region_end (mpool m') = mem_region_end (mpool m) \<and>
     pmm_owned (mpool m') - table_pages m' l0 = pmm_owned (mpool m) - table_pages m l0 \<and>
     pmm_owned (mpool m) \<subseteq> pmm_owned (mpool m') \<and>
     l0_table_lo m' = l0_table_lo m \<and> l0_table_hi m' = l0_table_hi m \<and> regs m' = regs m \<and> tlbi m' = tlbi m"

lemma grows_refl: "pt_inv m l0 \<Longrightarrow> grows l0 m m"
  by (simp add: grows_def)

lemma grows_trans: "grows l0 m m1 \<Longrightarrow> grows l0 m1 m2 \<Longrightarrow> grows l0 m m2"
  using subset_trans [of "pmm_owned (mpool m)" "pmm_owned (mpool m1)" "pmm_owned (mpool m2)"]
  by (simp add: grows_def)

lemma walk_next_law:
  assumes "pt_inv m l0" and "node (p @ [i])" and "tbl m l0 p = Some t" and "walk_next m t i True = (m1, r)"
  shows "grows l0 m m1 \<and> (\<forall>va. pte m1 l0 va = pte m l0 va) \<and>
    (case r of None \<Rightarrow> pmm_allocate_page (mpool m1) = (mpool m1, 0) | Some t1 \<Rightarrow> tbl m1 l0 (p @ [i]) = Some t1)"
proof (cases "pte_valid (tables m t i)")
  case True
  then show ?thesis
    using assms by (auto simp: walk_next_def tbl_snoc grows_refl)
next
  case False
  show ?thesis
    using pt_invD(1,2) [OF assms(1)]
  proof (rule alloc_table_cases)
    assume "alloc_table m = (m, 0)" and "pmm_allocate_page (mpool m) = (mpool m, 0)"
    then show ?thesis
      using assms False by (auto simp: walk_next_def grows_refl)
  next
    fix q t1
    assume a: "pmm_allocate_page (mpool m) = (q, t1)" "t1 \<noteq> 0" "t1 \<notin> pmm_owned (mpool m)" "t1 mod 4096 = 0"
      "t1 < 2 ^ 48" "pmm_inv q" "pmm_pinned q = pmm_pinned (mpool m)"
      "pmm_owned q = insert t1 (pmm_owned (mpool m))" "mem_region_end q = mem_region_end (mpool m)"
      "alloc_table m = (m\<lparr>mpool := q, tables := (tables m)(t1 := (\<lambda>_. 0))\<rparr>, t1)"
    have nt: "t \<noteq> t1"
      using tbl_owned [OF assms(1) _ assms(3)] assms(2) a(3) by auto
    have m1: "m1 = set_entry t i (table_entry t1) (m\<lparr>mpool := q, tables := (tables m)(t1 := (\<lambda>_. 0))\<rparr>)"
      and r: "r = Some t1"
      using assms(4) False a(2,10) by (simp_all add: walk_next_def)
    have tb: "tables m1 = (tables m)(t1 := (\<lambda>_. 0), t := (tables m t)(i := table_entry t1))"
      and pool: "mpool m1 = q"
      unfolding m1 using nt by (auto simp: set_entry_def fun_eq_iff)
    note I = insert_inv [OF assms(1-3) False a(3-5) tb] insert_tbl [OF assms(1-3) False a(3-5) tb]
      insert_pte [OF assms(1-3) False a(3-5) tb]
    have "pt_inv m1 l0"
      by (rule I(1)) (simp_all add: pool a)
    moreover have "table_pages m1 l0 = insert t1 (table_pages m l0)"
    proof -
      have none: "tbl m l0 (p @ [i]) = None"
        using assms(3) False by (simp add: tbl_snoc)
      have new: "tbl m1 l0 (p @ [i]) = Some t1"
        using I(2) [OF assms(2)] by simp
      have old: "tbl m1 l0 q = Some s" if "node q" "tbl m l0 q = Some s" for q s
        using I(2) [OF that(1)] that(2) none by auto
      have "tbl m l0 q = Some s \<or> s = t1" if "node q" "tbl m1 l0 q = Some s" for q s
        using I(2) [OF that(1)] that(2) by (auto split: if_splits)
      then show ?thesis
        unfolding table_pages_def using new old assms(2) by blast
    qed
    moreover have "tbl m1 l0 (p @ [i]) = Some t1"
      using I(2) [OF assms(2)] by simp
    ultimately show ?thesis
      using I(3) a(3,7-9) unfolding grows_def r pool by (auto simp: m1 set_entry_def)
  qed
qed

lemma walk_path_law:
  assumes "pt_inv m l0" and "node (p @ is)" and "tbl m l0 p = Some t" and "walk_path m t is True = (m1, r)"
  shows "grows l0 m m1 \<and> (\<forall>va. pte m1 l0 va = pte m l0 va) \<and>
    (case r of None \<Rightarrow> pmm_allocate_page (mpool m1) = (mpool m1, 0) | Some t1 \<Rightarrow> tbl m1 l0 (p @ is) = Some t1)"
  using assms
proof (induction "is" arbitrary: m p t)
  case Nil
  then have "m1 = m" "r = Some t" by simp_all
  with Nil show ?case by (simp add: grows_refl)
next
  case (Cons i "is")
  obtain m2 r2 where w: "walk_next m t i True = (m2, r2)" by fastforce
  have n: "node (p @ [i])" using Cons.prems(2) by auto
  note L = walk_next_law [OF Cons.prems(1) n Cons.prems(3) w]
  show ?case
  proof (cases r2)
    case None
    then show ?thesis using L Cons.prems(4) w by auto
  next
    case (Some t2)
    have inv: "pt_inv m2 l0" and t2: "tbl m2 l0 (p @ [i]) = Some t2"
      using L Some by (simp_all add: grows_def)
    have "walk_path m2 t2 is True = (m1, r)"
      using Cons.prems(4) w Some by simp
    have app: "(p @ [i]) @ is = p @ i # is" by simp
    from Cons.IH [OF inv, of "p @ [i]" t2, unfolded app, OF Cons.prems(2) t2 \<open>walk_path m2 t2 is True = (m1, r)\<close>]
    show ?thesis
      using L grows_trans [of l0 m m2 m1] by (simp only:) simp
  qed
qed

lemma walk_levels_law:
  assumes "pt_inv m l0" and "walk_levels m l0 va 3 True = (m1, r)"
  shows "grows l0 m m1 \<and> (\<forall>vb. pte m1 l0 vb = pte m l0 vb) \<and>
    (case r of None \<Rightarrow> pmm_allocate_page (mpool m1) = (mpool m1, 0)
     | Some (t, j) \<Rightarrow> tbl m1 l0 (va_path va) = Some t \<and> j = L3_INDEX va)"
proof -
  obtain r0 where "walk_path m l0 (va_path va) True = (m1, r0)"
    and "r = map_option (\<lambda>t. (t, L3_INDEX va)) r0"
    using assms(2) by (auto simp: walk_levels_def va_path_def split: prod.splits option.splits simp del: walk_path.simps)
  then show ?thesis
    using walk_path_law [OF assms(1), of "[]" "va_path va" l0 m1 r0]
    by (auto split: option.splits simp del: walk_path.simps)
qed

section \<open>Mapping, unmapping and protecting ranges\<close>

lemma grows_leaf:
  assumes "pt_inv m l0" and "tbl m l0 (va_path va) = Some t"
  shows "grows l0 m (set_entry t i e m)"
proof -
  have n: "node (va_path va)" "length (va_path va) = 3" by simp_all
  have "table_pages (set_entry t i e m) l0 = table_pages m l0"
    unfolding table_pages_def using leaf_tbl [OF assms(1) n assms(2)] by (metis (no_types, lifting))
  then show ?thesis
    using leaf_inv [OF assms(1) n assms(2)] by (simp add: grows_def set_entry_def)
qed

lemma page_step:
  assumes "va mod 4096 = 0" and "va + k * 4096 < 2 ^ 48"
  shows "(va + k * 4096) div 4096 = va div 4096 + k" and "u64 (va + k * 4096) = va + k * 4096"
  using assms(2) by (simp_all add: u64_def)

lemma page_in_range:
  fixes va vb n :: nat
  assumes "va mod 4096 = 0"
  shows "va \<le> vb \<and> vb < va + n * 4096 \<longleftrightarrow> va div 4096 \<le> vb div 4096 \<and> vb div 4096 < va div 4096 + n"
proof -
  obtain k where "va = k * 4096"
    using assms by (metis div_mult_mod_eq add.right_neutral)
  then show ?thesis
    using div_less_iff_less_mult [of 4096 vb "k + n"] less_eq_div_iff_mult_less_eq [of 4096 k vb]
    by (simp add: distrib_right)
qed

lemma map_pages_law:
  assumes "pt_inv m l0" and "va mod 4096 = 0" and "va + n * 4096 \<le> 2 ^ 48" and "pa + n * 4096 \<le> 2 ^ 48"
    and "s \<le> n" and "map_pages m l0 va pa flags [s..<n] = m'"
  shows "\<exists>k. s \<le> k \<and> k \<le> n \<and> grows l0 m m' \<and>
    (\<forall>vb < 2 ^ 48. pte m' l0 vb =
       (if va div 4096 + s \<le> vb div 4096 \<and> vb div 4096 < va div 4096 + k
        then Some (page_entry (pa + (vb div 4096 - va div 4096) * 4096) flags) else pte m l0 vb)) \<and>
    (k < n \<longrightarrow> pmm_allocate_page (mpool m') = (mpool m', 0))"
  using assms(1,5,6)
proof (induction "n - s" arbitrary: s m)
  case 0
  then show ?case by (intro exI [of _ n]) (auto simp: grows_refl)
next
  case (Suc d)
  have s: "s < n" using Suc.hyps(2) by simp
  have b: "va + s * 4096 < 2 ^ 48" "pa + s * 4096 < 2 ^ 64"
    using s assms(3,4) by simp_all
  note va = page_step [OF assms(2) b(1)]
  have pa: "u64 (pa + s * 4096) = pa + s * 4096"
    using b(2) by (simp add: u64_def)
  obtain m1 r where w: "walk_levels m l0 (va + s * 4096) 3 True = (m1, r)" by fastforce
  note L = walk_levels_law [OF Suc.prems(1) w]
  show ?case
  proof (cases r)
    case None
    then have "m' = m1"
      using Suc.prems(3) w s by (simp add: upt_conv_Cons va)
    then show ?thesis using L None s by (intro exI [of _ s]) auto
  next
    case (Some tj)
    then obtain t where r: "r = Some (t, L3_INDEX (va + s * 4096))"
      and t: "tbl m1 l0 (va_path (va + s * 4096)) = Some t"
      using L by (cases tj) auto
    define m2 where "m2 = set_entry t (L3_INDEX (va + s * 4096)) (page_entry (pa + s * 4096) flags) m1"
    have inv1: "pt_inv m1 l0" using L by (simp add: grows_def)
    have g2: "grows l0 m m2"
      using L grows_leaf [OF inv1 t] unfolding m2_def by (blast intro: grows_trans)
    then have inv2: "pt_inv m2 l0" by (simp add: grows_def)
    have p2: "pte m2 l0 vb = (if vb div 4096 = va div 4096 + s then Some (page_entry (pa + s * 4096) flags)
        else pte m l0 vb)" if "vb < 2 ^ 48" for vb
      unfolding m2_def using leaf_pte [OF inv1 t b(1) that] L va(1) by simp
    have "map_pages m2 l0 va pa flags [Suc s..<n] = m'"
      using Suc.prems(3) w s r by (simp add: upt_conv_Cons va pa m2_def)
    moreover have "d = n - Suc s" "Suc s \<le> n" using Suc.hyps(2) by simp_all
    ultimately obtain k where k: "Suc s \<le> k" "k \<le> n" "grows l0 m2 m'"
      "\<And>vb. vb < 2 ^ 48 \<Longrightarrow> pte m' l0 vb =
       (if va div 4096 + Suc s \<le> vb div 4096 \<and> vb div 4096 < va div 4096 + k
        then Some (page_entry (pa + (vb div 4096 - va div 4096) * 4096) flags) else pte m2 l0 vb)"
      "k < n \<longrightarrow> pmm_allocate_page (mpool m') = (mpool m', 0)"
      using Suc.hyps(1) [OF _ inv2, of "Suc s"] by blast
    have "pte m' l0 vb =
       (if va div 4096 + s \<le> vb div 4096 \<and> vb div 4096 < va div 4096 + k
        then Some (page_entry (pa + (vb div 4096 - va div 4096) * 4096) flags) else pte m l0 vb)"
      if "vb < 2 ^ 48" for vb
      using k(1) by (auto simp: k(4) [OF that] p2 [OF that])
    then show ?thesis
      using k grows_trans [OF g2 k(3)] by (intro exI [of _ k]) simp
  qed
qed

lemma pte_cong:
  assumes "va < 2 ^ 48" and "vb < 2 ^ 48" and "vb div 4096 = va div 4096"
  shows "pte m l0 vb = pte m l0 va"
proof -
  have "va_path vb = va_path va" "L3_INDEX vb = L3_INDEX va"
    using va_path_eq_iff [OF assms(2,1)] assms(3) by simp_all
  then show ?thesis by (simp only: pte_def)
qed

lemma unmap_page_law:
  assumes "pt_inv m l0" and "va < 2 ^ 48"
  shows "grows l0 m (unmap_page l0 va m) \<and>
    (\<forall>vb < 2 ^ 48. pte (unmap_page l0 va m) l0 vb = (if vb div 4096 = va div 4096 then None else pte m l0 vb))"
proof (cases "pte m l0 va")
  case None
  then have "unmap_page l0 va m = m"
    by (auto simp: unmap_page_def walk_levels_no_alloc pte_def split: option.splits if_splits)
  moreover note pte_cong [OF assms(2), of _ m l0]
  ultimately show ?thesis using None assms(1) by (auto simp: grows_refl)
next
  case (Some e)
  then obtain t where t: "tbl m l0 (va_path va) = Some t" "pte_valid (tables m t (L3_INDEX va))"
    by (auto simp: pte_def split: option.splits if_splits)
  then have "unmap_page l0 va m = set_entry t (L3_INDEX va) 0 m"
    by (simp add: unmap_page_def walk_levels_no_alloc)
  then show ?thesis
    using grows_leaf [OF assms(1) t(1)] leaf_pte [OF assms(1) t(1) assms(2)] by simp
qed

lemma protect_page_law:
  assumes "pt_inv m l0" and "va < 2 ^ 48" and "protect_page l0 flags va (m, c) = (m', c')"
  shows "grows l0 m m' \<and> c' = c + (if pte m l0 va = None then 0 else 1) \<and>
    (\<forall>vb < 2 ^ 48. pte m' l0 vb = (if vb div 4096 = va div 4096
       then map_option (\<lambda>e. (e AND NOT PERM_MASK) OR (flags AND PERM_MASK)) (pte m l0 vb) else pte m l0 vb))"
proof (cases "pte m l0 va")
  case None
  then have "protect_page l0 flags va (m, c) = (m, c)"
    by (auto simp: protect_page_def walk_levels_no_alloc pte_def split: option.splits if_splits)
  moreover note pte_cong [OF assms(2), of _ m l0]
  ultimately show ?thesis using None assms by (auto simp: grows_refl)
next
  case (Some e)
  then obtain t where t: "tbl m l0 (va_path va) = Some t" "pte_valid (tables m t (L3_INDEX va))"
    and e: "e = tables m t (L3_INDEX va)"
    by (auto simp: pte_def split: option.splits if_splits)
  have m': "m' = set_entry t (L3_INDEX va) ((e AND NOT PERM_MASK) OR (flags AND PERM_MASK)) m" "c' = c + 1"
    using t e assms(3) by (simp_all add: protect_page_def walk_levels_no_alloc)
  have "pte_valid ((e AND NOT PERM_MASK) OR (flags AND PERM_MASK))"
    using t(2) e by (simp add: pte_valid_bit bit_simps PERM_MASK_def pte_defs)
  moreover note pte_cong [OF assms(2), of _ m l0]
  ultimately show ?thesis
    using grows_leaf [OF assms(1) t(1)] leaf_pte [OF assms(1) t(1) assms(2)] Some unfolding m' by simp
qed

lemma unmap_pages_law:
  assumes "pt_inv m l0" and "va mod 4096 = 0" and "va + n * 4096 \<le> 2 ^ 48"
  defines "m' \<equiv> fold (\<lambda>i. unmap_page l0 (u64 (va + i * 4096))) [0..<n] m"
  shows "grows l0 m m' \<and>
    (\<forall>vb < 2 ^ 48. pte m' l0 vb =
       (if va div 4096 \<le> vb div 4096 \<and> vb div 4096 < va div 4096 + n then None else pte m l0 vb))"
  using assms(3) unfolding m'_def
proof (induction n)
  case 0
  show ?case using assms(1) by (auto simp: grows_refl)
next
  case (Suc n)
  let ?m = "fold (\<lambda>i. unmap_page l0 (u64 (va + i * 4096))) [0..<n] m"
  have b: "va + n * 4096 < 2 ^ 48" using Suc.prems by simp
  note va = page_step [OF assms(2) b]
  have IH: "grows l0 m ?m" "\<And>vb. vb < 2 ^ 48 \<Longrightarrow> pte ?m l0 vb =
       (if va div 4096 \<le> vb div 4096 \<and> vb div 4096 < va div 4096 + n then None else pte m l0 vb)"
    using Suc.IH b by auto
  have U: "grows l0 ?m (unmap_page l0 (va + n * 4096) ?m)"
    "\<And>vb. vb < 2 ^ 48 \<Longrightarrow> pte (unmap_page l0 (va + n * 4096) ?m) l0 vb =
      (if vb div 4096 = (va + n * 4096) div 4096 then None else pte ?m l0 vb)"
    using unmap_page_law [OF _ b, of ?m l0] IH(1) by (auto simp: grows_def)
  show ?case
    using grows_trans [OF IH(1) U(1)] by (auto simp: va U(2) IH(2) simp del: fold_simps)
qed

definition perm_update :: "64 word \<Rightarrow> 64 word \<Rightarrow> 64 word" where
  "perm_update flags e = (e AND NOT PERM_MASK) OR (flags AND PERM_MASK)"

lemma protect_pages_law:
  assumes "pt_inv m l0" and "va mod 4096 = 0" and "va + n * 4096 \<le> 2 ^ 48"
    and "fold (\<lambda>i. protect_page l0 flags (u64 (va + i * 4096))) [0..<n] (m, 0) = (m', c)"
  shows "grows l0 m m' \<and> c = card {i. i < n \<and> pte m l0 (va + i * 4096) \<noteq> None} \<and>
    (\<forall>vb < 2 ^ 48. pte m' l0 vb =
       (if va div 4096 \<le> vb div 4096 \<and> vb div 4096 < va div 4096 + n
        then map_option (perm_update flags) (pte m l0 vb) else pte m l0 vb))"
  using assms(3,4)
proof (induction n arbitrary: m' c)
  case 0
  then show ?case using assms(1) by (auto simp: grows_refl)
next
  case (Suc n)
  obtain m1 c1 where f: "fold (\<lambda>i. protect_page l0 flags (u64 (va + i * 4096))) [0..<n] (m, 0) = (m1, c1)"
    by fastforce
  have b: "va + n * 4096 < 2 ^ 48" using Suc.prems(1) by simp
  note va = page_step [OF assms(2) b]
  have IH: "grows l0 m m1" "c1 = card {i. i < n \<and> pte m l0 (va + i * 4096) \<noteq> None}"
    "\<And>vb. vb < 2 ^ 48 \<Longrightarrow> pte m1 l0 vb =
       (if va div 4096 \<le> vb div 4096 \<and> vb div 4096 < va div 4096 + n
        then map_option (perm_update flags) (pte m l0 vb) else pte m l0 vb)"
    using Suc.IH [OF _ f] b by auto
  have inv: "pt_inv m1 l0" using IH(1) by (simp add: grows_def)
  have "protect_page l0 flags (va + n * 4096) (m1, c1) = (m', c)"
    using Suc.prems(2) f va by simp
  from protect_page_law [OF inv b this] have P: "grows l0 m1 m'"
    "c = c1 + (if pte m1 l0 (va + n * 4096) = None then 0 else 1)"
    "\<And>vb. vb < 2 ^ 48 \<Longrightarrow> pte m' l0 vb = (if vb div 4096 = (va + n * 4096) div 4096
       then map_option (perm_update flags) (pte m1 l0 vb) else pte m1 l0 vb)"
    by (simp_all add: perm_update_def [abs_def])
  have "pte m1 l0 (va + n * 4096) = pte m l0 (va + n * 4096)"
    using IH(3) [OF b] va(1) by simp
  moreover have "{i. i < Suc n \<and> pte m l0 (va + i * 4096) \<noteq> None} =
      {i. i < n \<and> pte m l0 (va + i * 4096) \<noteq> None} \<union> (if pte m l0 (va + n * 4096) = None then {} else {n})"
    by (auto simp: less_Suc_eq)
  ultimately have "c = card {i. i < Suc n \<and> pte m l0 (va + i * 4096) \<noteq> None}"
    by (simp add: P(2) IH(2) card_insert_if)
  then show ?case
    using grows_trans [OF IH(1) P(1)] by (auto simp: P(3) IH(3) va)
qed

section \<open>Invalidation\<close>

lemma tlbi_span_returns:
  assumes "e \<le> 2 ^ 63"
  shows "\<exists>ops. tlbi_span g e = Some ops"
proof (induction "e - g" arbitrary: g rule: less_induct)
  case less
  show ?case
  proof (cases "g < e")
    case True
    then have u: "u64 (g + 0x200000) = g + 0x200000"
      using assms by (simp add: u64_def)
    have "e - (g + 0x200000) < e - g" using True by simp
    from less [OF this] obtain ops where "tlbi_span (g + 0x200000) e = Some ops" by blast
    then show ?thesis
      using True u by (subst tlbi_span.simps) simp
  qed (subst tlbi_span.simps, simp)
qed

lemma invalidate_returns:
  assumes "va + n * 4096 \<le> 2 ^ 48"
  obtains ops where "invalidate_user_span va n m = Some (m\<lparr>tlbi := tlbi m @ ops\<rparr>)"
proof (cases "n = 0")
  case True
  with that [of "[]"] show thesis by (simp add: invalidate_user_span_def)
next
  case False
  have u: "u64 (va + n * 4096) = va + n * 4096"
    using assms by (simp add: u64_def)
  have "page_align_up (va + n * 4096) \<le> 2 ^ 63"
    using page_align_up_bounds(2) [of "va + n * 4096"] assms by simp
  from tlbi_span_returns [OF this] obtain ops
    where "tlbi_span (page_align_down va) (page_align_up (va + n * 4096)) = Some ops" by blast
  with that False show thesis by (simp add: invalidate_user_span_def u)
qed

lemma tlbi_update [simp]:
  "tables (m\<lparr>tlbi := x\<rparr>) = tables m" "mpool (m\<lparr>tlbi := x\<rparr>) = mpool m"
  by simp_all

lemma tbl_cong: "tables m' = tables m \<Longrightarrow> tbl m' t p = tbl m t p"
  by (induction p arbitrary: t) simp_all

lemma pt_inv_cong:
  assumes "tables m' = tables m" and "mpool m' = mpool m"
  shows "pt_inv m' l0 = pt_inv m l0" and "pte m' l0 va = pte m l0 va" and "table_pages m' l0 = table_pages m l0"
  using assms tbl_cong [OF assms(1)] by (simp_all only: pt_inv_def pte_def table_pages_def)

lemma tlbi_irrelevant [simp]:
  "pt_inv (m\<lparr>tlbi := x\<rparr>) l0 = pt_inv m l0" "pte (m\<lparr>tlbi := x\<rparr>) l0 va = pte m l0 va"
  "table_pages (m\<lparr>tlbi := x\<rparr>) l0 = table_pages m l0"
  by (rule pt_inv_cong; simp)+

section \<open>Releasing the tables\<close>

lemma free_all_append: "frames.free_all (xs @ ys) p = frames.free_all ys (frames.free_all xs p)"
  by (simp add: frames.free_all_def)

lemma free_all_Nil [simp]: "frames.free_all [] p = p"
  by (simp add: frames.free_all_def)

lemma fold_free:
  assumes "\<forall>k m'. tables m' = T \<longrightarrow> f k m' = m'\<lparr>mpool := frames.free_all (g k) (mpool m')\<rparr>" and "tables m = T"
  shows "fold f ks m = m\<lparr>mpool := frames.free_all (concat (map g ks)) (mpool m)\<rparr>"
  using assms(2) by (induction ks arbitrary: m) (simp_all add: assms(1) free_all_append)

lemma free_table_eq: "free_table t m = m\<lparr>mpool := frames.free_all [t] (mpool m)\<rparr>"
  by (simp add: free_table_def frames.free_all_def)

definition subtables :: "(nat \<Rightarrow> nat \<Rightarrow> 64 word) \<Rightarrow> (nat \<Rightarrow> nat list) \<Rightarrow> nat \<Rightarrow> nat list" where
  "subtables T below t =
     concat (map (\<lambda>k. if pte_valid (T t k) \<and> T t k AND PTE_TABLE \<noteq> 0
       then below (pte_next_table (T t k)) @ [pte_next_table (T t k)] else []) [0..<512])"

lemma free_l2_eq:
  "free_l2 l2 m = m\<lparr>mpool := frames.free_all (subtables (tables m) (\<lambda>_. []) l2) (mpool m)\<rparr>"
  unfolding free_l2_def subtables_def
  by (rule fold_free [where T = "tables m"]) (simp_all add: Let_def free_table_eq)

lemma free_l1_eq:
  "free_l1 l1 m = m\<lparr>mpool := frames.free_all (subtables (tables m) (subtables (tables m) (\<lambda>_. [])) l1) (mpool m)\<rparr>"
  unfolding free_l1_def subtables_def [of _ _ l1]
  by (rule fold_free [where T = "tables m"])
    (simp_all add: Let_def free_table_eq free_l2_eq free_all_append)

definition l0_subtables :: "(nat \<Rightarrow> nat \<Rightarrow> 64 word) \<Rightarrow> nat \<Rightarrow> nat list" where
  "l0_subtables T l0 =
     concat (map (\<lambda>k. if pte_valid (T l0 k)
       then subtables T (subtables T (\<lambda>_. [])) (pte_next_table (T l0 k)) @ [pte_next_table (T l0 k)] else []) [0..<512])"

lemma mmu_free_user_tables_eq:
  "mmu_free_user_tables l0 m = m\<lparr>mpool := frames.free_all (l0_subtables (tables m) l0 @ [l0]) (mpool m)\<rparr>"
proof -
  have "fold (\<lambda>i m. let e = tables m l0 i in
       if \<not> pte_valid e then m else free_table (pte_next_table e) (free_l1 (pte_next_table e) m)) [0..<512] m
     = m\<lparr>mpool := frames.free_all (l0_subtables (tables m) l0) (mpool m)\<rparr>"
    unfolding l0_subtables_def
    by (rule fold_free [where T = "tables m"]) (simp_all add: Let_def free_table_eq free_l1_eq free_all_append)
  then show ?thesis
    unfolding mmu_free_user_tables_def by (simp add: free_table_eq free_all_append)
qed

lemma set_subtables:
  "s \<in> set (subtables T below t) \<longleftrightarrow>
     (\<exists>k < 512. pte_valid (T t k) \<and> T t k AND PTE_TABLE \<noteq> 0 \<and>
        (s = pte_next_table (T t k) \<or> s \<in> set (below (pte_next_table (T t k)))))"
  unfolding subtables_def by (auto split: if_splits)

lemma set_l0_subtables:
  "s \<in> set (l0_subtables T t) \<longleftrightarrow>
     (\<exists>k < 512. pte_valid (T t k) \<and>
        (s = pte_next_table (T t k) \<or> s \<in> set (subtables T (subtables T (\<lambda>_. [])) (pte_next_table (T t k)))))"
  unfolding l0_subtables_def by (auto split: if_splits)

lemma node_cases:
  assumes "node p"
  obtains "p = []" | i where "p = [i]" "i < 512" | i j where "p = [i, j]" "i < 512" "j < 512"
  | i j k where "p = [i, j, k]" "i < 512" "j < 512" "k < 512"
proof -
  have "p = [] \<or> (\<exists>i. p = [i]) \<or> (\<exists>i j. p = [i, j]) \<or> (\<exists>i j k. p = [i, j, k])"
    using assms by (auto simp: le_Suc_eq numeral_3_eq_3 length_Suc_conv)
  then show thesis using that assms by auto
qed

lemma freed_tables:
  assumes "pt_inv m l0"
  shows "set (l0_subtables (tables m) l0 @ [l0]) = table_pages m l0"
proof (intro equalityI subsetI)
  note T = pt_invD(5) [OF assms]
  fix s assume "s \<in> table_pages m l0"
  then obtain p where p: "node p" "tbl m l0 p = Some s"
    by (auto simp: table_pages_def)
  from p(1) show "s \<in> set (l0_subtables (tables m) l0 @ [l0])"
  proof (cases rule: node_cases)
    case (3 i j)
    then show ?thesis
      using p T [of "[i]" j] by (auto simp: set_l0_subtables set_subtables split: if_splits)
  next
    case (4 i j k)
    then show ?thesis
      using p T [of "[i]" j] T [of "[i, j]" k]
      by (auto simp: set_l0_subtables set_subtables split: if_splits)
  qed (use p in \<open>auto simp: set_l0_subtables split: if_splits\<close>)
next
  have page: "s \<in> table_pages m l0" if "tbl m l0 p = Some s" "node p" for p s
    using that unfolding table_pages_def by blast
  fix s assume "s \<in> set (l0_subtables (tables m) l0 @ [l0])"
  then consider "s = l0"
    | i where "i < 512" "tbl m l0 [i] = Some s"
    | i j where "i < 512" "j < 512" "tbl m l0 [i, j] = Some s"
    | i j k where "i < 512" "j < 512" "k < 512" "tbl m l0 [i, j, k] = Some s"
    by (auto simp: set_l0_subtables set_subtables)
  then show "s \<in> table_pages m l0"
    by cases (auto intro: page [of "[]"] page [of "[i]" for i] page [of "[i, j]" for i j] page [of "[i, j, k]" for i j k]
      simp del: tbl.simps(2))
qed

section \<open>A fresh address space\<close>

lemma alloc_table_fresh:
  assumes "pmm_inv (mpool m)" and "mem_region_end (mpool m) \<le> 2 ^ 48" and "alloc_table m = (m', l0)" and "l0 \<noteq> 0"
  shows "pt_inv m' l0" and "pte m' l0 va = None" and "table_pages m' l0 = {l0}"
    and "l0 \<notin> pmm_owned (mpool m)" and "pmm_owned (mpool m') = insert l0 (pmm_owned (mpool m))"
proof -
  from assms(1,2) have all: "pt_inv m' l0 \<and> pte m' l0 va = None \<and> table_pages m' l0 = {l0} \<and>
    l0 \<notin> pmm_owned (mpool m) \<and> pmm_owned (mpool m') = insert l0 (pmm_owned (mpool m))"
  proof (rule alloc_table_cases)
    fix q t
    assume a: "t \<notin> pmm_owned (mpool m)" "pmm_inv q" "pmm_pinned q = pmm_pinned (mpool m)"
      "pmm_owned q = insert t (pmm_owned (mpool m))" "mem_region_end q = mem_region_end (mpool m)"
      "alloc_table m = (m\<lparr>mpool := q, tables := (tables m)(t := (\<lambda>_. 0))\<rparr>, t)"
    then have m': "mpool m' = q" "tables m' = (tables m)(t := (\<lambda>_. 0))" "t = l0"
      using assms(3) by auto
    have T: "tbl m' l0 p = (if p = [] then Some l0 else None)" for p
      using m' by (cases p) simp_all
    have tp: "table_pages m' l0 = {l0}"
      by (auto simp: table_pages_def T intro: exI [of _ "[]"])
    have "l0 \<notin> pmm_pinned q"
      using a(1,3) m'(3) pmm_pinned_owned [OF assms(1)] by blast
    then have "pt_inv m' l0"
      using a(2,4,5) assms(2) m' by (intro pt_invI) (auto simp: tp T split: if_splits)
    then show ?thesis
      using tp a(1,4) m' by (simp add: pte_def T va_path_def del: tbl.simps)
  qed (use assms in simp)
  then show "pt_inv m' l0" "pte m' l0 va = None" "table_pages m' l0 = {l0}" "l0 \<notin> pmm_owned (mpool m)"
    "pmm_owned (mpool m') = insert l0 (pmm_owned (mpool m))"
    by blast+
qed

definition demo_mmu :: mmu where
  "demo_mmu = \<lparr>mpool = demo_pmm, tables = (\<lambda>_ _. 0), l0_table_lo = 0, l0_table_hi = 0,
     regs = \<lparr>mair_el1 = 0, tcr_el1 = 0, ttbr0_el1 = 0, ttbr1_el1 = 0, sctlr_el1 = 0\<rparr>, tlbi = []\<rparr>"

definition demo_l0 :: nat where
  "demo_l0 = snd (mmu_create_user_tables demo_mmu)"

definition demo_space :: mmu where
  "demo_space = fst (mmu_create_user_tables demo_mmu)"

lemma demo_alloc: "alloc_table demo_mmu = (demo_space, demo_l0)" "demo_l0 \<noteq> 0"
proof -
  have i: "pmm_inv (mpool demo_mmu)" by (simp add: demo_mmu_def demo_pmm_inv)
  show "demo_l0 \<noteq> 0"
    using demo_pmm_inv
  proof (rule pmm_allocate_page_cases)
    assume "\<forall>n < total_pages demo_pmm. bitmap_test n demo_pmm"
    then show ?thesis using demo_pmm_test [of 4] by (auto simp: demo_pmm_fields)
  next
    fix n assume "n < total_pages demo_pmm" "pmm_allocate_page demo_pmm = (pmm_take demo_pmm n, frame_addr demo_pmm n)"
    then show ?thesis
      using frame_addr_bounds(3) [OF demo_pmm_inv]
      by (simp add: demo_l0_def mmu_create_user_tables_def alloc_table_def demo_mmu_def)
  qed
qed (simp add: demo_space_def demo_l0_def mmu_create_user_tables_def)

lemma demo_space_inv:
  "pt_inv demo_space demo_l0" "pte demo_space demo_l0 va = None" "table_pages demo_space demo_l0 = {demo_l0}"
  "pmm_owned (mpool demo_space) = insert demo_l0 (pmm_owned demo_pmm)" "demo_l0 \<notin> pmm_owned demo_pmm"
  using alloc_table_fresh [OF _ _ demo_alloc] demo_pmm_inv by (simp_all add: demo_mmu_def demo_pmm_fields)

section \<open>Properties\<close>

text \<open>The physical address the hardware walk produces for a virtual one.\<close>

definition translate :: "mmu \<Rightarrow> nat \<Rightarrow> nat \<Rightarrow> nat option" where
  "translate m l0 va = map_option (\<lambda>e. unat (e AND PTE_ADDR_MASK) + va mod 4096) (pte m l0 va)"

lemma page_entry_addr:
  assumes "pa mod 4096 = 0" and "pa < 2 ^ 48" and "flags AND PTE_ADDR_MASK = 0"
  shows "unat (page_entry pa flags AND PTE_ADDR_MASK) = pa"
proof -
  have c: "(PTE_VALID OR PTE_TABLE OR PTE_AF OR PTE_SH_INNER OR PTE_NG) AND PTE_ADDR_MASK = 0"
    by (simp add: pte_defs PTE_ADDR_MASK_def)
  have "page_entry pa flags AND PTE_ADDR_MASK =
      (of_nat pa AND PTE_ADDR_MASK) OR ((PTE_VALID OR PTE_TABLE OR PTE_AF OR PTE_SH_INNER OR PTE_NG) AND PTE_ADDR_MASK)
        OR (flags AND PTE_ADDR_MASK)"
    unfolding page_entry_def by (rule bit_word_eqI) (auto simp: bit_simps)
  then have "page_entry pa flags AND PTE_ADDR_MASK = of_nat pa"
    by (simp add: c assms(3) of_nat_page_bit [OF assms(1,2)])
  then show ?thesis
    using assms(2) by (simp add: unsigned_of_nat take_bit_nat_eq_self)
qed

text \<open>
  C10. Mapping a range. From a well-formed table tree, \<^verbatim>\<open>mmu_map_user_range\<close> installs the
  pages of the range in order up to some count \<open>k\<close>: addresses in the first \<open>k\<close> pages
  translate to the corresponding physical address with the given attributes, every other
  translation is unchanged, the tree stays well formed, and the pages other owners hold are
  untouched. It stops short of the range only when the memory manager has no page left for an
  intermediate table.
\<close>
theorem mmu_map_user_range_refines:
  assumes "pt_inv m l0" and "va mod 4096 = 0" and "pa mod 4096 = 0" and "va + n * 4096 \<le> 2 ^ 48"
    and "pa + n * 4096 \<le> 2 ^ 48" and "flags AND PTE_ADDR_MASK = 0"
  shows "let m' = mmu_map_user_range m l0 va pa n flags in
    \<exists>k \<le> n. pt_inv m' l0 \<and>
      pmm_owned (mpool m') - table_pages m' l0 = pmm_owned (mpool m) - table_pages m l0 \<and>
      (\<forall>vb < 2 ^ 48. if va \<le> vb \<and> vb < va + k * 4096
         then pte m' l0 vb = Some (page_entry (pa + (vb div 4096 - va div 4096) * 4096) flags) \<and>
           translate m' l0 vb = Some (pa + (vb - va))
         else pte m' l0 vb = pte m l0 vb) \<and>
      (k < n \<longrightarrow> pmm_allocate_page (mpool m') = (mpool m', 0))"
proof -
  define m' where "m' = mmu_map_user_range m l0 va pa n flags"
  have "map_pages m l0 va pa flags [0..<n] = m'"
    by (simp add: m'_def mmu_map_user_range_def)
  from map_pages_law [OF assms(1,2,4,5) _ this] obtain k where k: "k \<le> n" "grows l0 m m'"
    "\<And>vb. vb < 2 ^ 48 \<Longrightarrow> pte m' l0 vb =
       (if va div 4096 \<le> vb div 4096 \<and> vb div 4096 < va div 4096 + k
        then Some (page_entry (pa + (vb div 4096 - va div 4096) * 4096) flags) else pte m l0 vb)"
    "k < n \<longrightarrow> pmm_allocate_page (mpool m') = (mpool m', 0)"
    by auto
  have tr: "translate m' l0 vb = Some (pa + (vb - va))" if vb: "vb < 2 ^ 48" "va \<le> vb" "vb < va + k * 4096" for vb
  proof -
    define d where "d = vb div 4096 - va div 4096"
    have r: "va div 4096 \<le> vb div 4096" "vb div 4096 < va div 4096 + k"
      using page_in_range [OF assms(2), of vb k] vb by simp_all
    then have "d < n" using k(1) by (simp add: d_def)
    then have lt: "pa + d * 4096 < 2 ^ 48" using assms(5) by simp
    have "(pa + d * 4096) mod 4096 = 0" using assms(3) by simp
    then have "unat (page_entry (pa + d * 4096) flags AND PTE_ADDR_MASK) = pa + d * 4096"
      using lt assms(6) by (rule page_entry_addr)
    moreover have "d * 4096 + vb mod 4096 = vb - va"
    proof -
      have "va = va div 4096 * 4096" "vb = vb div 4096 * 4096 + vb mod 4096"
        using div_mult_self_mod_0 [OF assms(2)] by simp_all
      then show ?thesis
        using r(1) unfolding d_def diff_mult_distrib by linarith
    qed
    ultimately show ?thesis
      using k(3) [OF vb(1)] r by (simp add: translate_def d_def)
  qed
  show ?thesis
    unfolding Let_def m'_def [symmetric]
    using k(1,2,4)
  proof (intro exI [of _ k] conjI allI impI)
    fix vb :: nat assume vb: "vb < 2 ^ 48"
    show "if va \<le> vb \<and> vb < va + k * 4096
         then pte m' l0 vb = Some (page_entry (pa + (vb div 4096 - va div 4096) * 4096) flags) \<and>
           translate m' l0 vb = Some (pa + (vb - va))
         else pte m' l0 vb = pte m l0 vb"
      using k(3) [OF vb] tr [OF vb] page_in_range [OF assms(2), of vb k] by presburger
  qed (simp_all add: grows_def)
qed

theorem mmu_map_user_range_refines_witness:
  "let m' = mmu_map_user_range demo_space demo_l0 0x400000 0x40010000 3 (mmu_prot_to_flags 5) in
     pte m' demo_l0 0x403000 = None \<and>
     (translate m' demo_l0 0x400010 = Some 0x40010010 \<or> pmm_allocate_page (mpool m') = (mpool m', 0))"
proof -
  define m' where "m' = mmu_map_user_range demo_space demo_l0 0x400000 0x40010000 3 (mmu_prot_to_flags 5)"
  have f: "mmu_prot_to_flags 5 AND PTE_ADDR_MASK = 0"
    by (simp add: mmu_prot_to_flags_def VMA_PROT_READ_def VMA_PROT_WRITE_def VMA_PROT_EXEC_def pte_defs PTE_ADDR_MASK_def)
  obtain k where k: "k \<le> 3" "\<forall>vb < 2 ^ 48. if 0x400000 \<le> vb \<and> vb < 0x400000 + k * 4096
         then pte m' demo_l0 vb = Some (page_entry (0x40010000 + (vb div 4096 - 0x400000 div 4096) * 4096) (mmu_prot_to_flags 5)) \<and>
           translate m' demo_l0 vb = Some (0x40010000 + (vb - 0x400000))
         else pte m' demo_l0 vb = pte demo_space demo_l0 vb"
      "k < 3 \<longrightarrow> pmm_allocate_page (mpool m') = (mpool m', 0)"
    using mmu_map_user_range_refines [OF demo_space_inv(1) _ _ _ _ f, of "0x400000" "0x40010000" 3]
    unfolding Let_def m'_def by auto
  have "pte m' demo_l0 0x403000 = None"
    using k(1) k(2) [rule_format, of "0x403000"] by (simp add: demo_space_inv(2) split: if_splits)
  moreover have "translate m' demo_l0 0x400010 = Some 0x40010010" if "k = 3"
    using k(2) [rule_format, of "0x400010"] that by simp
  ultimately show ?thesis
    using k(1,3) unfolding Let_def m'_def [symmetric] by linarith
qed

text \<open>
  C26. Unmapping a range. Within the 48-bit space \<^verbatim>\<open>mmu_unmap_user_range\<close> returns, removes
  exactly the translations of the range, leaves every other translation, the tables and the
  memory manager as they were.
\<close>
theorem mmu_unmap_user_range_exact:
  assumes "pt_inv m l0" and "va mod 4096 = 0" and "va + n * 4096 \<le> 2 ^ 48"
  shows "\<exists>m'. mmu_unmap_user_range m l0 va n = Some m' \<and> pt_inv m' l0 \<and>
    pmm_owned (mpool m') - table_pages m' l0 = pmm_owned (mpool m) - table_pages m l0 \<and>
    (\<forall>vb < 2 ^ 48. pte m' l0 vb = (if l0 \<noteq> 0 \<and> va \<le> vb \<and> vb < va + n * 4096 then None else pte m l0 vb))"
proof (cases "l0 = 0 \<or> n = 0")
  case True
  then show ?thesis
    using assms(1) by (auto simp: mmu_unmap_user_range_def)
next
  case False
  define m1 where "m1 = fold (\<lambda>i. unmap_page l0 (u64 (va + i * 4096))) [0..<n] m"
  note U = unmap_pages_law [OF assms, folded m1_def]
  obtain ops where ops: "invalidate_user_span va n m1 = Some (m1\<lparr>tlbi := tlbi m1 @ ops\<rparr>)"
    using assms(3) by (rule invalidate_returns)
  show ?thesis
  proof (intro exI conjI)
    show "mmu_unmap_user_range m l0 va n = Some (m1\<lparr>tlbi := tlbi m1 @ ops\<rparr>)"
      using False ops by (simp add: mmu_unmap_user_range_def m1_def)
  qed (use U False page_in_range [OF assms(2)] in \<open>simp_all add: grows_def\<close>)
qed

lemma demo_mapped:
  "pt_inv (mmu_map_user_range demo_space demo_l0 0x400000 0x40010000 3 f) demo_l0"
  using map_pages_law [OF demo_space_inv(1), of "0x400000" 3 "0x40010000" 0 f]
  by (auto simp: mmu_map_user_range_def grows_def)

theorem mmu_unmap_user_range_exact_witness:
  "\<exists>m'. mmu_unmap_user_range (mmu_map_user_range demo_space demo_l0 0x400000 0x40010000 3 0) demo_l0 0x400000 2 = Some m' \<and>
     pte m' demo_l0 0x401000 = None"
  using mmu_unmap_user_range_exact [OF demo_mapped, of "0x400000" 2 0] demo_alloc(2)
  by (auto dest: spec [of _ "0x401000"])

text \<open>
  C27. Re-protecting a range. \<^verbatim>\<open>mmu_protect_user_range\<close> returns, counts the mapped pages of the
  range, gives each of them the new permission bits, and changes nothing else: no page becomes
  mapped or unmapped, and every address still translates to the same physical address.
\<close>
theorem mmu_protect_user_range_exact:
  assumes "pt_inv m l0" and "va mod 4096 = 0" and "va + n * 4096 \<le> 2 ^ 48" and "l0 \<noteq> 0"
  shows "\<exists>m'. mmu_protect_user_range m l0 va n flags =
      Some (m', card {i. i < n \<and> pte m l0 (va + i * 4096) \<noteq> None}) \<and> pt_inv m' l0 \<and>
    (\<forall>vb < 2 ^ 48. translate m' l0 vb = translate m l0 vb \<and>
       (if va \<le> vb \<and> vb < va + n * 4096
        then (case pte m l0 vb of None \<Rightarrow> pte m' l0 vb = None
              | Some e \<Rightarrow> \<exists>e'. pte m' l0 vb = Some e' \<and> e' AND PERM_MASK = flags AND PERM_MASK \<and>
                  e' AND NOT PERM_MASK = e AND NOT PERM_MASK)
        else pte m' l0 vb = pte m l0 vb))"
proof (cases "n = 0")
  case True
  then show ?thesis
    using assms(1) by (auto simp: mmu_protect_user_range_def)
next
  case False
  obtain m1 c where f: "fold (\<lambda>i. protect_page l0 flags (u64 (va + i * 4096))) [0..<n] (m, 0) = (m1, c)"
    by fastforce
  note P = protect_pages_law [OF assms(1-3) f]
  obtain ops where ops: "invalidate_user_span va n m1 = Some (m1\<lparr>tlbi := tlbi m1 @ ops\<rparr>)"
    using assms(3) by (rule invalidate_returns)
  let ?m = "m1\<lparr>tlbi := tlbi m1 @ ops\<rparr>"
  have perm: "perm_update flags e AND PERM_MASK = flags AND PERM_MASK"
    "perm_update flags e AND NOT PERM_MASK = e AND NOT PERM_MASK" for e
    unfolding perm_update_def by (rule bit_word_eqI, auto simp: bit_simps)+
  have "PTE_ADDR_MASK AND PERM_MASK = 0"
    by (simp add: PTE_ADDR_MASK_def PERM_MASK_def pte_defs)
  then have addr: "perm_update flags e AND PTE_ADDR_MASK = e AND PTE_ADDR_MASK" for e
    unfolding perm_update_def
    by (intro bit_word_eqI) (auto simp: bit_simps dest: arg_cong [of _ 0 "\<lambda>w. bit w n" for n])
  have run: "mmu_protect_user_range m l0 va n flags =
      Some (?m, card {i. i < n \<and> pte m l0 (va + i * 4096) \<noteq> None})"
    using False assms(4) f ops P by (simp add: mmu_protect_user_range_def)
  have p: "pte m1 l0 vb = (if va \<le> vb \<and> vb < va + n * 4096 then map_option (perm_update flags) (pte m l0 vb)
      else pte m l0 vb)" if "vb < 2 ^ 48" for vb
    using P that page_in_range [OF assms(2)] by simp
  have t: "translate ?m l0 vb = translate m l0 vb" if "vb < 2 ^ 48" for vb
    using p [OF that] by (cases "pte m l0 vb") (simp_all add: translate_def addr)
  have "pt_inv ?m l0"
    using P by (simp add: grows_def)
  then show ?thesis
    using run t by (intro exI [of _ ?m]) (auto simp: p perm split: option.split)
qed

theorem mmu_protect_user_range_exact_witness:
  "\<exists>m' c. mmu_protect_user_range (mmu_map_user_range demo_space demo_l0 0x400000 0x40010000 3 0) demo_l0 0x400000 2
     (mmu_prot_to_flags 1) = Some (m', c) \<and> pt_inv m' demo_l0"
  using mmu_protect_user_range_exact [OF demo_mapped, of "0x400000" 2 0 "mmu_prot_to_flags 1"] demo_alloc(2)
  by auto

text \<open>
  C15. Life cycle of an address space. Whatever has been mapped into a well-formed tree,
  \<^verbatim>\<open>mmu_free_user_tables\<close> gives back exactly the pages of the tree, the root included, and
  no data page; in particular creating a space, mapping a range and freeing the tables leaves
  the set of allocated pages as it was.
\<close>
theorem mmu_free_user_tables_exact:
  assumes "pt_inv m l0"
  shows "pmm_inv (mpool (mmu_free_user_tables l0 m)) \<and>
    pmm_owned (mpool (mmu_free_user_tables l0 m)) = pmm_owned (mpool m) - table_pages m l0 \<and>
    (pmm_inv (mpool a) \<and> mem_region_end (mpool a) \<le> 2 ^ 48 \<and> mmu_create_user_tables a = (b, l0) \<and> l0 \<noteq> 0 \<and>
     va mod 4096 = 0 \<and> va + n * 4096 \<le> 2 ^ 48 \<and> pa + n * 4096 \<le> 2 ^ 48 \<and> m = mmu_map_user_range b l0 va pa n flags \<longrightarrow>
     pmm_owned (mpool (mmu_free_user_tables l0 m)) = pmm_owned (mpool a))"
proof -
  have unpinned: "set (l0_subtables (tables m) l0 @ [l0]) \<inter> pmm_pinned (mpool m) = {}"
    using freed_tables [OF assms] pt_invD(3) [OF assms] by auto
  note free = frames.free_all_owned_subset [OF pt_invD(1) [OF assms] unpinned]
    frames.free_all_law [OF pt_invD(1) [OF assms]]
  have owned: "pmm_owned (mpool (mmu_free_user_tables l0 m)) = pmm_owned (mpool m) - table_pages m l0"
    unfolding mmu_free_user_tables_eq freed_tables [OF assms, symmetric] by (simp add: free(1))
  have inv: "pmm_inv (mpool (mmu_free_user_tables l0 m))"
    unfolding mmu_free_user_tables_eq using free(2) by simp
  have "pmm_owned (mpool m) - table_pages m l0 = pmm_owned (mpool a)"
    if "pmm_inv (mpool a)" "mem_region_end (mpool a) \<le> 2 ^ 48" "mmu_create_user_tables a = (b, l0)" "l0 \<noteq> 0"
      "va mod 4096 = 0" "va + n * 4096 \<le> 2 ^ 48" "pa + n * 4096 \<le> 2 ^ 48" "m = mmu_map_user_range b l0 va pa n flags"
  proof -
    note F = alloc_table_fresh [OF that(1,2) that(3) [unfolded mmu_create_user_tables_def] that(4)]
    have "grows l0 b m"
      using map_pages_law [OF F(1) that(5-7), of 0 flags m] that(8) by (auto simp: mmu_map_user_range_def)
    then have "pmm_owned (mpool m) - table_pages m l0 = pmm_owned (mpool b) - table_pages b l0"
      by (simp add: grows_def)
    also have "\<dots> = pmm_owned (mpool a)"
      using F(3-5) by auto
    finally show ?thesis .
  qed
  then show ?thesis
    unfolding owned using inv by (intro conjI impI) (elim conjE | rule refl | assumption)+
qed

theorem mmu_free_user_tables_exact_witness:
  "pmm_owned (mpool (mmu_free_user_tables demo_l0 (mmu_map_user_range demo_space demo_l0 0x400000 0x40010000 3 0)))
     = pmm_owned demo_pmm"
proof -
  have "pmm_owned demo_pmm = pmm_owned (mpool demo_mmu)"
    by (simp add: demo_mmu_def)
  then show ?thesis
    using mmu_free_user_tables_exact [OF demo_mapped [of 0], where a = demo_mmu and b = demo_space and va = "0x400000"
        and n = 3 and pa = "0x40010000" and flags = 0, THEN conjunct2, THEN conjunct2]
      demo_alloc demo_pmm_inv
    by (simp add: mmu_create_user_tables_def) (simp add: demo_mmu_def demo_pmm_fields)
qed

text \<open>
  The meaning of \<^verbatim>\<open>mmu_prot_to_flags\<close> for every protection word: the kernel may never
  execute the page, user code may execute it exactly with \<^verbatim>\<open>PROT_EXEC\<close>, may write it exactly with
  \<^verbatim>\<open>PROT_WRITE\<close>, and may access it at all exactly with \<^verbatim>\<open>PROT_READ\<close> or
  \<^verbatim>\<open>PROT_WRITE\<close>; the flags touch neither the address field nor any bit outside the
  permission mask, so re-protecting with them installs all of them.
\<close>
theorem mmu_prot_to_flags_meaning:
  "bit (mmu_prot_to_flags prot) 53 \<and>
   (bit (mmu_prot_to_flags prot) 54 \<longleftrightarrow> \<not> bit prot 2) \<and>
   (bit (mmu_prot_to_flags prot) 7 \<longleftrightarrow> \<not> bit prot 1) \<and>
   (bit (mmu_prot_to_flags prot) 6 \<longleftrightarrow> bit prot 0 \<or> bit prot 1) \<and>
   mmu_prot_to_flags prot AND PTE_ADDR_MASK = 0 \<and>
   mmu_prot_to_flags prot AND PERM_MASK = mmu_prot_to_flags prot"
proof -
  have two: "(2 :: 32 word) = push_bit 1 1" "(4 :: 32 word) = push_bit 2 1" by simp_all
  have b: "prot AND VMA_PROT_READ \<noteq> 0 \<longleftrightarrow> bit prot 0" "prot AND VMA_PROT_WRITE \<noteq> 0 \<longleftrightarrow> bit prot 1"
    "prot AND VMA_PROT_EXEC \<noteq> 0 \<longleftrightarrow> bit prot 2"
    by (simp_all add: VMA_PROT_READ_def VMA_PROT_WRITE_def VMA_PROT_EXEC_def bit_iff_and_push_bit_not_eq_0)
  show ?thesis
    unfolding mmu_prot_to_flags_def b Let_def
    by (cases "bit prot 0"; cases "bit prot 1"; cases "bit prot 2")
      (simp_all add: b pte_defs PERM_MASK_def PTE_ADDR_MASK_def bit_simps)
qed

text \<open>
  A translation base register value packs a 48-bit table address and a 16-bit address space
  identifier without loss: both come back, whatever the other one is.
\<close>
theorem ttbr_roundtrip:
  "ttbr_asid (ttbr_pack baddr asid) = asid \<and>
   ttbr_baddr (ttbr_pack baddr asid) = baddr AND mask 48 \<and>
   ttbr_pack (ttbr_baddr w) (ttbr_asid w) = w"
proof -
  have m: "TTBR_BADDR_MASK = mask 48"
    by (simp add: TTBR_BADDR_MASK_def mask_eq_exp_minus_1)
  have "ttbr_asid (ttbr_pack baddr asid) = asid"
    unfolding ttbr_asid_def ttbr_pack_def m by (rule bit_word_eqI) (auto simp: bit_simps)
  moreover have "ttbr_baddr (ttbr_pack baddr asid) = baddr AND mask 48"
    unfolding ttbr_baddr_def ttbr_pack_def m by (rule bit_word_eqI) (auto simp: bit_simps)
  moreover have "ttbr_pack (ttbr_baddr w) (ttbr_asid w) = w"
    unfolding ttbr_baddr_def ttbr_asid_def ttbr_pack_def m by (rule bit_word_eqI) (auto simp: bit_simps)
  ultimately show ?thesis by blast
qed

end
