(* ===== verification/Strings.thy ===== *)
theory Strings
  imports Prelude
begin

text \<open>
  The kernel's string library, \<^verbatim>\<open>src/src/lib/strings/strings.c\<close>, over a byte memory. A
  scan for a terminator that is not there does not return, so those loops are
  \<open>partial_function (option)\<close>. The variadic arguments of \<^verbatim>\<open>kvsnprintf\<close> are a list;
  a conversion whose argument is missing or of another type has no result.
\<close>

type_synonym memory = "nat \<Rightarrow> 8 word"

section \<open>Memory blocks\<close>

definition memcpy :: "memory \<Rightarrow> nat \<Rightarrow> nat \<Rightarrow> nat \<Rightarrow> memory" where
  "memcpy m d s n = fold (\<lambda>i m. m(d + i := m (s + i))) [0..<n] m"

definition memmove :: "memory \<Rightarrow> nat \<Rightarrow> nat \<Rightarrow> nat \<Rightarrow> memory" where
  "memmove m d s n =
     (if d = s \<or> n = 0 then m
      else if d < s then fold (\<lambda>i m. m(d + i := m (s + i))) [0..<n] m
      else fold (\<lambda>i m. m(d + (i - 1) := m (s + (i - 1)))) (rev [1..<n + 1]) m)"

definition memset :: "memory \<Rightarrow> nat \<Rightarrow> int \<Rightarrow> nat \<Rightarrow> memory" where
  "memset m d c n = fold (\<lambda>i m. m(d + i := word_of_int c)) [0..<n] m"

definition byte_diff :: "8 word \<Rightarrow> 8 word \<Rightarrow> int" where
  "byte_diff a b = uint a - uint b"

fun memcmp :: "memory \<Rightarrow> nat \<Rightarrow> nat \<Rightarrow> nat \<Rightarrow> int" where
  "memcmp m a b 0 = 0"
| "memcmp m a b (Suc n) = (if m a \<noteq> m b then byte_diff (m a) (m b) else memcmp m (a + 1) (b + 1) n)"

section \<open>Strings\<close>

partial_function (option) strlen_from :: "memory \<Rightarrow> nat \<Rightarrow> nat \<Rightarrow> nat option" where
  "strlen_from m s n = (if m (s + n) \<noteq> 0 then strlen_from m s (n + 1) else Some n)"

definition strlen :: "memory \<Rightarrow> nat \<Rightarrow> nat option" where
  "strlen m s = strlen_from m s 0"

function strnlen_from :: "memory \<Rightarrow> nat \<Rightarrow> nat \<Rightarrow> nat \<Rightarrow> nat" where
  "strnlen_from m s maxlen n = (if n < maxlen \<and> m (s + n) \<noteq> 0 then strnlen_from m s maxlen (n + 1) else n)"
  by pat_completeness auto
termination
  by (relation "measure (\<lambda>(m, s, maxlen, n). maxlen - n)") auto

declare strnlen_from.simps [simp del]

definition strnlen :: "memory \<Rightarrow> nat \<Rightarrow> nat \<Rightarrow> nat" where
  "strnlen m s maxlen = strnlen_from m s maxlen 0"

partial_function (option) strcmp :: "memory \<Rightarrow> nat \<Rightarrow> nat \<Rightarrow> int option" where
  "strcmp m a b =
     (if m a \<noteq> 0 \<and> m a = m b then strcmp m (a + 1) (b + 1) else Some (byte_diff (m a) (m b)))"

fun strncmp :: "memory \<Rightarrow> nat \<Rightarrow> nat \<Rightarrow> nat \<Rightarrow> int" where
  "strncmp m a b 0 = 0"
| "strncmp m a b (Suc n) =
     (if m a \<noteq> m b then byte_diff (m a) (m b) else if m a = 0 then 0 else strncmp m (a + 1) (b + 1) n)"

text \<open>The copy loop stops at the terminator of the source; the rest is zero filled.\<close>

function strncpy_from :: "memory \<Rightarrow> nat \<Rightarrow> nat \<Rightarrow> nat \<Rightarrow> nat \<Rightarrow> memory" where
  "strncpy_from m d s n i =
     (if i < n \<and> m (s + i) \<noteq> 0 then strncpy_from (m(d + i := m (s + i))) d s n (i + 1)
      else fold (\<lambda>i m. m(d + i := 0)) [i..<n] m)"
  by pat_completeness auto
termination
  by (relation "measure (\<lambda>(m, d, s, n, i). n - i)") auto

declare strncpy_from.simps [simp del]

definition strncpy :: "memory \<Rightarrow> nat \<Rightarrow> nat \<Rightarrow> nat \<Rightarrow> memory" where
  "strncpy m d s n = strncpy_from m d s n 0"

partial_function (option) strchr_loop :: "memory \<Rightarrow> nat \<Rightarrow> 8 word \<Rightarrow> nat option" where
  "strchr_loop m s target =
     (if m s = 0 then Some (if target = 0 then s else 0)
      else if m s = target then Some s else strchr_loop m (s + 1) target)"

definition strchr :: "memory \<Rightarrow> nat \<Rightarrow> int \<Rightarrow> nat option" where
  "strchr m s c = strchr_loop m s (word_of_int c)"

section \<open>Formatted output\<close>

datatype varg = VStr nat | VInt "32 word" | VU64 "64 word"

text \<open>The output state: memory and the position, which counts also what did not fit.\<close>

definition buf_putc :: "nat \<Rightarrow> nat \<Rightarrow> 8 word \<Rightarrow> memory \<times> nat \<Rightarrow> memory \<times> nat" where
  "buf_putc buf buflen c st =
     (if u64 (snd st + 1) < buflen then (fst st)(buf + snd st := c) else fst st, u64 (snd st + 1))"

partial_function (option) buf_puts :: "nat \<Rightarrow> nat \<Rightarrow> nat \<Rightarrow> memory \<times> nat \<Rightarrow> (memory \<times> nat) option" where
  "buf_puts buf buflen s st =
     (if fst st s \<noteq> 0 then buf_puts buf buflen (s + 1) (buf_putc buf buflen (fst st s) st) else Some st)"

definition digit_chars :: "8 word list" where
  "digit_chars = [0x30, 0x31, 0x32, 0x33, 0x34, 0x35, 0x36, 0x37, 0x38, 0x39, 0x61, 0x62, 0x63, 0x64, 0x65, 0x66]"

text \<open>The digits in \<^verbatim>\<open>tmp[24]\<close>, least significant first; writing past it has no result.\<close>

partial_function (option) tmp_digits :: "nat \<Rightarrow> nat \<Rightarrow> 8 word list \<Rightarrow> 8 word list option" where
  "tmp_digits val base tmp =
     (if 0 < val then if length tmp < 24 then tmp_digits (val div base) base (tmp @ [digit_chars ! (val mod base)]) else None
      else Some tmp)"

definition buf_putu :: "nat \<Rightarrow> nat \<Rightarrow> nat \<Rightarrow> nat \<Rightarrow> memory \<times> nat \<Rightarrow> (memory \<times> nat) option" where
  "buf_putu buf buflen val base st =
     (if val = 0 then Some (buf_putc buf buflen 0x30 st)
      else Option.bind (tmp_digits val base []) (\<lambda>tmp. Some (fold (buf_putc buf buflen) (rev tmp) st)))"

text \<open>The literal \<^verbatim>\<open>"(null)"\<close> printed for a null string.\<close>

definition null_text :: "8 word list" where
  "null_text = [0x28, 0x6e, 0x75, 0x6c, 0x6c, 0x29]"

definition put_conversion ::
    "nat \<Rightarrow> nat \<Rightarrow> 8 word \<Rightarrow> varg list \<Rightarrow> memory \<times> nat \<Rightarrow> ((memory \<times> nat) \<times> varg list) option" where
  "put_conversion buf buflen c args st =
     (let keep = map_option (\<lambda>st. (st, tl args)) in
      if c = 0x73 then
        (case args of VStr p # _ \<Rightarrow>
           keep (if p = 0 then Some (fold (buf_putc buf buflen) null_text st) else buf_puts buf buflen p st)
         | _ \<Rightarrow> None)
      else if c = 0x64 then
        (case args of VInt v # _ \<Rightarrow>
           keep (if sint v < 0
                 then buf_putu buf buflen (unat (0 - (scast v :: 64 word))) 10 (buf_putc buf buflen 0x2d st)
                 else buf_putu buf buflen (unat (scast v :: 64 word)) 10 st)
         | _ \<Rightarrow> None)
      else if c = 0x75 then
        (case args of VU64 v # _ \<Rightarrow> keep (buf_putu buf buflen (unat v) 10 st) | _ \<Rightarrow> None)
      else if c = 0x78 then
        (case args of VU64 v # _ \<Rightarrow> keep (buf_putu buf buflen (unat v) 16 st) | _ \<Rightarrow> None)
      else if c = 0x63 then
        (case args of VInt v # _ \<Rightarrow> keep (Some (buf_putc buf buflen (ucast v) st)) | _ \<Rightarrow> None)
      else if c = 0x25 then Some (buf_putc buf buflen 0x25 st, args)
      else Some (buf_putc buf buflen c (buf_putc buf buflen 0x25 st), args))"

partial_function (option) kvsnprintf_loop ::
    "nat \<Rightarrow> nat \<Rightarrow> nat \<Rightarrow> varg list \<Rightarrow> memory \<times> nat \<Rightarrow> (memory \<times> nat) option" where
  "kvsnprintf_loop buf buflen fmt args st =
     (if fst st fmt = 0 then Some st
      else if fst st fmt \<noteq> 0x25 then
        kvsnprintf_loop buf buflen (fmt + 1) args (buf_putc buf buflen (fst st fmt) st)
      else if fst st (fmt + 1) = 0 then Some st
      else Option.bind (put_conversion buf buflen (fst st (fmt + 1)) args st)
             (\<lambda>r. kvsnprintf_loop buf buflen (fmt + 2) (snd r) (fst r)))"

definition kvsnprintf :: "memory \<Rightarrow> nat \<Rightarrow> nat \<Rightarrow> nat \<Rightarrow> varg list \<Rightarrow> (memory \<times> int) option" where
  "kvsnprintf m buf buflen fmt args =
     Option.bind (kvsnprintf_loop buf buflen fmt args (m, 0))
       (\<lambda>(m1, pos). Some
          (if 0 < buflen then m1(buf + (if pos < buflen then pos else buflen - 1) := 0) else m1,
           sint (of_nat pos :: 32 word)))"

section \<open>Copying\<close>

text \<open>\<open>moved m d s n\<close> is memory \<open>m\<close> with the block at \<open>s\<close> moved to \<open>d\<close> as a whole.\<close>

definition moved :: "memory \<Rightarrow> nat \<Rightarrow> nat \<Rightarrow> nat \<Rightarrow> memory" where
  "moved m d s n = (\<lambda>a. if d \<le> a \<and> a < d + n then m (s + (a - d)) else m a)"

lemma moved_0 [simp]: "moved m d s 0 = m"
  by (auto simp: moved_def fun_eq_iff)

lemma copy_forward:
  assumes "d < s \<or> s + n \<le> d"
  shows "fold (\<lambda>i m. m(d + i := m (s + i))) [0..<n] m = moved m d s n"
  using assms
proof (induction n)
  case (Suc n)
  then have IH: "fold (\<lambda>i m. m(d + i := m (s + i))) [0..<n] m = moved m d s n"
    by (intro Suc.IH) auto
  have "moved m d s n (s + n) = m (s + n)"
    using Suc.prems by (auto simp: moved_def)
  then have "fold (\<lambda>i m. m(d + i := m (s + i))) [0..<Suc n] m = (moved m d s n)(d + n := m (s + n))"
    using IH by (simp del: fun_upd_apply)
  also have "\<dots> = moved m d s (Suc n)"
    by (auto simp: moved_def fun_eq_iff)
  finally show ?case .
qed simp

lemma copy_backward:
  assumes "s < d"
  shows "fold (\<lambda>i m. m(d + (i - 1) := m (s + (i - 1)))) (rev [1..<n + 1]) m = moved m d s n"
  using assms
proof (induction n arbitrary: m)
  case (Suc n)
  have "rev [1..<Suc n + 1] = Suc n # rev [1..<n + 1]" by simp
  then have "fold (\<lambda>i m. m(d + (i - 1) := m (s + (i - 1)))) (rev [1..<Suc n + 1]) m
      = moved (m(d + n := m (s + n))) d s n"
    using Suc.IH [OF Suc.prems] by (simp only: fold_simps comp_apply diff_Suc_1)
  also have "\<dots> = moved m d s (Suc n)"
    using Suc.prems by (auto simp: moved_def fun_eq_iff)
  finally show ?case .
qed simp

lemma memmove_law: "memmove m d s n = moved m d s n"
proof -
  have "moved m d d n = m"
    by (auto simp: moved_def fun_eq_iff)
  then show ?thesis
    using copy_forward [of d s n m] copy_backward [of s d n m] by (auto simp: memmove_def)
qed

section \<open>Terminated strings\<close>

fun cstr :: "memory \<Rightarrow> nat \<Rightarrow> 8 word list \<Rightarrow> bool" where
  "cstr m s [] \<longleftrightarrow> m s = 0"
| "cstr m s (x # xs) \<longleftrightarrow> m s = x \<and> x \<noteq> 0 \<and> cstr m (s + 1) xs"

lemma cstr_nth: "cstr m s xs \<Longrightarrow> i < length xs \<Longrightarrow> m (s + i) = xs ! i \<and> xs ! i \<noteq> 0"
proof (induction xs arbitrary: s i)
  case (Cons x xs)
  show ?case
  proof (cases i)
    case (Suc j)
    then show ?thesis using Cons.IH [of "s + 1" j] Cons.prems by simp
  qed (use Cons.prems in simp)
qed simp

lemma cstr_end: "cstr m s xs \<Longrightarrow> m (s + length xs) = 0"
proof (induction xs arbitrary: s)
  case (Cons x xs)
  then show ?case using Cons.IH [of "s + 1"] by simp
qed simp

lemma cstr_cong:
  "(\<forall>a. s \<le> a \<and> a \<le> s + length xs \<longrightarrow> m' a = m a) \<Longrightarrow> cstr m s xs \<Longrightarrow> cstr m' s xs"
proof (induction xs arbitrary: s)
  case (Cons x xs)
  then show ?case using Cons.IH [of "s + 1"] by simp
qed simp

lemma strlen_from_cstr: "cstr m (s + n) xs \<Longrightarrow> strlen_from m s n = Some (n + length xs)"
proof (induction xs arbitrary: n)
  case Nil
  then show ?case by (subst strlen_from.simps) simp
next
  case (Cons x xs)
  then have "strlen_from m s (n + 1) = Some (n + 1 + length xs)" by simp
  with Cons.prems show ?case by (subst strlen_from.simps) simp
qed

lemma strlen_cstr: "cstr m s xs \<Longrightarrow> strlen m s = Some (length xs)"
  using strlen_from_cstr [of m s 0 xs] by (simp add: strlen_def)

lemma strnlen_from_cstr:
  "cstr m (s + n) xs \<Longrightarrow> n \<le> k \<Longrightarrow> strnlen_from m s k n = min k (n + length xs)"
proof (induction xs arbitrary: n)
  case Nil
  then show ?case by (subst strnlen_from.simps) simp
next
  case (Cons x xs)
  show ?case
  proof (cases "n < k")
    case True
    then have "strnlen_from m s k (n + 1) = min k (n + 1 + length xs)"
      using Cons by simp
    with True Cons.prems show ?thesis by (subst strnlen_from.simps) simp
  qed (use Cons.prems in \<open>subst strnlen_from.simps, simp\<close>)
qed

text \<open>The sign of a comparison is the lexicographic order of the byte strings.\<close>

fun lex_diff :: "8 word list \<Rightarrow> 8 word list \<Rightarrow> int" where
  "lex_diff [] [] = 0"
| "lex_diff [] (y # ys) = - uint y"
| "lex_diff (x # xs) [] = uint x"
| "lex_diff (x # xs) (y # ys) = (if x = y then lex_diff xs ys else uint x - uint y)"

lemma strcmp_cstr: "cstr m a xs \<Longrightarrow> cstr m b ys \<Longrightarrow> strcmp m a b = Some (lex_diff xs ys)"
proof (induction xs ys arbitrary: a b rule: lex_diff.induct)
  case (4 x xs y ys)
  then show ?case by (subst strcmp.simps) (auto simp: byte_diff_def)
qed (subst strcmp.simps, auto simp: byte_diff_def)+

lemma strncmp_cstr:
  "cstr m a xs \<Longrightarrow> cstr m b ys \<Longrightarrow> strncmp m a b n = lex_diff (take n xs) (take n ys)"
proof (induction xs ys arbitrary: a b n rule: lex_diff.induct)
  case 1
  then show ?case by (cases n) (auto simp: byte_diff_def)
next
  case (2 y ys)
  then show ?case by (cases n) (auto simp: byte_diff_def)
next
  case (3 x xs)
  then show ?case by (cases n) (auto simp: byte_diff_def)
next
  case (4 x xs y ys)
  then show ?case by (cases n) (auto simp: byte_diff_def)
qed

lemma lex_diff_eq: "lex_diff xs ys = 0 \<Longrightarrow> 0 \<notin> set xs \<Longrightarrow> 0 \<notin> set ys \<Longrightarrow> xs = ys"
proof (induction xs ys rule: lex_diff.induct)
  case (4 x xs y ys)
  then show ?case by (auto split: if_splits simp: word_uint_eq_iff)
qed (auto simp: uint_0_iff)

lemma cstr_nonzero: "cstr m s xs \<Longrightarrow> 0 \<notin> set xs"
  by (induction xs arbitrary: s) auto

section \<open>Numerals\<close>

text \<open>The digits of a number, most significant first, and the number they denote.\<close>

function digits_of :: "nat \<Rightarrow> nat \<Rightarrow> nat list" where
  "digits_of base v = (if v = 0 \<or> base < 2 then [] else digits_of base (v div base) @ [v mod base])"
  by pat_completeness auto
termination
  by (relation "measure snd") auto

declare digits_of.simps [simp del]

definition numeral_text :: "nat \<Rightarrow> nat \<Rightarrow> 8 word list" where
  "numeral_text base v = (if v = 0 then [0x30] else map ((!) digit_chars) (digits_of base v))"

lemma digits_value: "2 \<le> base \<Longrightarrow> foldl (\<lambda>acc d. acc * base + d) 0 (digits_of base v) = v"
proof (induction base v rule: digits_of.induct)
  case (1 base v)
  then show ?case by (subst digits_of.simps) auto
qed

lemma digits_less: "2 \<le> base \<Longrightarrow> d \<in> set (digits_of base v) \<Longrightarrow> d < base"
proof (induction base v rule: digits_of.induct)
  case (1 base v)
  from 1(3) have "d \<in> set (digits_of base (v div base)) \<and> v \<noteq> 0 \<or> d = v mod base"
    by (subst (asm) digits_of.simps) (auto split: if_splits)
  with 1(1,2) show ?case by auto
qed

lemma digits_length: "2 \<le> base \<Longrightarrow> v < base ^ k \<Longrightarrow> length (digits_of base v) \<le> k"
proof (induction k arbitrary: v)
  case 0
  then show ?case by (simp add: digits_of.simps)
next
  case (Suc k)
  have "v div base < base ^ k"
    using Suc.prems by (simp add: div_less_iff_less_mult mult.commute)
  with Suc show ?case by (subst digits_of.simps) auto
qed

lemma tmp_digits_law:
  assumes "2 \<le> base" and "length tmp + length (digits_of base v) \<le> 24"
  shows "tmp_digits v base tmp = Some (tmp @ rev (map ((!) digit_chars) (digits_of base v)))"
  using assms
proof (induction base v arbitrary: tmp rule: digits_of.induct)
  case (1 base v)
  show ?case
  proof (cases "v = 0")
    case True
    then show ?thesis by (subst tmp_digits.simps, subst digits_of.simps) simp
  next
    case False
    then have d: "digits_of base v = digits_of base (v div base) @ [v mod base]"
      using 1(2) by (subst digits_of.simps) simp
    have "tmp_digits (v div base) base (tmp @ [digit_chars ! (v mod base)])
        = Some ((tmp @ [digit_chars ! (v mod base)]) @ rev (map ((!) digit_chars) (digits_of base (v div base))))"
      by (rule 1(1)) (use False 1(2,3) d in auto)
    then show ?thesis
      using False 1(3) d by (subst tmp_digits.simps) simp
  qed
qed

section \<open>Formatted output against its specification\<close>

text \<open>
  \<open>render\<close> is the text a format string and its arguments stand for, on lists and without a
  buffer.
\<close>

datatype darg = DStr "8 word list" | DInt "32 word" | DU64 "64 word"

definition render_conversion :: "8 word \<Rightarrow> darg list \<Rightarrow> (8 word list \<times> darg list) option" where
  "render_conversion c ds =
     (if c = 0x73 then (case ds of DStr xs # ds' \<Rightarrow> Some (xs, ds') | _ \<Rightarrow> None)
      else if c = 0x64 then (case ds of DInt v # ds' \<Rightarrow>
        Some (if sint v < 0 then 0x2d # numeral_text 10 (nat (- sint v)) else numeral_text 10 (nat (sint v)), ds') | _ \<Rightarrow> None)
      else if c = 0x75 then (case ds of DU64 v # ds' \<Rightarrow> Some (numeral_text 10 (unat v), ds') | _ \<Rightarrow> None)
      else if c = 0x78 then (case ds of DU64 v # ds' \<Rightarrow> Some (numeral_text 16 (unat v), ds') | _ \<Rightarrow> None)
      else if c = 0x63 then (case ds of DInt v # ds' \<Rightarrow> Some ([ucast v], ds') | _ \<Rightarrow> None)
      else if c = 0x25 then Some ([0x25], ds)
      else Some ([0x25, c], ds))"

fun render :: "8 word list \<Rightarrow> darg list \<Rightarrow> 8 word list option" where
  "render [] ds = Some []"
| "render [c] ds = Some (if c = 0x25 then [] else [c])"
| "render (c # d # fs) ds =
     (if c \<noteq> 0x25 then map_option ((#) c) (render (d # fs) ds)
      else case render_conversion d ds of
             None \<Rightarrow> None
           | Some (out, ds') \<Rightarrow> map_option ((@) out) (render fs ds'))"

definition denotes :: "memory \<Rightarrow> nat \<Rightarrow> nat \<Rightarrow> varg \<Rightarrow> darg \<Rightarrow> bool" where
  "denotes m buf buflen v d \<longleftrightarrow>
     (case (v, d) of
        (VStr p, DStr xs) \<Rightarrow> p = 0 \<and> xs = null_text \<or>
          p \<noteq> 0 \<and> cstr m p xs \<and> (p + length xs < buf \<or> buf + buflen \<le> p)
      | (VInt a, DInt b) \<Rightarrow> a = b
      | (VU64 a, DU64 b) \<Rightarrow> a = b
      | _ \<Rightarrow> False)"

text \<open>After emitting \<open>out\<close>: the prefix that fits is in the buffer, the rest of memory is untouched.\<close>

definition emitted :: "memory \<Rightarrow> nat \<Rightarrow> nat \<Rightarrow> 8 word list \<Rightarrow> memory \<times> nat \<Rightarrow> bool" where
  "emitted m0 buf buflen out st \<longleftrightarrow>
     snd st = length out \<and>
     (\<forall>a. a < buf \<or> buf + buflen \<le> a \<longrightarrow> fst st a = m0 a) \<and>
     (\<forall>i. i < length out \<and> i + 1 < buflen \<longrightarrow> fst st (buf + i) = out ! i)"

lemma emitted_putc:
  assumes "emitted m0 buf buflen out st" and "length out + 1 < 2 ^ 64"
  shows "emitted m0 buf buflen (out @ [c]) (buf_putc buf buflen c st)"
  using assms by (auto simp: emitted_def buf_putc_def u64_def nth_append less_Suc_eq)

lemma emitted_fold:
  "emitted m0 buf buflen out st \<Longrightarrow> length out + length xs < 2 ^ 64 \<Longrightarrow>
     emitted m0 buf buflen (out @ xs) (fold (buf_putc buf buflen) xs st)"
proof (induction xs arbitrary: out st)
  case (Cons x xs)
  have "emitted m0 buf buflen (out @ [x]) (buf_putc buf buflen x st)"
    using Cons.prems by (intro emitted_putc) auto
  from Cons.IH [OF this] Cons.prems(2) show ?case by simp
qed simp

lemma emitted_puts:
  "emitted m0 buf buflen out st \<Longrightarrow> length out + length xs < 2 ^ 64 \<Longrightarrow> cstr m0 s xs \<Longrightarrow>
     s + length xs < buf \<or> buf + buflen \<le> s \<Longrightarrow>
     \<exists>st'. buf_puts buf buflen s st = Some st' \<and> emitted m0 buf buflen (out @ xs) st'"
proof (induction xs arbitrary: out st s)
  case Nil
  then have "fst st s = 0" by (auto simp: emitted_def)
  with Nil show ?case by (subst buf_puts.simps) simp
next
  case (Cons x xs)
  have x: "fst st s = x" "x \<noteq> 0"
    using Cons.prems by (auto simp: emitted_def)
  have "emitted m0 buf buflen (out @ [x]) (buf_putc buf buflen x st)"
    using Cons.prems by (intro emitted_putc) auto
  from Cons.IH [OF this, of "s + 1"] Cons.prems x show ?case
    by (subst buf_puts.simps) auto
qed

lemma numeral_length: "base = 10 \<or> base = 16 \<Longrightarrow> v < 2 ^ 64 \<Longrightarrow> length (numeral_text base v) \<le> 20"
  using digits_length [of 10 v 20] digits_length [of 16 v 16] by (auto simp: numeral_text_def)

lemma emitted_putu:
  assumes "emitted m0 buf buflen out st" and "length out + length (numeral_text base v) < 2 ^ 64"
    and "base = 10 \<or> base = 16" and "v < 2 ^ 64"
  shows "\<exists>st'. buf_putu buf buflen v base st = Some st' \<and> emitted m0 buf buflen (out @ numeral_text base v) st'"
proof (cases "v = 0")
  case True
  then show ?thesis
    using assms(1,2) emitted_putc [OF assms(1), of "0x30"] by (simp add: buf_putu_def numeral_text_def)
next
  case False
  then have len: "length (digits_of base v) \<le> 24" and nt: "numeral_text base v = map ((!) digit_chars) (digits_of base v)"
    using numeral_length [OF assms(3,4)] by (simp_all add: numeral_text_def)
  have "tmp_digits v base [] = Some (rev (numeral_text base v))"
    using tmp_digits_law [of base "[]" v] len assms(3) nt by auto
  then show ?thesis
    using False emitted_fold [OF assms(1,2)] by (simp add: buf_putu_def)
qed

lemma sint_magnitude:
  fixes v :: "32 word"
  shows "sint v < 0 \<Longrightarrow> unat (0 - (scast v :: 64 word)) = nat (- sint v)"
    and "0 \<le> sint v \<Longrightarrow> unat (scast v :: 64 word) = nat (sint v)"
proof -
  have b: "- (2 ^ 31) \<le> sint v" "sint v < 2 ^ 31"
    using sint_ge [of v] sint_lt [of v] by simp_all
  have s: "(scast v :: 64 word) = word_of_int (sint v)"
    by (rule of_int_sint [symmetric])
  show "unat (0 - (scast v :: 64 word)) = nat (- sint v)" if "sint v < 0"
  proof -
    have "0 - (scast v :: 64 word) = word_of_int (- sint v)"
      by (simp only: s diff_0 of_int_minus)
    then have "unat (0 - (scast v :: 64 word)) = nat (uint (word_of_int (- sint v) :: 64 word))"
      by (simp only: unat_eq_nat_uint)
    also have "uint (word_of_int (- sint v) :: 64 word) = - sint v"
      using b that by (simp only: uint_word_of_int len_num1) (simp add: mod_pos_pos_trivial)
    finally show ?thesis .
  qed
  show "unat (scast v :: 64 word) = nat (sint v)" if "0 \<le> sint v"
  proof -
    have "uint (scast v :: 64 word) = sint v"
      using b that by (simp only: s uint_word_of_int) (simp add: mod_pos_pos_trivial)
    then show ?thesis by (metis unat_eq_nat_uint)
  qed
qed

lemma put_conversion_law:
  assumes "emitted m0 buf buflen out st" and "render_conversion c ds = Some (xs, ds')"
    and "list_all2 (denotes m0 buf buflen) args ds" and "length out + length xs < 2 ^ 64"
  shows "\<exists>st' args'. put_conversion buf buflen c args st = Some (st', args') \<and>
    emitted m0 buf buflen (out @ xs) st' \<and> list_all2 (denotes m0 buf buflen) args' ds'"
proof -
  note E = emitted_fold [OF assms(1)] emitted_putc [OF assms(1)] emitted_puts [OF assms(1)] emitted_putu [OF assms(1)]
  consider (s) "c = 0x73" | (d) "c = 0x64" | (u) "c = 0x75" | (x) "c = 0x78" | (c) "c = 0x63" | (pc) "c = 0x25"
    | (other) "c \<notin> {0x73, 0x64, 0x75, 0x78, 0x63, 0x25}" by blast
  then show ?thesis
  proof cases
    case s
    then obtain ys p as where a: "ds = DStr xs # ds'" "args = VStr p # as"
      "denotes m0 buf buflen (VStr p) (DStr xs)" "list_all2 (denotes m0 buf buflen) as ds'"
      using assms(2,3) by (auto simp: render_conversion_def list_all2_Cons2 denotes_def split: list.splits darg.splits varg.splits)
    then show ?thesis
      using s E(1,3) assms(4) by (auto simp: put_conversion_def denotes_def simp del: split_paired_Ex)
  next
    case d
    then obtain v as where a: "ds = DInt v # ds'" "args = VInt v # as" "list_all2 (denotes m0 buf buflen) as ds'"
      and xs: "xs = (if sint v < 0 then 0x2d # numeral_text 10 (nat (- sint v)) else numeral_text 10 (nat (sint v)))"
      using assms(2,3) by (auto simp: render_conversion_def list_all2_Cons2 denotes_def split: list.splits darg.splits varg.splits)
    have b: "- (2 ^ 31) \<le> sint v" "sint v < 2 ^ 31"
      using sint_ge [of v] sint_lt [of v] by simp_all
    show ?thesis
    proof (cases "sint v < 0")
      case True
      have "emitted m0 buf buflen (out @ [0x2d]) (buf_putc buf buflen 0x2d st)"
        using assms(4) xs True by (intro E(2)) simp
      from emitted_putu [OF this, of 10 "nat (- sint v)"] show ?thesis
        using True b assms(4) xs d a sint_magnitude(1) [OF True] by (auto simp: put_conversion_def simp del: split_paired_Ex)
    next
      case False
      then show ?thesis
        using E(4) [of 10 "nat (sint v)"] b assms(4) xs d a sint_magnitude(2) [of v] by (auto simp: put_conversion_def simp del: split_paired_Ex)
    qed
  next
    case u
    then obtain v as where a: "ds = DU64 v # ds'" "args = VU64 v # as" "list_all2 (denotes m0 buf buflen) as ds'"
      "xs = numeral_text 10 (unat v)"
      using assms(2,3) by (auto simp: render_conversion_def list_all2_Cons2 denotes_def split: list.splits darg.splits varg.splits)
    then show ?thesis
      using u E(4) [of 10 "unat v"] assms(4) unsigned_less [of v] by (auto simp: put_conversion_def simp del: split_paired_Ex)
  next
    case x
    then obtain v as where a: "ds = DU64 v # ds'" "args = VU64 v # as" "list_all2 (denotes m0 buf buflen) as ds'"
      "xs = numeral_text 16 (unat v)"
      using assms(2,3) by (auto simp: render_conversion_def list_all2_Cons2 denotes_def split: list.splits darg.splits varg.splits)
    then show ?thesis
      using x E(4) [of 16 "unat v"] assms(4) unsigned_less [of v] by (auto simp: put_conversion_def simp del: split_paired_Ex)
  next
    case c
    then obtain v as where a: "ds = DInt v # ds'" "args = VInt v # as" "list_all2 (denotes m0 buf buflen) as ds'"
      "xs = [ucast v]"
      using assms(2,3) by (auto simp: render_conversion_def list_all2_Cons2 denotes_def split: list.splits darg.splits varg.splits)
    then show ?thesis
      using c E(2) assms(4) by (auto simp: put_conversion_def simp del: split_paired_Ex)
  next
    case pc
    then show ?thesis
      using assms(2-4) E(2) by (auto simp: put_conversion_def render_conversion_def simp del: split_paired_Ex)
  next
    case other
    then have xs: "xs = [0x25, c]" "ds' = ds"
      using assms(2) by (auto simp: render_conversion_def)
    then have "emitted m0 buf buflen (out @ [0x25, c]) (fold (buf_putc buf buflen) [0x25, c] st)"
      using assms(4) by (intro E(1)) simp
    then show ?thesis
      using other xs assms(3) by (simp add: put_conversion_def)
  qed
qed

lemma kvsnprintf_loop_law:
  "emitted m0 buf buflen out st \<Longrightarrow> cstr m0 fmt fs \<Longrightarrow> fmt + length fs < buf \<or> buf + buflen \<le> fmt \<Longrightarrow>
   list_all2 (denotes m0 buf buflen) args ds \<Longrightarrow> render fs ds = Some xs \<Longrightarrow> length out + length xs < 2 ^ 64 \<Longrightarrow>
   \<exists>st'. kvsnprintf_loop buf buflen fmt args st = Some st' \<and> emitted m0 buf buflen (out @ xs) st'"
proof (induction fs ds arbitrary: out st fmt args xs rule: render.induct)
  case (1 ds)
  then have "fst st fmt = 0" by (auto simp: emitted_def)
  with 1 show ?case by (subst kvsnprintf_loop.simps) simp
next
  case (2 c ds)
  then have r: "fst st fmt = c" "fst st (fmt + 1) = 0" "c \<noteq> 0" by (auto simp: emitted_def)
  show ?case
  proof (cases "c = 0x25")
    case True
    then show ?thesis
      using r 2 by (subst kvsnprintf_loop.simps) simp
  next
    case False
    then have xs: "xs = [c]" using 2(5) by simp
    have e: "emitted m0 buf buflen (out @ [c]) (buf_putc buf buflen c st)"
      using 2(1,6) xs by (intro emitted_putc) simp_all
    have "fst (buf_putc buf buflen c st) (fmt + 1) = 0"
      using e 2(2,3) by (auto simp: emitted_def)
    then have "kvsnprintf_loop buf buflen (fmt + 1) args (buf_putc buf buflen c st) = Some (buf_putc buf buflen c st)"
      by (subst kvsnprintf_loop.simps) simp
    then show ?thesis
      using e xs r False by (subst kvsnprintf_loop.simps) simp
  qed
next
  case (3 c d fs ds)
  then have r: "fst st fmt = c" "fst st (fmt + 1) = d" "c \<noteq> 0" "d \<noteq> 0" by (auto simp: emitted_def)
  show ?case
  proof (cases "c = 0x25")
    case True
    then obtain out' ds' ys where o: "render_conversion d ds = Some (out', ds')" "render fs ds' = Some ys" "xs = out' @ ys"
      using 3(7) by (auto split: option.splits)
    from put_conversion_law [OF 3(3) o(1) 3(6)] 3(8) o(3) obtain st' args'
      where p: "put_conversion buf buflen d args st = Some (st', args')" "emitted m0 buf buflen (out @ out') st'"
        "list_all2 (denotes m0 buf buflen) args' ds'"
      by auto
    have "\<exists>st''. kvsnprintf_loop buf buflen (fmt + 2) args' st' = Some st'' \<and> emitted m0 buf buflen ((out @ out') @ ys) st''"
      by (rule 3(2) [OF _ o(1) refl p(2) _ _ p(3) o(2)]) (use True 3(4,5,8) o(3) in auto)
    then show ?thesis
      using r True p(1) o(3) by (subst kvsnprintf_loop.simps) simp
  next
    case False
    then obtain ys where ys: "render (d # fs) ds = Some ys" "xs = c # ys"
      using 3(7) by auto
    have e: "emitted m0 buf buflen (out @ [c]) (buf_putc buf buflen c st)"
      using 3(3,8) ys by (intro emitted_putc) simp_all
    have "\<exists>st''. kvsnprintf_loop buf buflen (fmt + 1) args (buf_putc buf buflen c st) = Some st'' \<and>
        emitted m0 buf buflen ((out @ [c]) @ ys) st''"
      by (rule 3(1) [OF False e _ _ 3(6) ys(1)]) (use 3(4,5,8) ys in auto)
    then show ?thesis
      using r False ys by (subst kvsnprintf_loop.simps) simp
  qed
qed

section \<open>Properties\<close>

text \<open>
  C28. \<^verbatim>\<open>memmove\<close> moves the block as a whole whatever the overlap: every destination byte is
  the source byte as it was before the call and no other byte changes. \<^verbatim>\<open>memcpy\<close>, which
  always copies upwards, agrees with it unless the destination starts inside the source.
\<close>
theorem memmove_correct:
  "memmove m d s n a = (if d \<le> a \<and> a < d + n then m (s + (a - d)) else m a) \<and>
   (d < s \<or> s + n \<le> d \<longrightarrow> memcpy m d s n = memmove m d s n)"
proof -
  have "memcpy m d s n = moved m d s n" if "d < s \<or> s + n \<le> d"
    unfolding memcpy_def using that by (rule copy_forward)
  then show ?thesis
    unfolding memmove_law by (auto simp: moved_def)
qed

theorem memmove_correct_witness:
  "memcpy (\<lambda>a. of_nat a) 10 12 5 = memmove (\<lambda>a. of_nat a) 10 12 5 \<and>
   memmove (\<lambda>a. of_nat a) 12 10 5 14 = (12 :: 8 word)"
  using memmove_correct [of "\<lambda>a. of_nat a" 10 12 5 0] memmove_correct [of "\<lambda>a. of_nat a" 12 10 5 14] by simp



end
