(* ===== verification/Vfs.thy ===== *)
theory Vfs
  imports Heap "HOL-Library.Monad_Syntax"
begin

text \<open>
  The virtual file system, \<^verbatim>\<open>src/src/fs/vfs/vfs.c\<close>: the node nodes, path resolution and the
  enumeration of in-memory directories. Nodes are indices into the nodes, and a null pointer is
  \<^term>\<open>None\<close>. File systems and devices are reached through operation tables; a table is named
  by a number and \<open>drivers\<close> says what each table does, so the code of a driver is an argument of
  the operations that call it. \<open>world\<close> is whatever state the drivers keep. Names and paths are
  character lists without the terminator. An outer \<^term>\<open>None\<close> is a call that does not return or
  dereferences a null pointer.
\<close>

section \<open>Nodes\<close>

datatype vnode_type = VNODE_REG | VNODE_DIR | VNODE_CHR | VNODE_BLK

record vnode =
  vname :: string
  vtype :: vnode_type
  vops :: "nat option"
  v_ops :: "nat option"
  private_data :: nat
  vsize :: nat
  vparent :: "nat option"
  vchildren :: "nat option"
  vnext :: "nat option"

record file_t =
  fvnode :: nat
  foffset :: int
  fflags :: nat
  refcount :: int

record 'w vfs =
  vheap :: heap
  node_pool :: "vnode list"
  root :: "nat option"
  files :: "nat \<Rightarrow> file_t"
  fd_tables :: "nat \<Rightarrow> nat \<Rightarrow> nat"
  world :: 'w

record vfs_dirent =
  de_name :: string
  de_size :: nat
  de_is_dir :: bool
  de_id :: nat

record 'w drivers =
  drv_read :: "nat \<Rightarrow> ('w vfs \<Rightarrow> nat \<Rightarrow> nat \<Rightarrow> nat \<Rightarrow> ('w vfs \<times> int) option) option"
  drv_write :: "nat \<Rightarrow> ('w vfs \<Rightarrow> nat \<Rightarrow> nat \<Rightarrow> nat \<Rightarrow> ('w vfs \<times> int) option) option"
  drv_truncate :: "nat \<Rightarrow> ('w vfs \<Rightarrow> nat \<Rightarrow> nat \<Rightarrow> ('w vfs \<times> int) option) option"
  drv_lookup :: "nat \<Rightarrow> ('w vfs \<Rightarrow> nat \<Rightarrow> string \<Rightarrow> ('w vfs \<times> nat option) option) option"
  drv_readdir :: "nat \<Rightarrow> ('w vfs \<Rightarrow> nat \<Rightarrow> nat \<Rightarrow> nat \<Rightarrow> ('w vfs \<times> vfs_dirent list \<times> nat \<times> bool \<times> int) option) option"
  drv_create :: "('w vfs \<Rightarrow> string \<Rightarrow> ('w vfs \<times> int) option) option"

definition MAX_VNODES :: nat where "MAX_VNODES = 128"

definition vfs_builtin_dir_ops :: nat where "vfs_builtin_dir_ops = 0"

definition vn :: "'w vfs \<Rightarrow> nat \<Rightarrow> vnode" where
  "vn s i = node_pool s ! i"

definition set_vn :: "nat \<Rightarrow> (vnode \<Rightarrow> vnode) \<Rightarrow> 'w vfs \<Rightarrow> 'w vfs" where
  "set_vn i f s = s\<lparr>node_pool := (node_pool s)[i := f (node_pool s ! i)]\<rparr>"

definition alloc_vnode :: "'w vfs \<Rightarrow> string \<Rightarrow> vnode_type \<Rightarrow> 'w vfs \<times> nat option" where
  "alloc_vnode s name type =
     (if length (node_pool s) \<ge> MAX_VNODES then (s, None)
      else (s\<lparr>node_pool := node_pool s @
              [\<lparr>vname = take 63 name, vtype = type, vops = None, v_ops = None, private_data = 0, vsize = 0,
                vparent = None, vchildren = None, vnext = None\<rparr>]\<rparr>, Some (length (node_pool s))))"

definition vfs_init :: "'w vfs \<Rightarrow> 'w vfs" where
  "vfs_init s =
     (let (s1, r) = alloc_vnode s ''/'' VNODE_DIR; s2 = s1\<lparr>root := r\<rparr> in
      case r of None \<Rightarrow> s2 | Some i \<Rightarrow> set_vn i (\<lambda>n. n\<lparr>v_ops := Some vfs_builtin_dir_ops\<rparr>) s2)"

definition vfs_create_node :: "'w vfs \<Rightarrow> nat option \<Rightarrow> string \<Rightarrow> vnode_type \<Rightarrow> 'w vfs \<times> nat option" where
  "vfs_create_node s parent name type =
     (let (s1, r) = alloc_vnode s name type in
      case r of
        None \<Rightarrow> (s1, None)
      | Some i \<Rightarrow>
          (let s2 = set_vn i (\<lambda>n. n\<lparr>vparent := parent\<rparr>) s1;
               s3 = (if type = VNODE_DIR then set_vn i (\<lambda>n. n\<lparr>v_ops := Some vfs_builtin_dir_ops\<rparr>) s2 else s2)
           in case parent of
                None \<Rightarrow> (s3, Some i)
              | Some p \<Rightarrow>
                  (set_vn p (\<lambda>n. n\<lparr>vchildren := Some i\<rparr>)
                     (set_vn i (\<lambda>n. n\<lparr>vnext := vchildren (vn s3 p)\<rparr>) s3), Some i)))"

section \<open>Path resolution\<close>

definition name_match :: "string \<Rightarrow> string \<Rightarrow> bool" where
  "name_match node_name s \<longleftrightarrow> node_name = s"

partial_function (option) find_cached :: "vnode list \<Rightarrow> nat option \<Rightarrow> string \<Rightarrow> nat option option" where
  "find_cached nodes c name =
     (case c of
        None \<Rightarrow> Some None
      | Some i \<Rightarrow> if name_match (vname (nodes ! i)) name then Some (Some i)
                  else find_cached nodes (vnext (nodes ! i)) name)"

definition lookup_op :: "'w drivers \<Rightarrow> nat \<Rightarrow> ('w vfs \<Rightarrow> nat \<Rightarrow> string \<Rightarrow> ('w vfs \<times> nat option) option) option" where
  "lookup_op drv ops = (if ops = vfs_builtin_dir_ops then None else drv_lookup drv ops)"

definition find_child :: "'w drivers \<Rightarrow> 'w vfs \<Rightarrow> nat \<Rightarrow> string \<Rightarrow> ('w vfs \<times> nat option) option" where
  "find_child drv s dir name =
     do {
       r \<leftarrow> find_cached (node_pool s) (vchildren (vn s dir)) name;
       case r of
         Some i \<Rightarrow> Some (s, Some i)
       | None \<Rightarrow>
           (case Option.bind (v_ops (vn s dir)) (lookup_op drv) of
              None \<Rightarrow> Some (s, None)
            | Some lookup \<Rightarrow> lookup s dir name)
     }"

text \<open>
  The loop of \<^verbatim>\<open>vfs_resolve_at\<close> on what is left of the path; the current node is null only if the
  file system was never initialised.
\<close>

definition not_slash :: "char \<Rightarrow> bool" where
  "not_slash c \<longleftrightarrow> c \<noteq> CHR ''/''"

lemma skip_shorter [termination_simp]:
  "dropWhile (\<lambda>c. c = CHR ''/'') path = c # p \<Longrightarrow> length (dropWhile not_slash (c # p)) < length path"
proof -
  assume a: "dropWhile (\<lambda>c. c = CHR ''/'') path = c # p"
  then have "not_slash c"
    using hd_dropWhile [of "\<lambda>c. c = CHR ''/''" path] by (auto simp: not_slash_def)
  then have "length (dropWhile not_slash (c # p)) \<le> length p"
    by (simp add: length_dropWhile_le)
  also have "\<dots> < length path"
    using a length_dropWhile_le [of "\<lambda>c. c = CHR ''/''" path] by simp
  finally show ?thesis .
qed

function resolve_loop :: "'w drivers \<Rightarrow> 'w vfs \<Rightarrow> nat option \<Rightarrow> string \<Rightarrow> ('w vfs \<times> nat option) option" where
  "resolve_loop drv s cur path =
     (case dropWhile (\<lambda>c. c = CHR ''/'') path of
        [] \<Rightarrow> Some (s, cur)
      | c # p \<Rightarrow>
          (let part = takeWhile not_slash (c # p); rest = dropWhile not_slash (c # p) in
           case cur of
             None \<Rightarrow> None
           | Some n \<Rightarrow>
               if vtype (vn s n) \<noteq> VNODE_DIR then Some (s, None)
               else if part = ''.'' then resolve_loop drv s cur rest
               else if part = ''..'' then
                 resolve_loop drv s (case vparent (vn s n) of None \<Rightarrow> cur | Some q \<Rightarrow> Some q) rest
               else (case find_child drv s n part of
                       None \<Rightarrow> None
                     | Some (s1, None) \<Rightarrow> Some (s1, None)
                     | Some (s1, Some k) \<Rightarrow> resolve_loop drv s1 (Some k) rest)))"
  by pat_completeness auto
termination
  by (relation "measure (\<lambda>(drv, s, cur, path). length path)") (auto simp: skip_shorter simp del: dropWhile.simps takeWhile.simps)

declare resolve_loop.simps [simp del]

definition vfs_resolve_at :: "'w drivers \<Rightarrow> 'w vfs \<Rightarrow> nat option \<Rightarrow> string option \<Rightarrow> ('w vfs \<times> nat option) option" where
  "vfs_resolve_at drv s base path =
     (case path of
        None \<Rightarrow> Some (s, None)
      | Some p \<Rightarrow>
          (case p of
             CHR ''/'' # p1 \<Rightarrow> resolve_loop drv s (root s) p1
           | _ \<Rightarrow> resolve_loop drv s (case base of None \<Rightarrow> root s | Some b \<Rightarrow> Some b) p))"

definition vfs_resolve :: "'w drivers \<Rightarrow> 'w vfs \<Rightarrow> string option \<Rightarrow> ('w vfs \<times> nat option) option" where
  "vfs_resolve drv s path = vfs_resolve_at drv s (root s) path"

definition vfs_register_dev ::
    "'w drivers \<Rightarrow> 'w vfs \<Rightarrow> string \<Rightarrow> vnode_type \<Rightarrow> nat option \<Rightarrow> ('w vfs \<times> nat option) option" where
  "vfs_register_dev drv s name type ops =
     do {
       (s1, dev) \<leftarrow> vfs_resolve drv s (Some ''/dev'');
       let (s2, dev2) = (case dev of None \<Rightarrow> vfs_create_node s1 (root s1) ''dev'' VNODE_DIR | Some d \<Rightarrow> (s1, Some d));
       let (s3, node) = vfs_create_node s2 dev2 name type;
       Some (case node of None \<Rightarrow> s3 | Some i \<Rightarrow> set_vn i (\<lambda>n. n\<lparr>vops := ops\<rparr>) s3, node)
     }"

definition vfs_register_chardev :: "'w drivers \<Rightarrow> 'w vfs \<Rightarrow> string \<Rightarrow> nat option \<Rightarrow> ('w vfs \<times> nat option) option" where
  "vfs_register_chardev drv s name ops = vfs_register_dev drv s name VNODE_CHR ops"

definition vfs_register_blockdev :: "'w drivers \<Rightarrow> 'w vfs \<Rightarrow> string \<Rightarrow> nat option \<Rightarrow> ('w vfs \<times> nat option) option" where
  "vfs_register_blockdev drv s name ops = vfs_register_dev drv s name VNODE_BLK ops"

section \<open>Directory enumeration\<close>

text \<open>The cookie is the number of children already handed out; \<open>seen\<close> and \<open>out\<close> are the loop's locals.\<close>

partial_function (option) builtin_readdir_loop ::
    "vnode list \<Rightarrow> nat option \<Rightarrow> nat \<Rightarrow> nat \<Rightarrow> nat \<Rightarrow> vfs_dirent list \<Rightarrow> (vfs_dirent list \<times> nat \<times> bool) option" where
  "builtin_readdir_loop nodes c offset mx seen out =
     (case c of
        None \<Rightarrow> Some (out, seen, True)
      | Some i \<Rightarrow>
          if seen < offset then builtin_readdir_loop nodes (vnext (nodes ! i)) offset mx (seen + 1) out
          else if length out = mx then Some (out, seen, False)
          else builtin_readdir_loop nodes (vnext (nodes ! i)) offset mx (seen + 1)
                 (out @ [\<lparr>de_name = take 255 (vname (nodes ! i)), de_size = vsize (nodes ! i),
                          de_is_dir = (vtype (nodes ! i) = VNODE_DIR), de_id = i\<rparr>]))"

text \<open>The result: the entries, the new cookie, the end flag, and the returned count.\<close>

definition vfs_builtin_readdir ::
    "'w vfs \<Rightarrow> nat option \<Rightarrow> nat \<Rightarrow> nat \<Rightarrow> ('w vfs \<times> vfs_dirent list \<times> nat \<times> bool \<times> int) option" where
  "vfs_builtin_readdir s dir offset mx =
     (case dir of
        None \<Rightarrow> Some (s, [], offset, False, -1)
      | Some d \<Rightarrow>
          if vtype (vn s d) \<noteq> VNODE_DIR then Some (s, [], offset, False, -1)
          else do {
            (out, seen, done) \<leftarrow> builtin_readdir_loop (node_pool s) (vchildren (vn s d)) offset mx 0 [];
            Some (s, out, seen, done, int (length out))
          })"

definition vfs_readdir ::
    "'w drivers \<Rightarrow> 'w vfs \<Rightarrow> nat option \<Rightarrow> nat \<Rightarrow> nat \<Rightarrow> ('w vfs \<times> vfs_dirent list \<times> nat \<times> bool \<times> int) option" where
  "vfs_readdir drv s dir offset mx =
     (case dir of
        None \<Rightarrow> Some (s, [], offset, False, -1)
      | Some d \<Rightarrow>
          if vtype (vn s d) \<noteq> VNODE_DIR then Some (s, [], offset, False, -1)
          else (case v_ops (vn s d) of
                  None \<Rightarrow> Some (s, [], offset, False, -1)
                | Some ops \<Rightarrow>
                    if ops = vfs_builtin_dir_ops then vfs_builtin_readdir s dir offset mx
                    else (case drv_readdir drv ops of
                            None \<Rightarrow> Some (s, [], offset, False, -1)
                          | Some f \<Rightarrow> f s d offset mx)))"

section \<open>Resolution against its specification\<close>

text \<open>
  The reference: cut the path at the slashes, drop the empty pieces, and walk the pieces one
  after the other.
\<close>

fun split_slash :: "string \<Rightarrow> string list" where
  "split_slash [] = [[]]"
| "split_slash (c # cs) =
     (if c = CHR ''/'' then [] # split_slash cs
      else (case split_slash cs of [] \<Rightarrow> [[c]] | p # ps \<Rightarrow> (c # p) # ps))"

definition components :: "string \<Rightarrow> string list" where
  "components path = filter (\<lambda>p. p \<noteq> []) (split_slash path)"

definition resolve_step :: "'w drivers \<Rightarrow> 'w vfs \<Rightarrow> nat option \<Rightarrow> string \<Rightarrow> ('w vfs \<times> nat option) option" where
  "resolve_step drv s cur part =
     (case cur of
        None \<Rightarrow> None
      | Some n \<Rightarrow>
          if vtype (vn s n) \<noteq> VNODE_DIR then Some (s, None)
          else if part = ''.'' then Some (s, cur)
          else if part = ''..'' then Some (s, case vparent (vn s n) of None \<Rightarrow> cur | Some q \<Rightarrow> Some q)
          else find_child drv s n part)"

fun walk_components :: "'w drivers \<Rightarrow> 'w vfs \<Rightarrow> nat option \<Rightarrow> string list \<Rightarrow> ('w vfs \<times> nat option) option" where
  "walk_components drv s cur [] = Some (s, cur)"
| "walk_components drv s cur (part # cs) =
     (case resolve_step drv s cur part of
        None \<Rightarrow> None
      | Some (s1, None) \<Rightarrow> Some (s1, None)
      | Some (s1, Some k) \<Rightarrow> walk_components drv s1 (Some k) cs)"

lemma split_slash_nonempty: "split_slash p \<noteq> []"
  by (induction p) (auto split: list.split)

lemma components_slash: "components (CHR ''/'' # p) = components p"
  by (simp add: components_def)

lemma components_skip: "components (dropWhile (\<lambda>c. c = CHR ''/'') p) = components p"
  by (induction p) (simp_all add: components_slash)

lemma split_slash_span:
  "split_slash p = takeWhile not_slash p # (case dropWhile not_slash p of [] \<Rightarrow> [] | _ # r \<Rightarrow> split_slash r)"
  by (induction p) (auto simp: not_slash_def split: list.splits)

lemma components_cons:
  assumes "not_slash c"
  shows "components (c # p) = takeWhile not_slash (c # p) # components (dropWhile not_slash (c # p))"
proof -
  have "takeWhile not_slash (c # p) \<noteq> []" using assms by simp
  then have step: "components (c # p) = takeWhile not_slash (c # p) #
      filter (\<lambda>p. p \<noteq> []) (case dropWhile not_slash (c # p) of [] \<Rightarrow> [] | _ # r \<Rightarrow> split_slash r)"
    unfolding components_def by (subst split_slash_span) simp
  show ?thesis
  proof (cases "dropWhile not_slash (c # p)")
    case Nil
    show ?thesis unfolding step Nil by (simp add: components_def)
  next
    case (Cons d r)
    then have "d = CHR ''/''"
      using hd_dropWhile [of not_slash "c # p"] by (simp add: not_slash_def del: dropWhile.simps)
    then show ?thesis
      unfolding step Cons by (simp add: components_def)
  qed
qed

lemma resolve_loop_components: "resolve_loop drv s cur path = walk_components drv s cur (components path)"
proof (induction drv s cur path rule: resolve_loop.induct)
  case (1 drv s cur path)
  show ?case
  proof (cases "dropWhile (\<lambda>c. c = CHR ''/'') path")
    case Nil
    then have "components path = []"
      using components_skip [of path] unfolding Nil by (simp add: components_def)
    then show ?thesis by (subst resolve_loop.simps) (simp only: Nil list.case walk_components.simps)
  next
    case (Cons c p)
    then have "not_slash c"
      using hd_dropWhile [of "\<lambda>c. c = CHR ''/''" path] by (auto simp: not_slash_def)
    with Cons components_skip [of path]
    have comps: "components path = takeWhile not_slash (c # p) # components (dropWhile not_slash (c # p))"
      using components_cons by simp
    show ?thesis
    proof (cases cur)
      case None
      then show ?thesis
        unfolding comps by (subst resolve_loop.simps) (simp add: Cons resolve_step_def Let_def)
    next
      case (Some n)
      note IH = 1 [OF Cons refl refl Some]
      show ?thesis
        unfolding comps
        using IH [unfolded Some]
        by (subst resolve_loop.simps, cases "vparent (vn s n)")
          (auto simp: Cons Some resolve_step_def Let_def simp del: takeWhile.simps dropWhile.simps
            split: option.split prod.split)
    qed
  qed
qed

section \<open>Child lists\<close>

fun chain :: "vnode list \<Rightarrow> nat option \<Rightarrow> nat list \<Rightarrow> bool" where
  "chain nodes c [] \<longleftrightarrow> c = None"
| "chain nodes c (k # ks) \<longleftrightarrow> c = Some k \<and> k < length nodes \<and> chain nodes (vnext (nodes ! k)) ks"

text \<open>
  Well-formed pools: every node has a finite child list of existing nodes, and its children name it
  as their parent.
\<close>

definition nodes_ok :: "vnode list \<Rightarrow> bool" where
  "nodes_ok nodes \<longleftrightarrow>
     (\<forall>d < length nodes. \<exists>ks. chain nodes (vchildren (nodes ! d)) ks \<and> distinct ks \<and>
        (\<forall>k \<in> set ks. vparent (nodes ! k) = Some d))"

lemma chain_unique: "chain nodes c ks \<Longrightarrow> chain nodes c ls \<Longrightarrow> ks = ls"
  by (induction ks arbitrary: c ls) (case_tac ls; auto)+

lemma find_cached_chain:
  "chain nodes c ks \<Longrightarrow> find_cached nodes c name = Some (find (\<lambda>k. vname (nodes ! k) = name) ks)"
proof (induction ks arbitrary: c)
  case Nil
  then show ?case by (subst find_cached.simps) simp
next
  case (Cons k ks)
  then show ?case by (subst find_cached.simps) (simp add: name_match_def)
qed

lemma chain_set: "chain nodes c ks \<Longrightarrow> set ks \<subseteq> {..<length nodes}"
  by (induction ks arbitrary: c) auto

lemma chain_cong:
  "chain nodes c ks \<Longrightarrow> length nodes \<le> length nodes' \<Longrightarrow> \<forall>k \<in> set ks. vnext (nodes' ! k) = vnext (nodes ! k) \<Longrightarrow>
     chain nodes' c ks"
  by (induction ks arbitrary: c) auto

definition dirent_of :: "vnode list \<Rightarrow> nat \<Rightarrow> vfs_dirent" where
  "dirent_of nodes k = \<lparr>de_name = take 255 (vname (nodes ! k)), de_size = vsize (nodes ! k),
     de_is_dir = (vtype (nodes ! k) = VNODE_DIR), de_id = k\<rparr>"

lemma readdir_loop_law:
  assumes "chain nodes c ks" and "length out \<le> mx" and "seen < offset \<longrightarrow> out = []"
  shows "builtin_readdir_loop nodes c offset mx seen out =
    Some (out @ map (dirent_of nodes) (take (mx - length out) (drop (offset - seen) ks)),
          seen + min (length ks) (offset - seen + (mx - length out)),
          length ks \<le> offset - seen + (mx - length out))"
  using assms
proof (induction ks arbitrary: c seen out)
  case Nil
  then show ?case by (subst builtin_readdir_loop.simps) simp
next
  case (Cons k ks)
  show ?case
  proof (cases "seen < offset")
    case True
    then have "offset - seen = Suc (offset - Suc seen)" by simp
    with True Cons show ?thesis
      by (subst builtin_readdir_loop.simps) (auto simp: min_def)
  next
    case False
    show ?thesis
    proof (cases "length out = mx")
      case True
      with False Cons.prems show ?thesis by (subst builtin_readdir_loop.simps) simp
    next
      case less: False
      then have "mx - length out = Suc (mx - Suc (length out))"
        using Cons.prems(2) by simp
      with False less Cons show ?thesis
        by (subst builtin_readdir_loop.simps) (auto simp: dirent_of_def min_def)
    qed
  qed
qed

lemma readdir_law:
  assumes "chain (node_pool s) (vchildren (vn s d)) ks" and "vtype (vn s d) = VNODE_DIR"
  shows "vfs_builtin_readdir s (Some d) offset mx =
    Some (s, map (dirent_of (node_pool s)) (take mx (drop offset ks)), min (length ks) (offset + mx),
          length ks \<le> offset + mx, int (min mx (length ks - offset)))"
  using assms readdir_loop_law [OF assms(1), of "[]" mx 0 offset]
  by (simp add: vfs_builtin_readdir_def min.commute)

section \<open>Creating nodes\<close>

lemma create_node_shape:
  assumes "vfs_create_node s (Some p) name type = (s', Some i)" and "p < length (node_pool s)"
  shows "i = length (node_pool s)" and "length (node_pool s') = Suc i" and "i < MAX_VNODES"
    and "vnext (vn s' i) = vchildren (vn s p)" and "vchildren (vn s' i) = None" and "vparent (vn s' i) = Some p"
    and "vname (vn s' i) = take 63 name" and "vtype (vn s' i) = type"
    and "vchildren (vn s' p) = Some i"
    and "d < i \<Longrightarrow> d \<noteq> p \<Longrightarrow> vn s' d = vn s d"
    and "d < i \<Longrightarrow> vnext (vn s' d) = vnext (vn s d) \<and> vname (vn s' d) = vname (vn s d) \<and> vparent (vn s' d) = vparent (vn s d)"
  using assms
  by (auto simp: vfs_create_node_def alloc_vnode_def set_vn_def vn_def nth_append nth_list_update MAX_VNODES_def Let_def
      split: if_splits)

lemma create_node_law:
  assumes "vfs_create_node s (Some p) name type = (s', Some i)" and "p < length (node_pool s)"
    and "nodes_ok (node_pool s)"
  shows "nodes_ok (node_pool s')"
    and "chain (node_pool s) (vchildren (vn s p)) ks \<Longrightarrow> chain (node_pool s') (vchildren (vn s' p)) (i # ks)"
    and "d < length (node_pool s) \<Longrightarrow> d \<noteq> p \<Longrightarrow> chain (node_pool s) (vchildren (vn s d)) ks \<Longrightarrow>
      chain (node_pool s') (vchildren (vn s' d)) ks"
proof -
  note C = create_node_shape [OF assms(1,2)]
  have old: "chain (node_pool s') c ls" if "chain (node_pool s) c ls" for c ls
    using chain_cong [OF that, of "node_pool s'"] chain_set [OF that] C(1,2,11) by (auto simp: vn_def)
  have p: "chain (node_pool s') (vchildren (vn s' p)) (i # ls)" if "chain (node_pool s) (vchildren (vn s p)) ls" for ls
    using old [OF that] C by (simp add: vn_def)
  show "chain (node_pool s) (vchildren (vn s p)) ks \<Longrightarrow> chain (node_pool s') (vchildren (vn s' p)) (i # ks)"
    by (rule p)
  show other: "chain (node_pool s') (vchildren (vn s' d)) ks"
    if "d < length (node_pool s)" "d \<noteq> p" "chain (node_pool s) (vchildren (vn s d)) ks" for d ks
    using old [OF that(3)] C(1,10) that by simp
  show "nodes_ok (node_pool s')"
    unfolding nodes_ok_def
  proof (intro allI impI)
    fix d assume "d < length (node_pool s')"
    then consider "d = i" | "d = p" | "d < length (node_pool s)" "d \<noteq> p"
      using C(1,2) by linarith
    then show "\<exists>ks. chain (node_pool s') (vchildren (node_pool s' ! d)) ks \<and> distinct ks \<and>
        (\<forall>k \<in> set ks. vparent (node_pool s' ! k) = Some d)"
    proof cases
      case 1
      then show ?thesis using C(5) by (intro exI [of _ "[]"]) (simp add: vn_def)
    next
      case 2
      obtain ls where ls: "chain (node_pool s) (vchildren (vn s p)) ls" "distinct ls"
        "\<forall>k \<in> set ls. vparent (vn s k) = Some p"
        using assms(2,3) unfolding nodes_ok_def vn_def by blast
      then show ?thesis
        using 2 p [OF ls(1)] C(1,6,11) chain_set [OF ls(1)]
        by (intro exI [of _ "i # ls"]) (auto simp: vn_def subset_iff)
    next
      case 3
      obtain ls where ls: "chain (node_pool s) (vchildren (vn s d)) ls" "distinct ls"
        "\<forall>k \<in> set ls. vparent (vn s k) = Some d"
        using 3(1) assms(3) unfolding nodes_ok_def vn_def by blast
      then show ?thesis
        using other [OF 3 ls(1)] C(1,11) chain_set [OF ls(1)]
        by (intro exI [of _ ls]) (auto simp: vn_def subset_iff)
    qed
  qed
qed

lemma create_find_other:
  assumes "vfs_create_node s (Some p) name type = (s', Some i)" and "p < length (node_pool s)"
    and "nodes_ok (node_pool s)" and "d < length (node_pool s)" and "d \<noteq> p \<or> nm \<noteq> take 63 name"
  shows "find_cached (node_pool s') (vchildren (vn s' d)) nm = find_cached (node_pool s) (vchildren (vn s d)) nm"
proof -
  note C = create_node_shape [OF assms(1,2)]
  obtain ls where ls: "chain (node_pool s) (vchildren (vn s d)) ls"
    using assms(3,4) unfolding nodes_ok_def vn_def by blast
  have same: "find (\<lambda>k. vname (node_pool s' ! k) = nm) ls = find (\<lambda>k. vname (node_pool s ! k) = nm) ls"
    using chain_set [OF ls] C(1,11) by (intro find_cong) (auto simp: vn_def)
  show ?thesis
  proof (cases "d = p")
    case True
    then have nm: "vname (node_pool s' ! i) \<noteq> nm"
      using assms(5) C(7) by (auto simp: vn_def)
    show ?thesis
      using find_cached_chain [OF create_node_law(2) [OF assms(1-3), of ls]] ls find_cached_chain [OF ls, of nm] same nm True
      by simp
  next
    case False
    show ?thesis
      using find_cached_chain [OF create_node_law(3) [OF assms(1-3) assms(4) False ls]] find_cached_chain [OF ls, of nm] same
      by simp
  qed
qed

section \<open>Properties\<close>

definition demo_vfs :: "unit vfs" where
  "demo_vfs = vfs_init \<lparr>vheap = demo_heap, node_pool = [], root = None,
     files = (\<lambda>_. \<lparr>fvnode = 0, foffset = 0, fflags = 0, refcount = 0\<rparr>), fd_tables = (\<lambda>_ _. 0), world = ()\<rparr>"

definition no_drivers :: "unit drivers" where
  "no_drivers = \<lparr>drv_read = (\<lambda>_. None), drv_write = (\<lambda>_. None), drv_truncate = (\<lambda>_. None),
     drv_lookup = (\<lambda>_. None), drv_readdir = (\<lambda>_. None), drv_create = None\<rparr>"

lemma demo_vfs_eq:
  "node_pool demo_vfs = [\<lparr>vname = ''/'', vtype = VNODE_DIR, vops = None, v_ops = Some 0, private_data = 0, vsize = 0,
     vparent = None, vchildren = None, vnext = None\<rparr>]" "root demo_vfs = Some 0" "vheap demo_vfs = demo_heap"
  "fd_tables demo_vfs = (\<lambda>_ _. 0)"
  by (simp_all add: demo_vfs_def vfs_init_def alloc_vnode_def set_vn_def MAX_VNODES_def vfs_builtin_dir_ops_def)

lemma demo_vfs_ok: "nodes_ok (node_pool demo_vfs)"
  by (simp add: nodes_ok_def demo_vfs_eq) (intro exI [of _ "[]"], simp)

text \<open>
  C30. Path resolution is the walk over the components of the path: \<^verbatim>\<open>vfs_resolve_at\<close> gives,
  for every driver and every state, what walking the non-empty pieces between slashes gives,
  from the root for an absolute path and from the base otherwise. Repeated, leading and trailing
  slashes therefore make no difference.
\<close>
theorem vfs_resolve_at_components:
  "vfs_resolve_at drv s base (Some path) =
     walk_components drv s
       (if take 1 path = ''/'' then root s else case base of None \<Rightarrow> root s | Some b \<Rightarrow> Some b)
       (components path)"
  by (cases path) (auto simp: vfs_resolve_at_def resolve_loop_components components_slash split: char.splits bool.splits)

text \<open>
  C31. Creating and finding. A node created under a directory is found there under its (truncated)
  name, the lookup of every other name and in every other directory is unchanged, and the pool
  stays well formed and within its size.
\<close>
theorem vfs_create_node_find:
  assumes "vfs_create_node s (Some p) name type = (s', Some i)" and "p < length (node_pool s)"
    and "nodes_ok (node_pool s)"
  shows "nodes_ok (node_pool s') \<and> length (node_pool s') \<le> MAX_VNODES \<and>
    find_child drv s' p (take 63 name) = Some (s', Some i) \<and>
    (\<forall>d < length (node_pool s). \<forall>nm. d \<noteq> p \<or> nm \<noteq> take 63 name \<longrightarrow>
       find_cached (node_pool s') (vchildren (vn s' d)) nm = find_cached (node_pool s) (vchildren (vn s d)) nm)"
proof -
  note C = create_node_shape [OF assms(1,2)]
  obtain ls where ls: "chain (node_pool s) (vchildren (vn s p)) ls"
    using assms(2,3) unfolding nodes_ok_def vn_def by blast
  have "find_child drv s' p (take 63 name) = Some (s', Some i)"
    using find_cached_chain [OF create_node_law(2) [OF assms ls]] C(7) by (simp add: find_child_def vn_def)
  then show ?thesis
    using create_node_law(1) [OF assms] create_find_other [OF assms] C(2,3) by auto
qed

theorem vfs_create_node_find_witness:
  "\<exists>s'. vfs_create_node demo_vfs (Some 0) ''dev'' VNODE_DIR = (s', Some 1) \<and>
     find_child no_drivers s' 0 ''dev'' = Some (s', Some 1)"
proof -
  obtain s' where s': "vfs_create_node demo_vfs (Some 0) ''dev'' VNODE_DIR = (s', Some 1)"
    by (simp add: vfs_create_node_def alloc_vnode_def demo_vfs_eq MAX_VNODES_def Let_def)
  then show ?thesis
    using vfs_create_node_find [OF s' _ demo_vfs_ok, of no_drivers] by (simp add: demo_vfs_eq)
qed

text \<open>A reader that asks for batches of the given sizes, passing the cookie on.\<close>

fun read_batches :: "'w vfs \<Rightarrow> nat \<Rightarrow> nat \<Rightarrow> nat list \<Rightarrow> vfs_dirent list \<times> nat \<times> bool" where
  "read_batches s d offset [] = ([], offset, False)"
| "read_batches s d offset (b # bs) =
     (case vfs_builtin_readdir s (Some d) offset b of
        None \<Rightarrow> ([], offset, False)
      | Some (_, out, offset', eof, _) \<Rightarrow>
          if bs = [] then (out, offset', eof)
          else (let (more, offset'', eof') = read_batches s d offset' bs in (out @ more, offset'', eof')))"

lemma read_batches_law:
  assumes "chain (node_pool s) (vchildren (vn s d)) ks" and "vtype (vn s d) = VNODE_DIR" and "bs \<noteq> []"
  shows "read_batches s d offset bs =
    (map (dirent_of (node_pool s)) (take (sum_list bs) (drop offset ks)),
     min (length ks) (offset + sum_list bs), length ks \<le> offset + sum_list bs)"
  using assms(3)
proof (induction bs arbitrary: offset)
  case (Cons b bs)
  show ?case
  proof (cases "bs = []")
    case True
    then show ?thesis by (simp add: readdir_law [OF assms(1,2)])
  next
    case False
    have "take b (drop offset ks) @ take (sum_list bs) (drop (min (length ks) (offset + b)) ks)
        = take (b + sum_list bs) (drop offset ks)"
      by (cases "offset + b \<le> length ks") (simp_all add: min_def take_add add.commute)
    then show ?thesis
      using Cons.IH [OF False] False
      by (auto simp: readdir_law [OF assms(1,2)] map_append [symmetric] simp del: map_append)
  qed
qed simp

text \<open>
  C32. Enumerating an in-memory directory in batches of any sizes hands out its children in order,
  each exactly once: the concatenated batches are the entries of the first \<open>n\<close> children,
  \<open>n\<close> being the total of the batch sizes, and the end flag is raised exactly when nothing is left.
\<close>
theorem vfs_readdir_batches:
  assumes "chain (node_pool s) (vchildren (vn s d)) ks" and "vtype (vn s d) = VNODE_DIR" and "bs \<noteq> []"
  shows "read_batches s d 0 bs =
    (map (dirent_of (node_pool s)) (take (sum_list bs) ks), min (length ks) (sum_list bs), length ks \<le> sum_list bs)"
  using read_batches_law [OF assms, of 0] by simp

theorem vfs_readdir_batches_witness:
  "\<exists>s1 s2. vfs_create_node demo_vfs (Some 0) ''dev'' VNODE_DIR = (s1, Some 1) \<and>
     vfs_create_node s1 (Some 0) ''mnt'' VNODE_DIR = (s2, Some 2) \<and>
     read_batches s2 0 0 [1, 5] = (map (dirent_of (node_pool s2)) [2, 1], 2, True)"
proof -
  obtain s1 where s1: "vfs_create_node demo_vfs (Some 0) ''dev'' VNODE_DIR = (s1, Some 1)"
    by (simp add: vfs_create_node_def alloc_vnode_def demo_vfs_eq MAX_VNODES_def Let_def)
  note C1 = create_node_law [OF s1 _ demo_vfs_ok, unfolded demo_vfs_eq] create_node_shape [OF s1, unfolded demo_vfs_eq]
  have l1: "length (node_pool s1) = 2" "0 < length (node_pool s1)"
    using C1(5) by simp_all
  obtain s2 where s2: "vfs_create_node s1 (Some 0) ''mnt'' VNODE_DIR = (s2, Some 2)"
    using l1 by (simp add: vfs_create_node_def alloc_vnode_def MAX_VNODES_def Let_def)
  have c1: "chain (node_pool s1) (vchildren (vn s1 0)) [1]"
    using C1(2) [of "[]"] by (simp add: vn_def demo_vfs_eq)
  have c2: "chain (node_pool s2) (vchildren (vn s2 0)) [2, 1]"
    using create_node_law(2) [OF s2 l1(2) _ c1] C1(1) by simp
  have t0: "vtype (vn s2 0) = VNODE_DIR"
    using s1 s2 by (auto simp: vfs_create_node_def alloc_vnode_def demo_vfs_eq MAX_VNODES_def Let_def set_vn_def vn_def
        vfs_builtin_dir_ops_def split: if_splits)
  show ?thesis
    using vfs_readdir_batches [OF c2 t0, of "[1, 5]"] s1 s2 by simp
qed

end
