(* ===== verification/Fd.thy ===== *)
theory Fd
  imports Vfs
begin

text \<open>
  Open files and descriptor tables, the second half of \<^verbatim>\<open>src/src/fs/vfs/vfs.c\<close>. A table and an
  open file are blocks of the kernel heap: \<open>fd_tables t i\<close> is slot \<open>i\<close> of the table at
  address \<open>t\<close> (0 is an empty slot) and \<open>files f\<close> the open file at address \<open>f\<close>.
\<close>

section \<open>Operations\<close>

definition MAX_FDS :: nat where "MAX_FDS = 64"

definition O_RDONLY :: nat where "O_RDONLY = 0"
definition O_WRONLY :: nat where "O_WRONLY = 1"
definition O_RDWR :: nat where "O_RDWR = 2"
definition O_CREAT :: nat where "O_CREAT = 0x40"
definition O_EXCL :: nat where "O_EXCL = 0x80"
definition O_TRUNC :: nat where "O_TRUNC = 0x200"
definition O_APPEND :: nat where "O_APPEND = 0x400"
definition O_ACCMODE :: nat where "O_ACCMODE = 3"

definition fd_table_create :: "'w vfs \<Rightarrow> ('w vfs \<times> nat) option" where
  "fd_table_create s =
     do {
       (h, t) \<leftarrow> kmalloc (vheap s) 512;
       Some (if t \<noteq> 0 then s\<lparr>vheap := h, fd_tables := (fd_tables s)(t := (\<lambda>_. 0))\<rparr> else s\<lparr>vheap := h\<rparr>, t)
     }"

definition fd_release :: "'w vfs \<Rightarrow> nat \<Rightarrow> 'w vfs option" where
  "fd_release s f =
     (if f = 0 then Some s
      else (let r = refcount (files s f) - 1; s1 = s\<lparr>files := (files s)(f := (files s f)\<lparr>refcount := r\<rparr>)\<rparr> in
            if 0 < r then Some s1
            else do { h \<leftarrow> kfree (vheap s1) f; Some (s1\<lparr>vheap := h\<rparr>) }))"

definition clear_slot :: "nat \<Rightarrow> nat \<Rightarrow> 'w vfs \<Rightarrow> 'w vfs" where
  "clear_slot t i s = s\<lparr>fd_tables := (fd_tables s)(t := (fd_tables s t)(i := 0))\<rparr>"

fun destroy_slots :: "'w vfs \<Rightarrow> nat \<Rightarrow> nat list \<Rightarrow> 'w vfs option" where
  "destroy_slots s t [] = Some s"
| "destroy_slots s t (i # is) =
     (if fd_tables s t i \<noteq> 0
      then do { s1 \<leftarrow> fd_release s (fd_tables s t i); destroy_slots (clear_slot t i s1) t is }
      else destroy_slots s t is)"

definition fd_table_destroy :: "'w vfs \<Rightarrow> nat \<Rightarrow> 'w vfs option" where
  "fd_table_destroy s t =
     (if t = 0 then Some s
      else do { s1 \<leftarrow> destroy_slots s t [0..<MAX_FDS]; h \<leftarrow> kfree (vheap s1) t; Some (s1\<lparr>vheap := h\<rparr>) })"

definition alloc_fd :: "'w vfs \<Rightarrow> nat \<Rightarrow> nat option" where
  "alloc_fd s t = find (\<lambda>i. fd_tables s t i = 0) [0..<MAX_FDS]"

definition share_slot :: "nat \<Rightarrow> nat \<Rightarrow> nat \<Rightarrow> 'w vfs \<Rightarrow> 'w vfs" where
  "share_slot src dst i s =
     (let f = fd_tables s src i in
      if f = 0 then s
      else s\<lparr>fd_tables := (fd_tables s)(dst := (fd_tables s dst)(i := f)),
             files := (files s)(f := (files s f)\<lparr>refcount := refcount (files s f) + 1\<rparr>)\<rparr>)"

definition fd_table_clone :: "'w vfs \<Rightarrow> nat \<Rightarrow> ('w vfs \<times> nat) option" where
  "fd_table_clone s src =
     (if src = 0 then Some (s, 0)
      else do {
        (s1, dst) \<leftarrow> fd_table_create s;
        if dst = 0 then Some (s1, 0) else Some (fold (share_slot src dst) [0..<MAX_FDS] s1, dst)
      })"

definition vfs_create_file :: "'w drivers \<Rightarrow> 'w vfs \<Rightarrow> string \<Rightarrow> ('w vfs \<times> int) option" where
  "vfs_create_file drv s path = (case drv_create drv of None \<Rightarrow> Some (s, -1) | Some hook \<Rightarrow> hook s path)"

text \<open>Resolution with creation, the first half of \<^verbatim>\<open>fd_open_ex\<close>: a null node is the early return of -1.\<close>

definition open_node :: "'w drivers \<Rightarrow> 'w vfs \<Rightarrow> string \<Rightarrow> nat \<Rightarrow> ('w vfs \<times> nat option) option" where
  "open_node drv s path flags =
     do {
       (s1, node) \<leftarrow> vfs_resolve drv s (Some path);
       case node of
         None \<Rightarrow>
           if flags AND O_CREAT = 0 then Some (s1, None)
           else do {
             (s2, rc) \<leftarrow> vfs_create_file drv s1 path;
             if rc < 0 then Some (s2, None) else vfs_resolve drv s2 (Some path)
           }
       | Some n \<Rightarrow>
           if flags AND O_CREAT \<noteq> 0 \<and> flags AND O_EXCL \<noteq> 0 then Some (s1, None) else Some (s1, Some n)
     }"

definition open_truncate :: "'w drivers \<Rightarrow> 'w vfs \<Rightarrow> nat \<Rightarrow> nat \<Rightarrow> ('w vfs \<times> bool) option" where
  "open_truncate drv s n flags =
     (if flags AND O_TRUNC = 0 then Some (s, True)
      else case Option.bind (vops (vn s n)) (drv_truncate drv) of
             None \<Rightarrow> Some (s, True)
           | Some trunc \<Rightarrow>
               do {
                 (s1, rc) \<leftarrow> trunc s n 0;
                 if rc < 0 then Some (s1, False) else Some (set_vn n (\<lambda>v. v\<lparr>vsize := 0\<rparr>) s1, True)
               })"

definition fd_open_ex :: "'w drivers \<Rightarrow> 'w vfs \<Rightarrow> nat \<Rightarrow> string \<Rightarrow> nat \<Rightarrow> ('w vfs \<times> int) option" where
  "fd_open_ex drv s t path flags =
     (if flags AND O_ACCMODE > O_RDWR then Some (s, -1)
      else if flags AND O_EXCL \<noteq> 0 \<and> flags AND O_CREAT = 0 then Some (s, -1)
      else do {
        (s1, node) \<leftarrow> open_node drv s path flags;
        case node of
          None \<Rightarrow> Some (s1, -1)
        | Some n \<Rightarrow>
            do {
              (s2, ok) \<leftarrow> open_truncate drv s1 n flags;
              if \<not> ok then Some (s2, -1)
              else case alloc_fd s2 t of
                     None \<Rightarrow> Some (s2, -1)
                   | Some fd \<Rightarrow>
                       do {
                         (h, f) \<leftarrow> kmalloc (vheap s2) 24;
                         if f = 0 then Some (s2\<lparr>vheap := h\<rparr>, -1)
                         else Some (s2\<lparr>vheap := h,
                                files := (files s2)(f := \<lparr>fvnode = n,
                                  foffset = (if flags AND O_APPEND \<noteq> 0 then int (vsize (vn s2 n)) else 0),
                                  fflags = flags AND O_ACCMODE, refcount = 1\<rparr>),
                                fd_tables := (fd_tables s2)(t := (fd_tables s2 t)(fd := f))\<rparr>, int fd)
                       }
            }
      })"

definition fd_open :: "'w drivers \<Rightarrow> 'w vfs \<Rightarrow> nat \<Rightarrow> string \<Rightarrow> ('w vfs \<times> int) option" where
  "fd_open drv s t path = fd_open_ex drv s t path O_RDONLY"

text \<open>The file behind a descriptor; 0 for a descriptor out of range or a closed one.\<close>

definition fd_file :: "'w vfs \<Rightarrow> nat \<Rightarrow> int \<Rightarrow> nat" where
  "fd_file s t fd = (if fd < 0 \<or> int MAX_FDS \<le> fd then 0 else fd_tables s t (nat fd))"

definition fd_read :: "'w drivers \<Rightarrow> 'w vfs \<Rightarrow> nat \<Rightarrow> int \<Rightarrow> nat \<Rightarrow> nat \<Rightarrow> ('w vfs \<times> int) option" where
  "fd_read drv s t fd buf count =
     (let f = fd_file s t fd in
      if f = 0 then Some (s, -1)
      else if fflags (files s f) = O_WRONLY then Some (s, -1)
      else case Option.bind (vops (vn s (fvnode (files s f)))) (drv_read drv) of
             None \<Rightarrow> Some (s, -1)
           | Some rd \<Rightarrow> rd s f buf count)"

definition fd_write :: "'w drivers \<Rightarrow> 'w vfs \<Rightarrow> nat \<Rightarrow> int \<Rightarrow> nat \<Rightarrow> nat \<Rightarrow> ('w vfs \<times> int) option" where
  "fd_write drv s t fd buf count =
     (let f = fd_file s t fd in
      if f = 0 then Some (s, -1)
      else if fflags (files s f) = O_RDONLY then Some (s, -1)
      else case Option.bind (vops (vn s (fvnode (files s f)))) (drv_write drv) of
             None \<Rightarrow> Some (s, -1)
           | Some wr \<Rightarrow> wr s f buf count)"

definition fd_vnode :: "'w vfs \<Rightarrow> nat \<Rightarrow> int \<Rightarrow> nat option" where
  "fd_vnode s t fd = (let f = fd_file s t fd in if f = 0 then None else Some (fvnode (files s f)))"

definition i64 :: "int \<Rightarrow> int" where
  "i64 x = signed_take_bit 63 x"

definition fd_size :: "'w vfs \<Rightarrow> nat \<Rightarrow> int \<Rightarrow> int" where
  "fd_size s t fd = (case fd_vnode s t fd of None \<Rightarrow> -1 | Some n \<Rightarrow> i64 (int (vsize (vn s n))))"

definition fd_close :: "'w vfs \<Rightarrow> nat \<Rightarrow> int \<Rightarrow> ('w vfs \<times> int) option" where
  "fd_close s t fd =
     (let f = fd_file s t fd in
      if f = 0 then Some (s, -1)
      else do { s1 \<leftarrow> fd_release (clear_slot t (nat fd) s) f; Some (s1, 0) })"

definition fd_seek :: "'w vfs \<Rightarrow> nat \<Rightarrow> int \<Rightarrow> int \<Rightarrow> nat \<Rightarrow> 'w vfs \<times> int" where
  "fd_seek s t fd offset whence =
     (let f = fd_file s t fd; v = vn s (fvnode (files s f));
          go = (\<lambda>new_off. if new_off < 0 then (s, -1)
                  else (s\<lparr>files := (files s)(f := (files s f)\<lparr>foffset := new_off\<rparr>)\<rparr>, new_off)) in
      if f = 0 then (s, -1)
      else if vtype v = VNODE_CHR then (s, -1)
      else if whence = 0 then go offset
      else if whence = 1 then go (i64 (foffset (files s f) + offset))
      else if whence = 2 then (if vtype v \<noteq> VNODE_REG then (s, -1) else go (i64 (i64 (int (vsize v)) + offset)))
      else (s, -1))"

section \<open>Reference counts\<close>

definition slot_count :: "(nat \<Rightarrow> nat) \<Rightarrow> nat \<Rightarrow> nat" where
  "slot_count tab f = card {i. i < MAX_FDS \<and> tab i = f}"

definition refs :: "'w vfs \<Rightarrow> nat set \<Rightarrow> nat \<Rightarrow> nat" where
  "refs s T f = (\<Sum>t \<in> T. slot_count (fd_tables s t) f)"

definition open_files :: "'w vfs \<Rightarrow> nat set \<Rightarrow> nat set" where
  "open_files s T = {f. f \<noteq> 0 \<and> 0 < refs s T f}"

definition live_blocks :: "'w vfs \<Rightarrow> nat set" where
  "live_blocks s = fst ` allocs (vheap s)"

text \<open>
  The descriptor invariant for the live tables \<open>T\<close>: the live heap blocks are the tables, the open
  files and the blocks \<open>B\<close> of everybody else, all different; and every open file counts exactly the
  slots that refer to it.
\<close>

definition fd_inv :: "'w vfs \<Rightarrow> nat set \<Rightarrow> nat set \<Rightarrow> bool" where
  "fd_inv s T B \<longleftrightarrow>
     heap_inv (vheap s) \<and> finite T \<and> live_blocks s = B \<union> T \<union> open_files s T \<and>
     B \<inter> T = {} \<and> B \<inter> open_files s T = {} \<and> T \<inter> open_files s T = {} \<and>
     (\<forall>f \<in> open_files s T. refcount (files s f) = int (refs s T f))"

lemma clear_slot_fields [simp]:
  "files (clear_slot t i s) = files s" "vheap (clear_slot t i s) = vheap s" "node_pool (clear_slot t i s) = node_pool s"
  "world (clear_slot t i s) = world s" "root (clear_slot t i s) = root s"
  "live_blocks (clear_slot t i s) = live_blocks s"
  "fd_tables (clear_slot t i s) = (fd_tables s)(t := (fd_tables s t)(i := 0))"
  by (simp_all add: clear_slot_def live_blocks_def)

lemma slot_count_update:
  assumes "i < MAX_FDS"
  shows "slot_count (tab(i := g)) f =
    (if f = g then slot_count tab f + (if tab i = f then 0 else 1) else slot_count tab f - (if tab i = f then 1 else 0))"
proof -
  have fin: "finite {j. j < MAX_FDS \<and> tab j = f}" by simp
  show ?thesis
  proof (cases "f = g")
    case True
    then have "{j. j < MAX_FDS \<and> (tab(i := g)) j = f} = insert i {j. j < MAX_FDS \<and> tab j = f}"
      using assms by auto
    then show ?thesis using True assms by (auto simp: slot_count_def card_insert_if)
  next
    case False
    then have "{j. j < MAX_FDS \<and> (tab(i := g)) j = f} = {j. j < MAX_FDS \<and> tab j = f} - {i}"
      by auto
    then show ?thesis using False assms by (auto simp: slot_count_def card_Diff_singleton_if)
  qed
qed

lemma slot_count_pos: "i < MAX_FDS \<Longrightarrow> tab i = f \<Longrightarrow> 0 < slot_count tab f"
  unfolding slot_count_def by (subst card_gt_0_iff) auto

lemma refs_cong: "fd_tables s' = fd_tables s \<Longrightarrow> refs s' T f = refs s T f"
  by (simp add: refs_def)

lemma refs_update:
  assumes "finite T" and "t \<in> T" and "fd_tables s' = (fd_tables s)(t := tab)"
  shows "refs s' T f + slot_count (fd_tables s t) f = refs s T f + slot_count tab f"
proof -
  have "refs s' T f = slot_count tab f + (\<Sum>u \<in> T - {t}. slot_count (fd_tables s u) f)"
    using assms by (simp add: refs_def sum.remove)
  moreover have "refs s T f = slot_count (fd_tables s t) f + (\<Sum>u \<in> T - {t}. slot_count (fd_tables s u) f)"
    using assms by (simp add: refs_def sum.remove)
  ultimately show ?thesis by simp
qed

lemma refs_clear:
  assumes "finite T" and "t \<in> T" and "i < MAX_FDS" and "fd_tables s t i = f" and "f \<noteq> 0"
    and "fd_tables s' = (fd_tables s)(t := (fd_tables s t)(i := 0))"
  shows "refs s' T f = refs s T f - 1" and "0 < refs s T f" and "g \<noteq> f \<Longrightarrow> g \<noteq> 0 \<Longrightarrow> refs s' T g = refs s T g"
proof -
  note R = refs_update [OF assms(1,2,6)] slot_count_update [OF assms(3), of "fd_tables s t" 0]
  have p: "0 < slot_count (fd_tables s t) f"
    using assms(3,4) by (rule slot_count_pos)
  have "slot_count (fd_tables s t) f \<le> refs s T f"
    unfolding refs_def using assms(1,2) by (intro member_le_sum) auto
  with p show "0 < refs s T f" by simp
  show "refs s' T f = refs s T f - 1"
    using R(1) [of f] R(2) [of f] assms(4,5) p by simp
  show "g \<noteq> f \<Longrightarrow> g \<noteq> 0 \<Longrightarrow> refs s' T g = refs s T g"
    using R(1) [of g] R(2) [of g] assms(4) by simp
qed

lemma fd_invD:
  assumes "fd_inv s T B"
  shows "heap_inv (vheap s)" "finite T" "live_blocks s = B \<union> T \<union> open_files s T"
    "B \<inter> T = {}" "B \<inter> open_files s T = {}" "T \<inter> open_files s T = {}"
    "f \<in> open_files s T \<Longrightarrow> refcount (files s f) = int (refs s T f)"
  using assms by (simp_all add: fd_inv_def)

lemma image_fst_remove: "\<forall>j. (a, j) \<in> A \<longrightarrow> j = k \<Longrightarrow> fst ` (A - {(a, k)}) = fst ` A - {a}"
proof (intro equalityI subsetI)
  assume one: "\<forall>j. (a, j) \<in> A \<longrightarrow> j = k"
  fix x assume "x \<in> fst ` (A - {(a, k)})"
  then obtain y where "y \<in> A - {(a, k)}" "x = fst y" by blast
  then have "(x, snd y) \<in> A" "(x, snd y) \<noteq> (a, k)" by simp_all
  with one show "x \<in> fst ` A - {a}" by (auto intro: rev_image_eqI)
next
  fix x assume "x \<in> fst ` A - {a}"
  then obtain j where "(x, j) \<in> A - {(a, k)}" by auto
  then show "x \<in> fst ` (A - {(a, k)})" by (rule rev_image_eqI) simp
qed

lemma live_free:
  assumes "heap_inv (vheap s)" and "a \<in> live_blocks s"
  obtains h where "kfree (vheap s) a = Some h" "heap_inv h" "fst ` allocs h = live_blocks s - {a}"
proof -
  from assms(2) obtain k where k: "(a, k) \<in> allocs (vheap s)"
    by (auto simp: live_blocks_def)
  from assms(1) k show thesis
  proof (rule kmem.mfree_cases)
    fix h assume h: "kfree (vheap s) a = Some h" "heap_inv h" "allocs h = allocs (vheap s) - {(a, k)}"
    have "fst ` (allocs (vheap s) - {(a, k)}) = fst ` allocs (vheap s) - {a}"
      by (intro image_fst_remove) (use allocs_functional [OF assms(1) _ k] in blast)
    with h show thesis using that by (simp add: live_blocks_def)
  qed
qed

lemma live_alloc:
  assumes "heap_inv (vheap s)"
  obtains (none) h where "kmalloc (vheap s) n = Some (h, 0)" "heap_inv h" "fst ` allocs h = live_blocks s"
  | (block) h a where "kmalloc (vheap s) n = Some (h, a)" "heap_inv h" "a \<noteq> 0" "a \<notin> live_blocks s"
      "fst ` allocs h = insert a (live_blocks s)"
  using assms
proof (rule kmem.malloc_cases [where n = n])
  fix h assume "kmalloc (vheap s) n = Some (h, 0)" "heap_inv h" "allocs h = allocs (vheap s)"
  then show thesis using none by (simp add: live_blocks_def)
next
  fix h a k assume "kmalloc (vheap s) n = Some (h, a)" "heap_inv h" "a \<noteq> 0" "\<forall>j. (a, j) \<notin> allocs (vheap s)"
    "allocs h = insert (a, k) (allocs (vheap s))"
  then show thesis using block by (force simp: live_blocks_def)
qed

text \<open>Dropping one reference: the slot is cleared and the file released, in either order.\<close>

lemma drop_slot:
  assumes "fd_inv s T B" and "t \<in> T" and "i < MAX_FDS" and "fd_tables s t i = f" and "f \<noteq> 0"
  obtains s' where "fd_release s f = Some s'" and "fd_release (clear_slot t i s) f = Some (clear_slot t i s')"
    and "fd_inv (clear_slot t i s') T B" and "fd_tables s' = fd_tables s" and "node_pool s' = node_pool s"
    and "world s' = world s" and "live_blocks s' = (if refs s T f = 1 then live_blocks s - {f} else live_blocks s)"
proof -
  note I = fd_invD [OF assms(1)]
  define s1 where "s1 = s\<lparr>files := (files s)(f := (files s f)\<lparr>refcount := refcount (files s f) - 1\<rparr>)\<rparr>"
  define h where "h = (if refs s T f = 1 then the (kfree (vheap s) f) else vheap s)"
  define s' where "s' = s1\<lparr>vheap := h\<rparr>"
  note R = refs_clear [OF I(2) assms(2-5)]
  have tb: "fd_tables (clear_slot t i s') = (fd_tables s)(t := (fd_tables s t)(i := 0))"
    by (simp add: clear_slot_def s'_def s1_def)
  note R' = R [OF tb]
  have f: "f \<in> open_files s T" "refcount (files s f) = int (refs s T f)"
    using I(7) assms(5) R'(2) by (auto simp: open_files_def)
  then have "f \<in> live_blocks s" using I(3) by blast
  from I(1) this obtain h1 where h1: "kfree (vheap s) f = Some h1" "heap_inv h1" "fst ` allocs h1 = live_blocks s - {f}"
    by (rule live_free)
  have hp: "heap_inv h" and lv: "fst ` allocs h = (if refs s T f = 1 then live_blocks s - {f} else live_blocks s)"
    using h1 I(1) by (auto simp: h_def live_blocks_def)
  have run: "fd_release s f = Some s'" "fd_release (clear_slot t i s) f = Some (clear_slot t i s')"
    using assms(5) f(2) R'(2) h1(1)
    by (auto simp: fd_release_def Let_def s'_def s1_def h_def clear_slot_def)
  have op: "open_files (clear_slot t i s') T = (if refs s T f = 1 then open_files s T - {f} else open_files s T)"
    using R' assms(5) by (auto simp: open_files_def)
      (metis One_nat_def R'(1) R'(3) diff_self_eq_0 less_numeral_extra(3) Suc_pred bot_nat_0.not_eq_extremum)+
  have cnt: "refcount (files (clear_slot t i s') g) = int (refs (clear_slot t i s') T g)"
    if "g \<in> open_files (clear_slot t i s') T" for g
  proof (cases "g = f")
    case True
    then show ?thesis
      using f(2) R'(1,2) by (simp add: s'_def s1_def of_nat_diff)
  next
    case False
    then have "g \<in> open_files s T" "g \<noteq> 0"
      using that op by (auto simp: open_files_def split: if_splits)
    then show ?thesis
      using False I(7) R'(3) by (simp add: s'_def s1_def)
  qed
  have hp': "heap_inv (vheap (clear_slot t i s'))"
    using hp by (simp add: s'_def)
  have lv': "live_blocks (clear_slot t i s') = (if refs s T f = 1 then live_blocks s - {f} else live_blocks s)"
    using lv by (simp add: s'_def live_blocks_def)
  have "fd_inv (clear_slot t i s') T B"
    unfolding fd_inv_def lv'
    using hp' cnt I(2-6) f(1) unfolding op by (simp split: if_splits) blast
  then show thesis
    using that run lv by (simp add: s'_def s1_def live_blocks_def)
qed

lemma destroy_slots_law:
  assumes "fd_inv s T B" and "t \<in> T" and "set is \<subseteq> {..<MAX_FDS}"
  shows "\<exists>s'. destroy_slots s t is = Some s' \<and> fd_inv s' T B \<and> node_pool s' = node_pool s \<and> world s' = world s \<and>
    fd_tables s' = (fd_tables s)(t := (\<lambda>i. if i \<in> set is then 0 else fd_tables s t i))"
  using assms(1,3)
proof (induction "is" arbitrary: s)
  case (Cons i "is")
  have sub: "set is \<subseteq> {..<MAX_FDS}" using Cons.prems(2) by simp
  show ?case
  proof (cases "fd_tables s t i = 0")
    case True
    from Cons.IH [OF Cons.prems(1) sub] obtain s' where "destroy_slots s t is = Some s'" "fd_inv s' T B"
      "node_pool s' = node_pool s" "world s' = world s"
      "fd_tables s' = (fd_tables s)(t := (\<lambda>i. if i \<in> set is then 0 else fd_tables s t i))" by blast
    with True show ?thesis by (intro exI [of _ s']) (auto simp: fun_eq_iff)
  next
    case False
    have "i < MAX_FDS" using Cons.prems(2) by simp
    from Cons.prems(1) assms(2) this refl False show ?thesis
    proof (rule drop_slot)
      fix s1 assume s1: "fd_release s (fd_tables s t i) = Some s1" "fd_inv (clear_slot t i s1) T B"
        "fd_tables s1 = fd_tables s" "node_pool s1 = node_pool s" "world s1 = world s"
      from Cons.IH [OF s1(2) sub] obtain s' where "destroy_slots (clear_slot t i s1) t is = Some s'" "fd_inv s' T B"
        "node_pool s' = node_pool (clear_slot t i s1)" "world s' = world (clear_slot t i s1)"
        "fd_tables s' = (fd_tables (clear_slot t i s1))(t := (\<lambda>j. if j \<in> set is then 0 else fd_tables (clear_slot t i s1) t j))"
        by blast
      with s1 False show ?thesis by (intro exI [of _ s']) (auto simp: fun_eq_iff)
    qed
  qed
qed (simp add: fun_upd_idem)

lemma empty_table_refs:
  assumes "finite T" and "t \<in> T" and "\<forall>i < MAX_FDS. fd_tables s t i = 0" and "f \<noteq> 0"
  shows "refs s (T - {t}) f = refs s T f"
proof -
  have "{i. i < MAX_FDS \<and> fd_tables s t i = f} = {}"
    using assms(3,4) by auto
  then have "slot_count (fd_tables s t) f = 0"
    by (simp add: slot_count_def)
  then show ?thesis
    using assms(1,2) by (simp add: refs_def sum.remove [of T t])
qed

lemma fd_table_destroy_law:
  assumes "fd_inv s T B" and "t \<in> T" and "t \<noteq> 0"
  shows "\<exists>s'. fd_table_destroy s t = Some s' \<and> fd_inv s' (T - {t}) B \<and> node_pool s' = node_pool s \<and>
    world s' = world s \<and> (\<forall>u. u \<noteq> t \<longrightarrow> fd_tables s' u = fd_tables s u)"
proof -
  have "set [0..<MAX_FDS] \<subseteq> {..<MAX_FDS}" by auto
  from destroy_slots_law [OF assms(1,2) this] obtain s1
    where s1: "destroy_slots s t [0..<MAX_FDS] = Some s1" "fd_inv s1 T B" "node_pool s1 = node_pool s" "world s1 = world s"
      "fd_tables s1 = (fd_tables s)(t := (\<lambda>i. if i \<in> set [0..<MAX_FDS] then 0 else fd_tables s t i))"
    by blast
  note I = fd_invD [OF s1(2)]
  have "t \<in> live_blocks s1" using I(3) assms(2) by blast
  from I(1) this obtain h where h: "kfree (vheap s1) t = Some h" "heap_inv h" "fst ` allocs h = live_blocks s1 - {t}"
    by (rule live_free)
  have r: "refs (s1\<lparr>vheap := h\<rparr>) (T - {t}) f = refs s1 T f" if "f \<noteq> 0" for f
    using empty_table_refs [OF I(2) assms(2) _ that, of s1] s1(5) by (simp add: refs_cong [of "s1\<lparr>vheap := h\<rparr>" s1])
  then have op: "open_files (s1\<lparr>vheap := h\<rparr>) (T - {t}) = open_files s1 T"
    by (auto simp: open_files_def)
  have "fd_inv (s1\<lparr>vheap := h\<rparr>) (T - {t}) B"
    unfolding fd_inv_def op
    using I h assms(2) r by (auto simp: live_blocks_def open_files_def)
  then show ?thesis
    using s1 h assms(3) by (auto simp: fd_table_destroy_def)
qed

section \<open>Creating and sharing\<close>

lemma refs_fresh:
  assumes "finite T" and "t \<notin> T" and "fd_tables s' = (fd_tables s)(t := (\<lambda>_. 0))" and "f \<noteq> 0"
  shows "refs s' (insert t T) f = refs s T f"
proof -
  have "slot_count (\<lambda>_. 0) f = 0"
    using assms(4) by (simp add: slot_count_def)
  moreover have "(\<Sum>u \<in> T. slot_count (fd_tables s' u) f) = (\<Sum>u \<in> T. slot_count (fd_tables s u) f)"
    using assms(2,3) by (intro sum.cong) auto
  ultimately show ?thesis
    using assms(1-3) by (simp add: refs_def)
qed

lemma fd_table_create_law:
  assumes "fd_inv s T B"
  obtains (none) s' where "fd_table_create s = Some (s', 0)" "fd_inv s' T B" "fd_tables s' = fd_tables s"
      "files s' = files s" "node_pool s' = node_pool s" "world s' = world s"
  | (made) s' t where "fd_table_create s = Some (s', t)" "t \<noteq> 0" "t \<notin> T" "fd_inv s' (insert t T) B"
      "fd_tables s' = (fd_tables s)(t := (\<lambda>_. 0))" "files s' = files s" "node_pool s' = node_pool s" "world s' = world s"
proof -
  note I = fd_invD [OF assms]
  from I(1) show thesis
  proof (rule live_alloc [where n = 512])
    fix h assume h: "kmalloc (vheap s) 512 = Some (h, 0)" "heap_inv h" "fst ` allocs h = live_blocks s"
    have "open_files (s\<lparr>vheap := h\<rparr>) T = open_files s T" "refs (s\<lparr>vheap := h\<rparr>) T f = refs s T f" for f
      by (simp_all add: open_files_def refs_def)
    then have "fd_inv (s\<lparr>vheap := h\<rparr>) T B"
      using assms h by (simp add: fd_inv_def live_blocks_def)
    with h(1) none show thesis by (simp add: fd_table_create_def)
  next
    fix h t assume h: "kmalloc (vheap s) 512 = Some (h, t)" "heap_inv h" "t \<noteq> 0" "t \<notin> live_blocks s"
      "fst ` allocs h = insert t (live_blocks s)"
    define s' where "s' = s\<lparr>vheap := h, fd_tables := (fd_tables s)(t := (\<lambda>_. 0))\<rparr>"
    have t: "t \<notin> T" "t \<notin> B" "t \<notin> open_files s T"
      using h(4) I(3) by auto
    have r: "refs s' (insert t T) f = refs s T f" if "f \<noteq> 0" for f
      by (rule refs_fresh [OF I(2) t(1) _ that]) (simp add: s'_def)
    then have op: "open_files s' (insert t T) = open_files s T"
      by (auto simp: open_files_def)
    have fl: "files s' = files s" by (simp add: s'_def)
    have "\<forall>f \<in> open_files s T. refcount (files s' f) = int (refs s' (insert t T) f)"
      using I(7) r by (auto simp: fl open_files_def)
    then have "fd_inv s' (insert t T) B"
      unfolding fd_inv_def op using I t h by (auto simp: live_blocks_def s'_def)
    with h t made show thesis by (simp add: fd_table_create_def s'_def)
  qed
qed

text \<open>Copying slot \<open>i\<close> adds one slot that refers to the file and one to its count.\<close>

lemma share_slot_law:
  assumes "fd_inv s T B" and "src \<in> T" and "dst \<in> T" and "i < MAX_FDS" and "fd_tables s dst i = 0"
  shows "fd_inv (share_slot src dst i s) T B"
    and "fd_tables (share_slot src dst i s) = (fd_tables s)(dst := (fd_tables s dst)(i := fd_tables s src i))"
    and "node_pool (share_slot src dst i s) = node_pool s" and "world (share_slot src dst i s) = world s"
    and "foffset (files (share_slot src dst i s) a) = foffset (files s a)"
proof -
  define f where "f = fd_tables s src i"
  define s' where "s' = share_slot src dst i s"
  show tb: "fd_tables (share_slot src dst i s) = (fd_tables s)(dst := (fd_tables s dst)(i := fd_tables s src i))"
    using assms(5) by (auto simp: share_slot_def Let_def fun_eq_iff)
  show "node_pool (share_slot src dst i s) = node_pool s" "world (share_slot src dst i s) = world s"
    "foffset (files (share_slot src dst i s) a) = foffset (files s a)"
    by (simp_all add: share_slot_def Let_def)
  note I = fd_invD [OF assms(1)]
  show "fd_inv (share_slot src dst i s) T B"
  proof (cases "f = 0")
    case True
    then show ?thesis using assms(1) by (simp add: share_slot_def f_def)
  next
    case False
    have inT: "0 < refs s T f"
    proof -
      have "0 < slot_count (fd_tables s src) f"
        using assms(4) by (rule slot_count_pos) (simp add: f_def)
      also have "\<dots> \<le> refs s T f"
        unfolding refs_def using I(2) assms(2) by (intro member_le_sum) auto
      finally show ?thesis .
    qed
    have r: "refs s' T g = (if g = f then refs s T f + 1 else refs s T g)" if "g \<noteq> 0" for g
      using refs_update [OF I(2) assms(3) tb, of g] slot_count_update [OF assms(4), of "fd_tables s dst" f g] assms(5) that
      by (auto simp: s'_def f_def)
    have fl: "files s' = (files s)(f := (files s f)\<lparr>refcount := refcount (files s f) + 1\<rparr>)" and vh: "vheap s' = vheap s"
      using False by (simp_all add: s'_def share_slot_def f_def Let_def)
    have op: "open_files s' T = open_files s T"
      using r inT False by (auto simp: open_files_def split: if_splits)
    have "\<forall>g \<in> open_files s T. refcount (files s' g) = int (refs s' T g)"
      using I(7) r by (auto simp: fl open_files_def)
    then have "fd_inv s' T B"
      unfolding fd_inv_def op using I by (simp add: live_blocks_def vh)
    then show ?thesis by (simp add: s'_def)
  qed
qed

lemma share_slots_law:
  assumes "fd_inv s T B" and "src \<in> T" and "dst \<in> T" and "src \<noteq> dst" and "n \<le> MAX_FDS"
    and "\<forall>i < MAX_FDS. fd_tables s dst i = 0"
  defines "s' \<equiv> fold (share_slot src dst) [0..<n] s"
  shows "fd_inv s' T B \<and> (\<forall>u. u \<noteq> dst \<longrightarrow> fd_tables s' u = fd_tables s u) \<and>
    (\<forall>i < MAX_FDS. fd_tables s' dst i = (if i < n then fd_tables s src i else 0)) \<and>
    node_pool s' = node_pool s \<and> world s' = world s \<and> (\<forall>f. foffset (files s' f) = foffset (files s f))"
  using assms(5) unfolding s'_def
proof (induction n)
  case 0
  show ?case using assms(1,6) by simp
next
  case (Suc n)
  let ?s = "fold (share_slot src dst) [0..<n] s"
  have IH: "fd_inv ?s T B" "\<forall>u. u \<noteq> dst \<longrightarrow> fd_tables ?s u = fd_tables s u"
    "\<forall>i < MAX_FDS. fd_tables ?s dst i = (if i < n then fd_tables s src i else 0)"
    "node_pool ?s = node_pool s" "world ?s = world s" "\<forall>f. foffset (files ?s f) = foffset (files s f)"
    using Suc by auto
  have n: "n < MAX_FDS" "fd_tables ?s dst n = 0"
    using Suc.prems IH(3) by auto
  note L = share_slot_law [OF IH(1) assms(2,3) n]
  have src: "fd_tables ?s src n = fd_tables s src n"
    using IH(2) assms(4) by simp
  have step: "fold (share_slot src dst) [0..<Suc n] s = share_slot src dst n ?s" by simp
  show ?case
    unfolding step using L IH src by (auto simp: less_Suc_eq)
qed

lemma fd_table_clone_law:
  assumes "fd_inv s T B" and "src \<in> T" and "src \<noteq> 0"
  shows "\<exists>s' dst. fd_table_clone s src = Some (s', dst) \<and> node_pool s' = node_pool s \<and> world s' = world s \<and>
    (\<forall>u. u \<noteq> dst \<longrightarrow> fd_tables s' u = fd_tables s u) \<and> (\<forall>f. foffset (files s' f) = foffset (files s f)) \<and>
    (if dst = 0 then fd_inv s' T B
     else dst \<notin> T \<and> fd_inv s' (insert dst T) B \<and> (\<forall>i < MAX_FDS. fd_tables s' dst i = fd_tables s src i))"
  using assms(1)
proof (rule fd_table_create_law)
  fix s1 assume "fd_table_create s = Some (s1, 0)" "fd_inv s1 T B" "fd_tables s1 = fd_tables s"
      "files s1 = files s" "node_pool s1 = node_pool s" "world s1 = world s"
  then show ?thesis
    using assms(3) by (intro exI [of _ s1] exI [of _ 0]) (simp add: fd_table_clone_def)
next
  fix s1 t assume t: "fd_table_create s = Some (s1, t)" "t \<noteq> 0" "t \<notin> T" "fd_inv s1 (insert t T) B"
      "fd_tables s1 = (fd_tables s)(t := (\<lambda>_. 0))" "files s1 = files s" "node_pool s1 = node_pool s" "world s1 = world s"
  have ne: "src \<noteq> t" using assms(2) t(3) by blast
  have z: "\<forall>i < MAX_FDS. fd_tables s1 t i = 0" by (simp add: t(5))
  from share_slots_law [OF t(4) _ _ ne order_refl z] assms(2) show ?thesis
    using t assms(3) ne
    by (intro exI [of _ "fold (share_slot src t) [0..<MAX_FDS] s1"] exI [of _ t]) (simp add: fd_table_clone_def)
qed

section \<open>Opening\<close>

text \<open>
  What the descriptor layer relies on from a driver: calls return, keep the heap and the node pool
  well formed, never free a block or touch a table or an open file, and report existing nodes.
\<close>

definition vfs_ok :: "'w vfs \<Rightarrow> bool" where
  "vfs_ok s \<longleftrightarrow>
     heap_inv (vheap s) \<and> nodes_ok (node_pool s) \<and> (\<exists>r < length (node_pool s). root s = Some r) \<and>
     (\<forall>n < length (node_pool s). \<forall>q. vparent (vn s n) = Some q \<longrightarrow> q < length (node_pool s))"

definition vfs_frame :: "'w vfs \<Rightarrow> 'w vfs \<Rightarrow> bool" where
  "vfs_frame s s' \<longleftrightarrow>
     vfs_ok s' \<and> live_blocks s \<subseteq> live_blocks s' \<and> files s' = files s \<and> fd_tables s' = fd_tables s \<and>
     length (node_pool s) \<le> length (node_pool s')"

definition lookup_ok :: "('w vfs \<Rightarrow> nat \<Rightarrow> string \<Rightarrow> ('w vfs \<times> nat option) option) \<Rightarrow> bool" where
  "lookup_ok lookup \<longleftrightarrow>
     (\<forall>s d name. vfs_ok s \<longrightarrow>
        (\<exists>s' r. lookup s d name = Some (s', r) \<and> vfs_frame s s' \<and> (\<forall>k. r = Some k \<longrightarrow> k < length (node_pool s'))))"

definition truncate_ok :: "('w vfs \<Rightarrow> nat \<Rightarrow> nat \<Rightarrow> ('w vfs \<times> int) option) \<Rightarrow> bool" where
  "truncate_ok trunc \<longleftrightarrow> (\<forall>s n z. vfs_ok s \<longrightarrow> (\<exists>s' rc. trunc s n z = Some (s', rc) \<and> vfs_frame s s'))"

definition create_ok :: "('w vfs \<Rightarrow> string \<Rightarrow> ('w vfs \<times> int) option) \<Rightarrow> bool" where
  "create_ok hook \<longleftrightarrow> (\<forall>s path. vfs_ok s \<longrightarrow> (\<exists>s' rc. hook s path = Some (s', rc) \<and> vfs_frame s s'))"

definition drivers_ok :: "'w drivers \<Rightarrow> bool" where
  "drivers_ok drv \<longleftrightarrow>
     (\<forall>ops f. drv_lookup drv ops = Some f \<longrightarrow> lookup_ok f) \<and>
     (\<forall>ops f. drv_truncate drv ops = Some f \<longrightarrow> truncate_ok f) \<and>
     (\<forall>f. drv_create drv = Some f \<longrightarrow> create_ok f)"

lemma vfs_frame_refl: "vfs_ok s \<Longrightarrow> vfs_frame s s"
  by (simp add: vfs_frame_def)

lemma vfs_frame_trans: "vfs_frame s s1 \<Longrightarrow> vfs_frame s1 s2 \<Longrightarrow> vfs_frame s s2"
  by (auto simp: vfs_frame_def)

lemma find_child_law:
  assumes "drivers_ok drv" and "vfs_ok s" and "n < length (node_pool s)"
  shows "\<exists>s' r. find_child drv s n name = Some (s', r) \<and> vfs_frame s s' \<and> (\<forall>k. r = Some k \<longrightarrow> k < length (node_pool s'))"
proof -
  obtain ks where ks: "chain (node_pool s) (vchildren (vn s n)) ks"
    using assms(2,3) by (auto simp: vfs_ok_def nodes_ok_def vn_def)
  note F = find_cached_chain [OF ks, of name]
  show ?thesis
  proof (cases "find (\<lambda>k. vname (node_pool s ! k) = name) ks")
    case (Some k)
    then have "k < length (node_pool s)"
      using chain_set [OF ks] by (auto simp: find_Some_iff dest: nth_mem)
    with Some F assms(2) show ?thesis by (auto simp: find_child_def vfs_frame_refl)
  next
    case None
    show ?thesis
    proof (cases "Option.bind (v_ops (vn s n)) (lookup_op drv)")
      case None
      with \<open>find _ ks = None\<close> F assms(2) show ?thesis by (auto simp: find_child_def vfs_frame_refl)
    next
      case (Some lookup)
      then obtain ops where "drv_lookup drv ops = Some lookup"
        by (auto simp: lookup_op_def bind_eq_Some_conv split: if_splits)
      then have "lookup_ok lookup" using assms(1) by (simp add: drivers_ok_def)
      with assms(2) obtain s' r where "lookup s n name = Some (s', r)" "vfs_frame s s'"
        "\<forall>k. r = Some k \<longrightarrow> k < length (node_pool s')"
        unfolding lookup_ok_def by meson
      with \<open>find _ ks = None\<close> Some F show ?thesis by (auto simp: find_child_def)
    qed
  qed
qed

lemma resolve_step_law:
  assumes "drivers_ok drv" and "vfs_ok s" and "n < length (node_pool s)"
  shows "\<exists>s' r. resolve_step drv s (Some n) part = Some (s', r) \<and> vfs_frame s s' \<and>
    (\<forall>k. r = Some k \<longrightarrow> k < length (node_pool s'))"
  using find_child_law [OF assms, of part] assms(2,3) vfs_frame_refl [OF assms(2)]
  by (auto simp: resolve_step_def vfs_ok_def split: option.split)

lemma walk_components_law:
  assumes "drivers_ok drv" and "vfs_ok s" and "n < length (node_pool s)"
  shows "\<exists>s' r. walk_components drv s (Some n) cs = Some (s', r) \<and> vfs_frame s s' \<and>
    (\<forall>k. r = Some k \<longrightarrow> k < length (node_pool s'))"
  using assms(2,3)
proof (induction cs arbitrary: s n)
  case Nil
  then show ?case by (auto simp: vfs_frame_refl)
next
  case (Cons part cs)
  from resolve_step_law [OF assms(1) Cons.prems, of part] obtain s1 r1 where
    r1: "resolve_step drv s (Some n) part = Some (s1, r1)" "vfs_frame s s1" "\<forall>k. r1 = Some k \<longrightarrow> k < length (node_pool s1)"
    by blast
  show ?case
  proof (cases r1)
    case None
    with r1 show ?thesis by auto
  next
    case (Some k)
    have "vfs_ok s1" using r1(2) by (simp add: vfs_frame_def)
    moreover have "k < length (node_pool s1)" using r1(3) Some by simp
    ultimately obtain s' r where "walk_components drv s1 (Some k) cs = Some (s', r)" "vfs_frame s1 s'"
      "\<forall>k. r = Some k \<longrightarrow> k < length (node_pool s')"
      using Cons.IH by blast
    with r1 Some vfs_frame_trans [OF r1(2), of s'] show ?thesis by auto
  qed
qed

lemma vfs_resolve_law:
  assumes "drivers_ok drv" and "vfs_ok s"
  shows "\<exists>s' r. vfs_resolve drv s (Some path) = Some (s', r) \<and> vfs_frame s s' \<and>
    (\<forall>k. r = Some k \<longrightarrow> k < length (node_pool s'))"
proof -
  obtain r where r: "root s = Some r" "r < length (node_pool s)"
    using assms(2) by (auto simp: vfs_ok_def)
  have "\<exists>p. vfs_resolve drv s (Some path) = resolve_loop drv s (Some r) p"
    by (cases path) (auto simp: vfs_resolve_def vfs_resolve_at_def r split: char.split bool.split)
  then show ?thesis
    using walk_components_law [OF assms r(2)] by (auto simp: resolve_loop_components)
qed

lemma open_node_law:
  assumes "drivers_ok drv" and "vfs_ok s"
  shows "\<exists>s' r. open_node drv s path flags = Some (s', r) \<and> vfs_frame s s' \<and> (\<forall>k. r = Some k \<longrightarrow> k < length (node_pool s'))"
proof -
  from vfs_resolve_law [OF assms, of path] obtain s1 r1 where
    r1: "vfs_resolve drv s (Some path) = Some (s1, r1)" "vfs_frame s s1" "\<forall>k. r1 = Some k \<longrightarrow> k < length (node_pool s1)"
    by blast
  have ok1: "vfs_ok s1" using r1(2) by (simp add: vfs_frame_def)
  have create: "\<exists>s2 rc. vfs_create_file drv s1 path = Some (s2, rc) \<and> vfs_frame s1 s2"
  proof (cases "drv_create drv")
    case None
    then show ?thesis using ok1 by (simp add: vfs_create_file_def vfs_frame_refl)
  next
    case (Some hook)
    then have "create_ok hook" using assms(1) by (simp add: drivers_ok_def)
    with ok1 obtain s2 rc where "hook s1 path = Some (s2, rc)" "vfs_frame s1 s2"
      unfolding create_ok_def by meson
    with Some show ?thesis by (simp add: vfs_create_file_def)
  qed
  then obtain s2 rc where c: "vfs_create_file drv s1 path = Some (s2, rc)" "vfs_frame s1 s2" by blast
  have ok2: "vfs_ok s2" using c(2) by (simp add: vfs_frame_def)
  from vfs_resolve_law [OF assms(1) ok2, of path] obtain s3 r3 where
    r3: "vfs_resolve drv s2 (Some path) = Some (s3, r3)" "vfs_frame s2 s3" "\<forall>k. r3 = Some k \<longrightarrow> k < length (node_pool s3)"
    by blast
  note T = vfs_frame_trans [OF r1(2) c(2)] vfs_frame_trans [OF vfs_frame_trans [OF r1(2) c(2)] r3(2)]
  show ?thesis
    using r1 c r3 T by (cases r1) (auto simp: open_node_def)
qed

lemma vfs_ok_size: "vfs_ok (set_vn n (\<lambda>v. v\<lparr>vsize := z\<rparr>) s) = vfs_ok s"
proof -
  have eq: "vparent (node_pool (set_vn n (\<lambda>v. v\<lparr>vsize := z\<rparr>) s) ! k) = vparent (node_pool s ! k)"
    "vchildren (node_pool (set_vn n (\<lambda>v. v\<lparr>vsize := z\<rparr>) s) ! k) = vchildren (node_pool s ! k)"
    "vnext (node_pool (set_vn n (\<lambda>v. v\<lparr>vsize := z\<rparr>) s) ! k) = vnext (node_pool s ! k)" for k
    by (cases "n < length (node_pool s)"; cases "k = n"; simp add: set_vn_def list_update_beyond)+
  have ch: "chain (node_pool (set_vn n (\<lambda>v. v\<lparr>vsize := z\<rparr>) s)) c ks = chain (node_pool s) c ks" for c ks
    by (induction ks arbitrary: c) (simp_all add: eq, simp add: set_vn_def)
  have len: "length (node_pool (set_vn n (\<lambda>v. v\<lparr>vsize := z\<rparr>) s)) = length (node_pool s)"
    "root (set_vn n (\<lambda>v. v\<lparr>vsize := z\<rparr>) s) = root s" "vheap (set_vn n (\<lambda>v. v\<lparr>vsize := z\<rparr>) s) = vheap s"
    by (simp_all add: set_vn_def)
  show ?thesis
    unfolding vfs_ok_def nodes_ok_def vn_def len ch eq ..
qed

lemma open_truncate_law:
  assumes "drivers_ok drv" and "vfs_ok s"
  shows "\<exists>s' ok. open_truncate drv s n flags = Some (s', ok) \<and> vfs_frame s s'"
proof (cases "Option.bind (vops (vn s n)) (drv_truncate drv)")
  case None
  then have "open_truncate drv s n flags = Some (s, True)" by (simp add: open_truncate_def)
  then show ?thesis using vfs_frame_refl [OF assms(2)] by blast
next
  case (Some trunc)
  then obtain ops where "drv_truncate drv ops = Some trunc"
    by (auto simp: bind_eq_Some_conv)
  then have "truncate_ok trunc" using assms(1) by (simp add: drivers_ok_def)
  with assms(2) obtain s1 rc where "trunc s n 0 = Some (s1, rc)" "vfs_frame s s1"
    unfolding truncate_ok_def by meson
  moreover have "vfs_frame s (set_vn n (\<lambda>v. v\<lparr>vsize := 0\<rparr>) s1)"
    using \<open>vfs_frame s s1\<close> by (simp add: vfs_frame_def vfs_ok_size) (simp add: set_vn_def live_blocks_def)
  ultimately show ?thesis
    using Some assms(2) by (auto simp: open_truncate_def vfs_frame_refl)
qed

lemma fd_inv_frame:
  assumes "fd_inv s T B" and "vfs_frame s s'"
  shows "fd_inv s' T (B \<union> (live_blocks s' - live_blocks s))"
proof -
  note I = fd_invD [OF assms(1)]
  have r: "refs s' T f = refs s T f" for f
    using assms(2) by (simp add: vfs_frame_def refs_def)
  then have op: "open_files s' T = open_files s T"
    by (simp add: open_files_def)
  have "files s' = files s" "live_blocks s \<subseteq> live_blocks s'" "heap_inv (vheap s')"
    using assms(2) by (simp_all add: vfs_frame_def vfs_ok_def)
  then show ?thesis
    unfolding fd_inv_def op using I r by (simp (no_asm_simp)) blast
qed

lemma alloc_fd_Some:
  assumes "alloc_fd s t = Some fd"
  shows "fd < MAX_FDS" "fd_tables s t fd = 0" "\<forall>j < fd. fd_tables s t j \<noteq> 0"
  using assms by (auto simp: alloc_fd_def find_Some_iff)

lemma alloc_fd_None: "alloc_fd s t = None \<longleftrightarrow> (\<forall>j < MAX_FDS. fd_tables s t j \<noteq> 0)"
  by (auto simp: alloc_fd_def find_None_iff)

lemma install_file:
  assumes "fd_inv s T B" and "t \<in> T" and "fd < MAX_FDS" and "fd_tables s t fd = 0"
    and h: "heap_inv h" "f \<noteq> 0" "f \<notin> live_blocks s" "fst ` allocs h = insert f (live_blocks s)"
    and v: "refcount v = 1"
  defines "s' \<equiv> s\<lparr>vheap := h, files := (files s)(f := v), fd_tables := (fd_tables s)(t := (fd_tables s t)(fd := f))\<rparr>"
  shows "fd_inv s' T B"
proof -
  note I = fd_invD [OF assms(1)]
  have tb: "fd_tables s' = (fd_tables s)(t := (fd_tables s t)(fd := f))"
    by (simp add: s'_def)
  have f: "f \<notin> open_files s T" "f \<notin> T" "f \<notin> B"
    using h(3) I(3) by auto
  then have f0: "refs s T f = 0"
    using h(2) by (simp add: open_files_def)
  have r: "refs s' T g = (if g = f then 1 else refs s T g)" if "g \<noteq> 0" for g
    using refs_update [OF I(2) assms(2) tb, of g] slot_count_update [OF assms(3), of "fd_tables s t" f g] assms(4) that f0 h(2)
    by (auto split: if_splits)
  have op: "open_files s' T = insert f (open_files s T)"
    using r h(2) by (auto simp: open_files_def split: if_splits)
  have "\<forall>g \<in> insert f (open_files s T). refcount (files s' g) = int (refs s' T g)"
    using I(7) r v h(2) f(1) by (auto simp: s'_def open_files_def)
  then show ?thesis
    unfolding fd_inv_def op using I f h by (auto simp: live_blocks_def s'_def)
qed

section \<open>Properties\<close>


text \<open>A file system with one table, for the examples.\<close>

lemma demo_table:
  obtains s where "fd_table_create demo_vfs = Some (s, 0xFFFF000040004020)" "fd_inv s {0xFFFF000040004020} {}" "vfs_ok s"
    "fd_tables s = (\<lambda>_ _. 0)"
proof -
  have i: "fd_inv demo_vfs {} {}"
    using demo_heap_inv by (simp add: fd_inv_def demo_vfs_eq live_blocks_def open_files_def refs_def)
  have k: "\<exists>h. kmalloc demo_heap 512 = Some (h, 0xFFFF000040004020)"
    by (simp add: kmalloc_def kmalloc_attempts_two heap_align_up_def u64_def demo_heap_eq kmalloc_fit.simps)
  have r: "\<exists>s. fd_table_create demo_vfs = Some (s, 0xFFFF000040004020)"
    using k by (auto simp: fd_table_create_def demo_vfs_eq)
  from i show thesis
  proof (rule fd_table_create_law)
    fix s t assume s: "fd_table_create demo_vfs = Some (s, t)" "fd_inv s (insert t {}) {}"
      "fd_tables s = (fd_tables demo_vfs)(t := (\<lambda>_. 0))"
    then have t: "t = 0xFFFF000040004020" using r by auto
    have "node_pool s = node_pool demo_vfs" "root s = root demo_vfs"
      using s(1) by (auto simp: fd_table_create_def bind_eq_Some_conv)
    then have "vfs_ok s"
      using fd_invD(1) [OF s(2)] demo_vfs_ok by (simp add: vfs_ok_def vn_def demo_vfs_eq)
    with s t that show thesis by (simp add: demo_vfs_eq fun_upd_idem)
  qed (use r in auto)
qed

lemma no_drivers_ok: "drivers_ok no_drivers"
  by (simp add: drivers_ok_def no_drivers_def)


text \<open>
  C34. Closing. \<^verbatim>\<open>fd_close\<close> on an open descriptor returns 0, empties exactly that slot and keeps
  the descriptor invariant; the open file is freed exactly when this was the last descriptor, in any
  table, that referred to it. On a bad or closed descriptor it returns -1 and changes nothing.
\<close>
theorem fd_close_last_reference:
  assumes "fd_inv s T B" and "t \<in> T"
  shows "if fd_file s t fd = 0 then fd_close s t fd = Some (s, -1)
    else \<exists>s'. fd_close s t fd = Some (s', 0) \<and> fd_inv s' T B \<and>
      fd_tables s' = (fd_tables s)(t := (fd_tables s t)(nat fd := 0)) \<and>
      live_blocks s' = (if refs s T (fd_file s t fd) = 1 then live_blocks s - {fd_file s t fd} else live_blocks s)"
proof (cases "fd_file s t fd = 0")
  case True
  then show ?thesis by (simp add: fd_close_def)
next
  case False
  then have f: "nat fd < MAX_FDS" "fd_tables s t (nat fd) = fd_file s t fd"
    by (auto simp: fd_file_def split: if_splits)
  from assms f False show ?thesis
  proof (rule drop_slot)
    fix s1 assume "fd_release (clear_slot t (nat fd) s) (fd_file s t fd) = Some (clear_slot t (nat fd) s1)"
      "fd_inv (clear_slot t (nat fd) s1) T B" "fd_tables s1 = fd_tables s"
      "live_blocks s1 = (if refs s T (fd_file s t fd) = 1 then live_blocks s - {fd_file s t fd} else live_blocks s)"
    then show ?thesis
      using False by (simp add: fd_close_def)
  qed
qed

theorem fd_close_last_reference_witness:
  "\<exists>s t s'. fd_table_create demo_vfs = Some (s, t) \<and> t \<noteq> 0 \<and> fd_close s t 3 = Some (s', -1)"
proof (rule demo_table)
  fix s :: "unit vfs" assume s: "fd_table_create demo_vfs = Some (s, 0xFFFF000040004020)" "fd_inv s {0xFFFF000040004020} {}"
    "fd_tables s = (\<lambda>_ _. 0)"
  have "fd_close s 0xFFFF000040004020 3 = Some (s, -1)"
    using fd_close_last_reference [OF s(2), of "0xFFFF000040004020" 3] s(3) by (simp add: fd_file_def)
  then show ?thesis
    using s(1) by (intro exI conjI) (assumption, simp, assumption)
qed

text \<open>
  C16. \<^verbatim>\<open>fork\<close> and exit on descriptors. Cloning a table gives a table with the same files in the
  same slots, so offsets are shared, or fails leaving all tables as they were; destroying the clone
  releases its references only, so that every file, every slot and every reference count of the
  other tables is again what it was, and no block is leaked.
\<close>
theorem fd_table_clone_destroy:
  assumes "fd_inv s T B" and "src \<in> T" and "src \<noteq> 0"
  shows "\<exists>s' dst. fd_table_clone s src = Some (s', dst) \<and>
    (if dst = 0 then fd_inv s' T B \<and> (\<forall>u \<in> T. fd_tables s' u = fd_tables s u)
     else dst \<notin> T \<and> fd_inv s' (insert dst T) B \<and>
       (\<forall>i < MAX_FDS. fd_file s' dst (int i) = fd_file s src (int i)) \<and>
       (\<exists>s''. fd_table_destroy s' dst = Some s'' \<and> fd_inv s'' T B \<and>
          (\<forall>u \<in> T. fd_tables s'' u = fd_tables s u) \<and> (\<forall>f. refs s'' T f = refs s T f) \<and> live_blocks s'' = live_blocks s))"
proof -
  from fd_table_clone_law [OF assms] obtain s' dst where c: "fd_table_clone s src = Some (s', dst)"
    "\<forall>u. u \<noteq> dst \<longrightarrow> fd_tables s' u = fd_tables s u"
    "if dst = 0 then fd_inv s' T B
     else dst \<notin> T \<and> fd_inv s' (insert dst T) B \<and> (\<forall>i < MAX_FDS. fd_tables s' dst i = fd_tables s src i)"
    by blast
  show ?thesis
  proof (cases "dst = 0")
    case True
    have "0 \<notin> live_blocks s"
      using allocs_nonzero [OF fd_invD(1) [OF assms(1)], of 0] by (auto simp: live_blocks_def)
    then have "0 \<notin> T" using fd_invD(3) [OF assms(1)] by auto
    then have "\<forall>u \<in> T. fd_tables s' u = fd_tables s u" using c(2) True by metis
    then show ?thesis
      using True c by (intro exI [of _ s'] exI [of _ 0]) simp
  next
    case False
    then have d: "dst \<notin> T" "fd_inv s' (insert dst T) B" "\<forall>i < MAX_FDS. fd_tables s' dst i = fd_tables s src i"
      using c(3) by auto
    from fd_table_destroy_law [OF d(2) _ False] obtain s'' where s'': "fd_table_destroy s' dst = Some s''"
      "fd_inv s'' (insert dst T - {dst}) B" "\<forall>u. u \<noteq> dst \<longrightarrow> fd_tables s'' u = fd_tables s' u"
      by auto
    have T: "insert dst T - {dst} = T" using d(1) by blast
    have tb: "\<forall>u \<in> T. fd_tables s'' u = fd_tables s u"
      using s''(3) c(2) d(1) by auto
    then have r: "refs s'' T f = refs s T f" for f
      unfolding refs_def by (intro sum.cong) auto
    have "live_blocks s'' = live_blocks s"
      using fd_invD(3) [OF s''(2) [unfolded T]] fd_invD(3) [OF assms(1)] by (simp add: open_files_def r)
    then show ?thesis
      using c(1) d s''(1) s''(2) [unfolded T] tb r False
      by (intro exI [of _ s'] exI [of _ dst]) (auto simp: fd_file_def)
  qed
qed

theorem fd_table_clone_destroy_witness:
  "\<exists>s t s' dst. fd_table_create demo_vfs = Some (s, t) \<and> t \<noteq> 0 \<and> fd_table_clone s t = Some (s', dst)"
proof (rule demo_table)
  fix s :: "unit vfs" assume s: "fd_table_create demo_vfs = Some (s, 0xFFFF000040004020)" "fd_inv s {0xFFFF000040004020} {}"
  from fd_table_clone_destroy [OF s(2), of "0xFFFF000040004020"] obtain s' dst
    where "fd_table_clone s 0xFFFF000040004020 = Some (s', dst)" by auto
  then show ?thesis
    using s(1) by (intro exI conjI) (assumption, simp, assumption)
qed

text \<open>
  Seeking. \<^verbatim>\<open>fd_seek\<close> either returns -1 and changes nothing, or returns the new offset, which
  is never negative and is what the file then has; no other field of any file changes. Character
  devices and unknown modes are refused.
\<close>
theorem fd_seek_bounds:
  "case fd_seek s t fd offset whence of (s', r) \<Rightarrow>
     r = -1 \<and> s' = s \<or>
     0 \<le> r \<and> fd_file s t fd \<noteq> 0 \<and> whence \<le> 2 \<and> vtype (vn s (fvnode (files s (fd_file s t fd)))) \<noteq> VNODE_CHR \<and>
     s' = s\<lparr>files := (files s)(fd_file s t fd := (files s (fd_file s t fd))\<lparr>foffset := r\<rparr>)\<rparr>"
  by (auto simp: fd_seek_def Let_def)

end
