(* ===== verification/Fat32.thy ===== *)
theory Fat32
  imports Prelude "HOL-Library.Monad_Syntax"
begin

text \<open>
  The FAT32 file system, \<^verbatim>\<open>src/src/fs/fat32/fat32.c\<close>, over a disk of 512-byte sectors. The block
  device is a parameter of the state: \<open>rd_ok\<close> and \<open>wr_ok\<close> say for which sectors it serves
  requests. A cluster chain may be cyclic, so walks along one are
  \<open>partial_function (option)\<close>; the outer \<^term>\<open>None\<close> is a walk that does not return or a
  null pointer that is dereferenced. All on-disk quantities are 32 bits wide and wrap as in C. Names and paths are character
  lists without the terminator; file data are byte lists.
\<close>

section \<open>The volume and its sectors\<close>

type_synonym sector = "nat \<Rightarrow> 8 word"

record fat32 =
  fat_start_sector :: nat
  data_start_sector :: nat
  sectors_per_cluster :: nat
  root_cluster :: nat
  bytes_per_cluster :: nat
  disk :: "nat \<Rightarrow> sector"
  rd_ok :: "nat \<Rightarrow> bool"
  wr_ok :: "nat \<Rightarrow> bool"

definition SECTOR :: nat where "SECTOR = 512"
definition DIR_ENTRY_SIZE :: nat where "DIR_ENTRY_SIZE = 32"
definition ATTR_LFN :: "8 word" where "ATTR_LFN = 0x0F"
definition ATTR_VOLUME_ID :: "8 word" where "ATTR_VOLUME_ID = 0x08"
definition ATTR_DIRECTORY :: "8 word" where "ATTR_DIRECTORY = 0x10"
definition FAT32_EOC :: nat where "FAT32_EOC = 0x0FFFFFF8"

definition get16 :: "sector \<Rightarrow> nat \<Rightarrow> nat" where
  "get16 b off = unat (b off) + 256 * unat (b (off + 1))"

definition get32 :: "sector \<Rightarrow> nat \<Rightarrow> nat" where
  "get32 b off = get16 b off + 65536 * get16 b (off + 2)"

definition put32 :: "sector \<Rightarrow> nat \<Rightarrow> nat \<Rightarrow> sector" where
  "put32 b off v =
     b(off := of_nat v, off + 1 := of_nat (v div 256), off + 2 := of_nat (v div 65536), off + 3 := of_nat (v div 16777216))"

text \<open>Writing a list of bytes into a sector buffer.\<close>

definition put_bytes :: "sector \<Rightarrow> nat \<Rightarrow> 8 word list \<Rightarrow> sector" where
  "put_bytes b off xs = (\<lambda>i. if off \<le> i \<and> i < off + length xs then xs ! (i - off) else b i)"

definition blk_write :: "fat32 \<Rightarrow> nat \<Rightarrow> sector \<Rightarrow> fat32 \<times> bool" where
  "blk_write s sec b = (if wr_ok s sec then (s\<lparr>disk := (disk s)(sec := b)\<rparr>, True) else (s, False))"

definition cluster_to_sector :: "fat32 \<Rightarrow> nat \<Rightarrow> nat" where
  "cluster_to_sector s cluster =
     u32 (data_start_sector s + u32 (u32 (cluster + 2 ^ 32 - 2) * sectors_per_cluster s))"

definition fat_sector :: "fat32 \<Rightarrow> nat \<Rightarrow> nat" where
  "fat_sector s cluster = u32 (fat_start_sector s + u32 (cluster * 4) div SECTOR)"

definition fat_offset :: "nat \<Rightarrow> nat" where
  "fat_offset cluster = u32 (cluster * 4) mod SECTOR"

definition fat_next :: "fat32 \<Rightarrow> nat \<Rightarrow> nat" where
  "fat_next s cluster =
     (if \<not> rd_ok s (fat_sector s cluster) then FAT32_EOC
      else get32 (disk s (fat_sector s cluster)) (fat_offset cluster) mod 2 ^ 28)"

section \<open>Names\<close>

definition upcase :: "char \<Rightarrow> 8 word" where
  "upcase c = (let b = of_char c :: 8 word in if 0x61 \<le> b \<and> b \<le> 0x7a then b - 32 else b)"

definition pad :: "nat \<Rightarrow> 8 word list \<Rightarrow> 8 word list" where
  "pad n xs = xs @ replicate (n - length xs) 0x20"

definition to_83 :: "string \<Rightarrow> 8 word list" where
  "to_83 name =
     (let base = takeWhile (\<lambda>c. c \<noteq> CHR ''.'') (take 8 name);
          rest = dropWhile (\<lambda>c. c \<noteq> CHR ''.'') (drop (length base) name);
          ext = take 3 (if take 1 rest = ''.'' then tl rest else rest)
      in pad 8 (map upcase base) @ pad 3 (map upcase ext))"

definition shortname_to_display :: "8 word list \<Rightarrow> 8 word list" where
  "shortname_to_display raw =
     takeWhile (\<lambda>b. b \<noteq> 0x20) (take 8 raw) @
     (if raw ! 8 \<noteq> 0x20 then 0x2e # takeWhile (\<lambda>b. b \<noteq> 0x20) (take 3 (drop 8 raw)) else [])"

section \<open>Mounting\<close>

definition fat32_mount :: "fat32 \<Rightarrow> fat32 \<times> bool" where
  "fat32_mount s =
     (if \<not> rd_ok s 0 then (s, False)
      else (let b = disk s 0 in
            if get16 b 11 \<noteq> SECTOR then (s, False)
            else if get16 b 22 \<noteq> 0 \<or> get16 b 17 \<noteq> 0 then (s, False)
            else (s\<lparr>sectors_per_cluster := unat (b 13), fat_start_sector := get16 b 14,
                    data_start_sector := u32 (get16 b 14 + u32 (unat (b 16) * get32 b 36)),
                    root_cluster := get32 b 44, bytes_per_cluster := unat (b 13) * SECTOR\<rparr>, True)))"

section \<open>Directory lookup\<close>

definition e_name :: "sector \<Rightarrow> nat \<Rightarrow> 8 word list" where
  "e_name b off = map (\<lambda>i. b (off + i)) [0..<11]"

definition e_attr :: "sector \<Rightarrow> nat \<Rightarrow> 8 word" where
  "e_attr b off = b (off + 11)"

definition e_cluster :: "sector \<Rightarrow> nat \<Rightarrow> nat" where
  "e_cluster b off = get16 b (off + 20) * 65536 + get16 b (off + 26)"

definition e_size :: "sector \<Rightarrow> nat \<Rightarrow> nat" where
  "e_size b off = get32 b (off + 28)"

text \<open>A scan of a sector or a cluster finds something, ends the search, or goes on.\<close>

datatype 'a scan = Hit 'a | Stop | Go

definition dir_offsets :: "nat list" where
  "dir_offsets = map (\<lambda>i. i * DIR_ENTRY_SIZE) [0..<16]"

definition skipped :: "sector \<Rightarrow> nat \<Rightarrow> bool" where
  "skipped b off \<longleftrightarrow> b off = 0xE5 \<or> e_attr b off = ATTR_LFN \<or> e_attr b off AND ATTR_VOLUME_ID \<noteq> 0"

fun lookup_slots :: "sector \<Rightarrow> 8 word list \<Rightarrow> nat list \<Rightarrow> (nat \<times> nat \<times> 8 word) scan" where
  "lookup_slots b target [] = Go"
| "lookup_slots b target (off # offs) =
     (if b off = 0 then Stop
      else if skipped b off then lookup_slots b target offs
      else if e_name b off = target then Hit (e_cluster b off, e_size b off, e_attr b off)
      else lookup_slots b target offs)"

fun lookup_sectors :: "fat32 \<Rightarrow> nat \<Rightarrow> 8 word list \<Rightarrow> nat list \<Rightarrow> (nat \<times> nat \<times> 8 word) scan" where
  "lookup_sectors s base target [] = Go"
| "lookup_sectors s base target (k # ks) =
     (if \<not> rd_ok s (u32 (base + k)) then Stop
      else case lookup_slots (disk s (u32 (base + k))) target dir_offsets of
             Hit h \<Rightarrow> Hit h | Stop \<Rightarrow> Stop | Go \<Rightarrow> lookup_sectors s base target ks)"

partial_function (option) dir_lookup :: "fat32 \<Rightarrow> nat \<Rightarrow> 8 word list \<Rightarrow> (nat \<times> nat \<times> 8 word) option option" where
  "dir_lookup s cluster target =
     (if cluster < FAT32_EOC
      then (case lookup_sectors s (cluster_to_sector s cluster) target [0..<sectors_per_cluster s] of
              Hit h \<Rightarrow> Some (Some h)
            | Stop \<Rightarrow> Some None
            | Go \<Rightarrow> dir_lookup s (fat_next s cluster) target)
      else Some None)"

section \<open>Iteration\<close>

record fat32_dirent =
  fd_name :: "8 word list"
  fd_fsize :: nat
  fd_first_cluster :: nat
  fd_attr :: "8 word"
  fd_is_dir :: bool

definition dirent_synth :: "8 word list \<Rightarrow> nat \<Rightarrow> fat32_dirent" where
  "dirent_synth name cluster =
     \<lparr>fd_name = name, fd_fsize = 0, fd_first_cluster = cluster, fd_attr = ATTR_DIRECTORY, fd_is_dir = True\<rparr>"

text \<open>A slot scan hits with the entry and the new cookie, or stops with the cookie to resume from.\<close>

fun iterate_slots :: "sector \<Rightarrow> nat \<Rightarrow> nat \<Rightarrow> nat list \<Rightarrow> (fat32_dirent option \<times> nat) option" where
  "iterate_slots b sec_first start [] = None"
| "iterate_slots b sec_first start (off # offs) =
     (let this_slot = sec_first + off div DIR_ENTRY_SIZE in
      if this_slot < start then iterate_slots b sec_first start offs
      else if b off = 0 then Some (None, this_slot)
      else if skipped b off then iterate_slots b sec_first start offs
      else Some (Some \<lparr>fd_name = shortname_to_display (e_name b off), fd_fsize = e_size b off,
                       fd_first_cluster = e_cluster b off, fd_attr = e_attr b off,
                       fd_is_dir = (e_attr b off AND ATTR_DIRECTORY \<noteq> 0)\<rparr>, this_slot + 1))"

fun iterate_sectors :: "fat32 \<Rightarrow> nat \<Rightarrow> nat \<Rightarrow> nat \<Rightarrow> nat list \<Rightarrow> (fat32_dirent option \<times> nat) option" where
  "iterate_sectors s base slot start [] = None"
| "iterate_sectors s base slot start (k # ks) =
     (let sec_first = slot + k * 16 in
      if sec_first + 16 \<le> start then iterate_sectors s base slot start ks
      else if \<not> rd_ok s (u32 (base + k)) then Some (None, sec_first)
      else case iterate_slots (disk s (u32 (base + k))) sec_first start dir_offsets of
             Some r \<Rightarrow> Some r | None \<Rightarrow> iterate_sectors s base slot start ks)"

partial_function (option) iterate_clusters ::
    "fat32 \<Rightarrow> nat \<Rightarrow> nat \<Rightarrow> nat \<Rightarrow> (fat32_dirent option \<times> nat) option" where
  "iterate_clusters s cluster slot start =
     (if cluster < FAT32_EOC
      then (case iterate_sectors s (cluster_to_sector s cluster) slot start [0..<sectors_per_cluster s] of
              Some r \<Rightarrow> Some r
            | None \<Rightarrow> iterate_clusters s (fat_next s cluster) (slot + sectors_per_cluster s * 16) start)
      else Some (None, slot))"

definition fat32_dir_iterate :: "fat32 \<Rightarrow> nat \<Rightarrow> nat \<Rightarrow> (fat32_dirent option \<times> nat) option" where
  "fat32_dir_iterate s dir_cluster io_offset =
     (let at_root = (dir_cluster = root_cluster s) in
      if at_root \<and> io_offset = 0 then Some (Some (dirent_synth [0x2e] dir_cluster), 1)
      else if at_root \<and> io_offset = 1 then Some (Some (dirent_synth [0x2e, 0x2e] dir_cluster), 2)
      else (let base = (if at_root then 2 else 0) in
            iterate_clusters s dir_cluster 0 (if io_offset < base then base else io_offset)))"

section \<open>Paths\<close>

abbreviation slash :: char where "slash \<equiv> CHR ''/''"

lemma rest_shorter:
  assumes "path \<noteq> []"
  shows "length (dropWhile (\<lambda>c. c = slash) (dropWhile (\<lambda>c. c \<noteq> slash) path)) < length path"
proof (cases path)
  case (Cons c p)
  have le: "length (dropWhile (\<lambda>c. c = slash) q) \<le> length q" "length (dropWhile (\<lambda>c. c \<noteq> slash) q) \<le> length q" for q
    by (rule length_dropWhile_le)+
  show ?thesis
    using Cons le(1) [of p] le(1) [of "dropWhile (\<lambda>c. c \<noteq> slash) p"] le(2) [of p] by (cases "c = slash") auto
qed (use assms in simp)

function find_loop :: "fat32 \<Rightarrow> nat \<Rightarrow> string \<Rightarrow> (nat \<times> nat) option option" where
  "find_loop s cur path =
     (if path = [] then Some None
      else (let seg = takeWhile (\<lambda>c. c \<noteq> slash) path;
                rest = dropWhile (\<lambda>c. c = slash) (dropWhile (\<lambda>c. c \<noteq> slash) path)
            in case dir_lookup s cur (to_83 (take 12 seg)) of
                 None \<Rightarrow> None
               | Some None \<Rightarrow> Some None
               | Some (Some (cluster, z, attr)) \<Rightarrow>
                   if rest \<noteq> [] then
                     (if attr AND ATTR_DIRECTORY = 0 then Some None else find_loop s cluster rest)
                   else Some (Some (cluster, z))))"
  by pat_completeness auto
termination
  by (relation "measure (\<lambda>(s, cur, path). length path)") (auto simp: rest_shorter)

declare find_loop.simps [simp del]

text \<open>The result is the first cluster and the size of the entry.\<close>

definition fat32_find :: "fat32 \<Rightarrow> string \<Rightarrow> (nat \<times> nat) option option" where
  "fat32_find s path = find_loop s (root_cluster s) (dropWhile (\<lambda>c. c = slash) path)"

definition fat32_lookup_in_dir :: "fat32 \<Rightarrow> nat \<Rightarrow> string \<Rightarrow> (nat \<times> nat \<times> bool) option option" where
  "fat32_lookup_in_dir s dir_cluster name =
     map_option (map_option (\<lambda>(cluster, z, attr). (cluster, z, attr AND ATTR_DIRECTORY \<noteq> 0)))
       (dir_lookup s dir_cluster (to_83 name))"

section \<open>The allocation table\<close>

definition fat_write :: "fat32 \<Rightarrow> nat \<Rightarrow> nat \<Rightarrow> fat32 \<times> bool" where
  "fat_write s cluster value =
     (let sec = fat_sector s cluster; off = fat_offset cluster in
      if \<not> rd_ok s sec then (s, False)
      else (let b = disk s sec; v = get32 b off div 2 ^ 28 * 2 ^ 28 + value mod 2 ^ 28
            in blk_write s sec (put32 b off v)))"

partial_function (option) alloc_scan :: "fat32 \<Rightarrow> nat \<Rightarrow> (fat32 \<times> nat) option" where
  "alloc_scan s c =
     (if data_start_sector s \<le> fat_sector s c then Some (s, 0)
      else if \<not> rd_ok s (fat_sector s c) then Some (s, 0)
      else if get32 (disk s (fat_sector s c)) (fat_offset c) mod 2 ^ 28 = 0
           then (let (s1, ok) = fat_write s c 0x0FFFFFFF in Some (s1, if ok then c else 0))
      else alloc_scan s (u32 (c + 1)))"

definition fat_alloc_cluster :: "fat32 \<Rightarrow> (fat32 \<times> nat) option" where
  "fat_alloc_cluster s = alloc_scan s 2"

section \<open>Adding an entry\<close>

text \<open>The first free slot of a sector.\<close>

fun free_slot :: "sector \<Rightarrow> nat list \<Rightarrow> nat option" where
  "free_slot b [] = None"
| "free_slot b (off # offs) = (if b off = 0 \<or> b off = 0xE5 then Some off else free_slot b offs)"

fun add_sectors :: "fat32 \<Rightarrow> nat \<Rightarrow> 8 word list \<Rightarrow> nat list \<Rightarrow> fat32 \<times> unit scan" where
  "add_sectors s base entry [] = (s, Go)"
| "add_sectors s base entry (k # ks) =
     (let sec = u32 (base + k) in
      if \<not> rd_ok s sec then (s, Stop)
      else case free_slot (disk s sec) dir_offsets of
             None \<Rightarrow> add_sectors s base entry ks
           | Some off \<Rightarrow>
               (let (s1, ok) = blk_write s sec (put_bytes (disk s sec) off entry)
                in (s1, if ok then Hit () else Stop)))"

partial_function (option) dir_add_entry :: "fat32 \<Rightarrow> nat \<Rightarrow> 8 word list \<Rightarrow> (fat32 \<times> bool) option" where
  "dir_add_entry s cluster entry =
     (if cluster < FAT32_EOC
      then (case add_sectors s (cluster_to_sector s cluster) entry [0..<sectors_per_cluster s] of
              (s1, Hit u) \<Rightarrow> Some (s1, True)
            | (s1, Stop) \<Rightarrow> Some (s1, False)
            | (s1, Go) \<Rightarrow> dir_add_entry s1 (fat_next s1 cluster) entry)
      else Some (s, False))"

section \<open>Writing a fresh chain\<close>

fun write_sectors :: "fat32 \<Rightarrow> nat \<Rightarrow> 8 word list \<Rightarrow> nat list \<Rightarrow> fat32 \<times> 8 word list \<times> bool" where
  "write_sectors s base src [] = (s, src, True)"
| "write_sectors s base src (k # ks) =
     (if src = [] then (s, src, True)
      else (let (s1, ok) = blk_write s (u32 (base + k)) (put_bytes (\<lambda>_. 0) 0 (take SECTOR src))
            in if \<not> ok then (s1, src, False) else write_sectors s1 base (drop SECTOR src) ks))"

partial_function (option) cluster_write_data :: "fat32 \<Rightarrow> nat \<Rightarrow> 8 word list \<Rightarrow> (fat32 \<times> bool) option" where
  "cluster_write_data s cluster src =
     (if src \<noteq> [] \<and> cluster < FAT32_EOC
      then (case write_sectors s (cluster_to_sector s cluster) src [0..<sectors_per_cluster s] of
              (s1, rest, ok) \<Rightarrow>
                if \<not> ok then Some (s1, False) else cluster_write_data s1 (fat_next s1 cluster) rest)
      else Some (s, True))"

section \<open>Creating a file\<close>

text \<open>
  The parent walk of \<^verbatim>\<open>fat32_create\<close> over the text before the last slash; each separator run is
  skipped after its segment, an empty segment included.
\<close>

function create_walk :: "fat32 \<Rightarrow> nat \<Rightarrow> string \<Rightarrow> nat option option" where
  "create_walk s dir path =
     (if path = [] then Some (Some dir)
      else (let seg = takeWhile (\<lambda>c. c \<noteq> slash) path;
                rest = dropWhile (\<lambda>c. c = slash) (dropWhile (\<lambda>c. c \<noteq> slash) path)
            in case dir_lookup s dir (to_83 (take 12 seg)) of
                 None \<Rightarrow> None
               | Some None \<Rightarrow> Some None
               | Some (Some (cluster, z, attr)) \<Rightarrow>
                   if attr AND ATTR_DIRECTORY = 0 then Some None else create_walk s cluster rest))"
  by pat_completeness auto
termination
  by (relation "measure (\<lambda>(s, dir, path). length path)") (auto simp: rest_shorter)

declare create_walk.simps [simp del]

text \<open>Split at the last slash: the part before it, if there is one, and the file name.\<close>

definition split_last :: "string \<Rightarrow> string option \<times> string" where
  "split_last p =
     (if slash \<in> set p
      then (Some (rev (tl (dropWhile (\<lambda>c. c \<noteq> slash) (rev p)))), rev (takeWhile (\<lambda>c. c \<noteq> slash) (rev p)))
      else (None, p))"

fun create_chain :: "fat32 \<Rightarrow> nat \<Rightarrow> nat \<Rightarrow> nat \<Rightarrow> (fat32 \<times> nat option) option" where
  "create_chain s 0 first prev = Some (s, Some first)"
| "create_chain s (Suc n) first prev =
     do {
       (s1, c) \<leftarrow> fat_alloc_cluster s;
       if c = 0 then Some (s1, None)
       else (let (s2, ok) = (if prev \<noteq> 0 then fat_write s1 prev c else (s1, True)) in
             if \<not> ok then Some (s2, None) else create_chain s2 n (if first = 0 then c else first) c)
     }"

definition new_entry :: "string \<Rightarrow> nat \<Rightarrow> nat \<Rightarrow> 8 word list" where
  "new_entry filename first_cluster len =
     to_83 filename @ [0x20] @ replicate 8 0 @
     [of_nat (first_cluster div 65536), of_nat (first_cluster div 16777216)] @ replicate 4 0 @
     [of_nat first_cluster, of_nat (first_cluster div 256)] @
     [of_nat len, of_nat (len div 256), of_nat (len div 65536), of_nat (len div 16777216)]"

definition clusters_needed :: "fat32 \<Rightarrow> nat \<Rightarrow> nat" where
  "clusters_needed s len =
     (if len = 0 then 1 else u32 (len + bytes_per_cluster s + 2 ^ 32 - 1) div bytes_per_cluster s)"

definition fat32_create :: "fat32 \<Rightarrow> string \<Rightarrow> 8 word list \<Rightarrow> (fat32 \<times> bool) option" where
  "fat32_create s path data =
     (let p = dropWhile (\<lambda>c. c = slash) path; (parent, name) = split_last p; len = length data in
      do {
        dir \<leftarrow> (case parent of None \<Rightarrow> Some (Some (root_cluster s)) | Some q \<Rightarrow> create_walk s (root_cluster s) q);
        case dir of
          None \<Rightarrow> Some (s, False)
        | Some dir_cluster \<Rightarrow>
            do {
              (s1, r) \<leftarrow> create_chain s (clusters_needed s len) 0 0;
              case r of
                None \<Rightarrow> Some (s1, False)
              | Some first_cluster \<Rightarrow>
                  do {
                    (s2, ok) \<leftarrow> (if len > 0 \<and> first_cluster \<noteq> 0 then cluster_write_data s1 first_cluster data else Some (s1, True));
                    if \<not> ok then Some (s2, False)
                    else dir_add_entry s2 dir_cluster (new_entry (take 12 name) first_cluster len)
                  }
            }
      })"

section \<open>Truncation\<close>

fun truncate_slot :: "sector \<Rightarrow> 8 word list \<Rightarrow> nat list \<Rightarrow> nat option" where
  "truncate_slot b target [] = None"
| "truncate_slot b target (off # offs) =
     (if b off = 0 \<or> b off = 0xE5 \<or> e_attr b off = ATTR_LFN then truncate_slot b target offs
      else if e_name b off = target then Some off
      else truncate_slot b target offs)"

fun truncate_sectors :: "fat32 \<Rightarrow> nat \<Rightarrow> 8 word list \<Rightarrow> nat \<Rightarrow> nat list \<Rightarrow> fat32 \<times> unit scan" where
  "truncate_sectors s base target new_size [] = (s, Go)"
| "truncate_sectors s base target new_size (k # ks) =
     (let sec = u32 (base + k) in
      if \<not> rd_ok s sec then (s, Stop)
      else case truncate_slot (disk s sec) target dir_offsets of
             None \<Rightarrow> truncate_sectors s base target new_size ks
           | Some off \<Rightarrow>
               (let (s1, ok) = blk_write s sec (put32 (disk s sec) (off + 28) new_size)
                in (s1, if ok then Hit () else Stop)))"

partial_function (option) truncate_clusters :: "fat32 \<Rightarrow> nat \<Rightarrow> 8 word list \<Rightarrow> nat \<Rightarrow> (fat32 \<times> bool) option" where
  "truncate_clusters s cluster target new_size =
     (if cluster < FAT32_EOC
      then (case truncate_sectors s (cluster_to_sector s cluster) target new_size [0..<sectors_per_cluster s] of
              (s1, Hit u) \<Rightarrow> Some (s1, True)
            | (s1, Stop) \<Rightarrow> Some (s1, False)
            | (s1, Go) \<Rightarrow> truncate_clusters s1 (fat_next s1 cluster) target new_size)
      else Some (s, False))"

text \<open>
  The parent of a path with a directory part is looked up with a null size pointer, which a
  successful lookup writes through: that branch has no result.
\<close>

definition fat32_truncate_path :: "fat32 \<Rightarrow> string \<Rightarrow> nat \<Rightarrow> (fat32 \<times> bool) option" where
  "fat32_truncate_path s path new_size =
     (let (parent, name) = split_last (dropWhile (\<lambda>c. c = slash) path) in
      case parent of
        None \<Rightarrow>
          if 13 \<le> length name then Some (s, False)
          else truncate_clusters s (root_cluster s) (to_83 name) new_size
      | Some q \<Rightarrow>
          if 256 \<le> length q then Some (s, False)
          else if 13 \<le> length name then Some (s, False)
          else if q = [] then truncate_clusters s (root_cluster s) (to_83 name) new_size
          else (case fat32_find s q of
                  None \<Rightarrow> None
                | Some None \<Rightarrow> Some (s, False)
                | Some (Some r) \<Rightarrow> None))"

section \<open>Writing at an offset\<close>

fun extend_loop :: "fat32 \<Rightarrow> nat \<Rightarrow> nat \<Rightarrow> nat \<Rightarrow> (fat32 \<times> nat) option" where
  "extend_loop s cur first_new 0 =
     Some (if first_new \<noteq> 0 then fst (fat_write s cur FAT32_EOC) else s, first_new)"
| "extend_loop s cur first_new (Suc n) =
     do {
       (s1, nc) \<leftarrow> fat_alloc_cluster s;
       if nc = 0 then Some (s1, first_new)
       else (let (s2, ok) = fat_write s1 cur nc in
             if \<not> ok then Some (s2, first_new)
             else extend_loop s2 nc (if first_new = 0 then nc else first_new) n)
     }"

definition fat_extend_chain :: "fat32 \<Rightarrow> nat \<Rightarrow> nat \<Rightarrow> (fat32 \<times> nat) option" where
  "fat_extend_chain s last_cluster count = extend_loop s last_cluster 0 count"

fun seek_steps :: "fat32 \<Rightarrow> nat \<Rightarrow> nat \<Rightarrow> bool \<Rightarrow> (fat32 \<times> nat option) option" where
  "seek_steps s cluster 0 create = Some (s, Some cluster)"
| "seek_steps s cluster (Suc n) create =
     (let nxt = fat_next s cluster in
      if FAT32_EOC \<le> nxt then
        (if \<not> create then Some (s, None)
         else do {
           (s1, grown) \<leftarrow> fat_extend_chain s cluster 1;
           if grown = 0 then Some (s1, None) else seek_steps s1 grown n create
         })
      else seek_steps s nxt n create)"

text \<open>The cluster that holds the offset, and the offset within it.\<close>

definition fat_seek_cluster :: "fat32 \<Rightarrow> nat \<Rightarrow> nat \<Rightarrow> bool \<Rightarrow> (fat32 \<times> (nat \<times> nat) option) option" where
  "fat_seek_cluster s first_cluster offset create =
     (let bpc = u32 (sectors_per_cluster s * SECTOR) in
      do {
        (s1, r) \<leftarrow> seek_steps s first_cluster (offset div bpc) create;
        Some (s1, map_option (\<lambda>c. (c, offset mod bpc)) r)
      })"

text \<open>The sectors of one cluster; the rest of the data and the advanced offset are returned.\<close>

function write_inner :: "fat32 \<Rightarrow> nat \<Rightarrow> nat \<Rightarrow> nat \<Rightarrow> 8 word list \<Rightarrow> fat32 \<times> nat \<times> 8 word list \<times> bool" where
  "write_inner s base inner offset src =
     (if inner < u32 (sectors_per_cluster s * SECTOR) \<and> src \<noteq> []
      then (let sec = u32 (base + inner div SECTOR); inner_off = inner mod SECTOR;
                chunk = min (SECTOR - inner_off) (length src);
                whole = (inner_off = 0 \<and> chunk = SECTOR)
            in if \<not> whole \<and> \<not> rd_ok s sec then (s, offset, src, False)
               else (let b = put_bytes (if whole then (\<lambda>_. 0) else disk s sec) inner_off (take chunk src);
                         (s1, ok) = blk_write s sec b
                     in if \<not> ok then (s1, offset, src, False)
                        else write_inner s1 base (inner + chunk) (u32 (offset + chunk)) (drop chunk src)))
      else (s, offset, src, True))"
  by pat_completeness auto
termination
  by (relation "measure (\<lambda>(s, base, inner, offset, src). length src)") (auto simp: SECTOR_def)

declare write_inner.simps [simp del]

partial_function (option) write_loop :: "fat32 \<Rightarrow> nat \<Rightarrow> nat \<Rightarrow> 8 word list \<Rightarrow> (fat32 \<times> nat \<times> bool) option" where
  "write_loop s first_cluster offset src =
     (if src = [] then Some (s, offset, True)
      else Option.bind (fat_seek_cluster s first_cluster offset True)
        (\<lambda>r. case r of
           (s1, None) \<Rightarrow> Some (s1, offset, False)
         | (s1, Some (cluster, inner)) \<Rightarrow>
             (case write_inner s1 (cluster_to_sector s1 cluster) inner offset src of
                (s2, offset2, src2, ok) \<Rightarrow>
                  if \<not> ok then Some (s2, offset2, False) else write_loop s2 first_cluster offset2 src2)))"

text \<open>The new size is reported only on success.\<close>

definition fat32_write_at :: "fat32 \<Rightarrow> nat \<Rightarrow> nat \<Rightarrow> 8 word list \<Rightarrow> (fat32 \<times> nat option) option" where
  "fat32_write_at s first_cluster offset data =
     (if first_cluster = 0 then Some (s, None)
      else do {
        (s1, new_size, ok) \<leftarrow> write_loop s first_cluster offset data;
        Some (s1, if ok then Some new_size else None)
      })"

section \<open>Reading\<close>

fun read_sectors :: "fat32 \<Rightarrow> nat \<Rightarrow> nat \<Rightarrow> 8 word list \<Rightarrow> nat list \<Rightarrow> nat \<times> 8 word list \<times> bool" where
  "read_sectors s base remaining out [] = (remaining, out, True)"
| "read_sectors s base remaining out (k # ks) =
     (if remaining = 0 then (remaining, out, True)
      else if \<not> rd_ok s (u32 (base + k)) then (remaining, out, False)
      else (let chunk = min remaining SECTOR
            in read_sectors s base (remaining - chunk) (out @ map (disk s (u32 (base + k))) [0..<chunk]) ks))"

partial_function (option) read_clusters ::
    "fat32 \<Rightarrow> nat \<Rightarrow> nat \<Rightarrow> 8 word list \<Rightarrow> (nat \<times> 8 word list \<times> bool) option" where
  "read_clusters s cluster remaining out =
     (if 0 < remaining \<and> cluster < FAT32_EOC
      then (case read_sectors s (cluster_to_sector s cluster) remaining out [0..<sectors_per_cluster s] of
              (remaining1, out1, ok) \<Rightarrow>
                if \<not> ok then Some (remaining1, out1, False)
                else read_clusters s (fat_next s cluster) remaining1 out1)
      else Some (remaining, out, True))"

text \<open>The bytes stored in the buffer and the returned count.\<close>

definition fat32_read :: "fat32 \<Rightarrow> nat \<Rightarrow> nat \<Rightarrow> nat \<Rightarrow> (8 word list \<times> int) option" where
  "fat32_read s first_cluster fsize buf_len =
     (let n = min fsize buf_len in
      do {
        (remaining, out, ok) \<leftarrow> read_clusters s first_cluster n [];
        Some (out, if ok then to_int32 (n - remaining) else -1)
      })"

end
