(* ===== verification/Fat32_Laws.thy ===== *)
theory Fat32_Laws
  imports Fat32
begin

text \<open>
  What the FAT32 operations guarantee on a well-formed volume: allocation table entries, cluster
  chains as files, directory entries and names.
\<close>

section \<open>Sector arithmetic\<close>

lemma byte_of_nat [simp]: "unat (of_nat n :: 8 word) = n mod 256"
  by (simp add: unsigned_of_nat take_bit_eq_mod)

lemma byte_less: "unat (w :: 8 word) < 256"
  using unsigned_less [where 'a = nat, of w] by simp

lemma get16_less: "get16 b off < 65536"
  using byte_less [of "b off"] byte_less [of "b (off + 1)"] by (simp add: get16_def)

lemma get32_less: "get32 b off < 2 ^ 32"
  using get16_less [of b off] get16_less [of b "off + 2"] by (simp add: get32_def)

lemma bytes_of_32:
  fixes v :: nat
  shows "v mod 256 + 256 * (v div 256 mod 256) + 65536 * (v div 65536 mod 256 + 256 * (v div 16777216)) = v"
proof -
  have a: "v = v mod 256 + 256 * (v div 256)" by simp
  have b: "v div 256 = v div 256 mod 256 + 256 * (v div 65536)"
    using mod_div_mult_eq [of "v div 256" 256] by (simp add: div_mult2_eq [symmetric] algebra_simps)
  have c: "v div 65536 = v div 65536 mod 256 + 256 * (v div 16777216)"
    using mod_div_mult_eq [of "v div 65536" 256] by (simp add: div_mult2_eq [symmetric] algebra_simps)
  have "w = p + 256 * x \<Longrightarrow> x = q + 256 * y \<Longrightarrow> y = r + 256 * z \<Longrightarrow> p + 256 * q + 65536 * (r + 256 * z) = w"
    for w p q r x y z :: nat by simp
  from this [OF a b c] show ?thesis .
qed

lemma get32_put32:
  assumes "v < 2 ^ 32"
  shows "get32 (put32 b off v) off = v"
  using assms bytes_of_32 [of v] by (simp add: get32_def get16_def put32_def)

lemma get32_put32_other:
  "off + 4 \<le> off' \<or> off' + 4 \<le> off \<Longrightarrow> get32 (put32 b off v) off' = get32 b off'"
  by (auto simp: get32_def get16_def put32_def)

section \<open>Well-formed volumes\<close>

text \<open>
  The number of allocation table entries, and the layout the arithmetic relies on: the table lies
  before the data area, has fewer than \<^term>\<open>FAT32_EOC\<close> entries, and every cluster it can describe has
  32-bit sector numbers.
\<close>

definition fat_entries :: "fat32 \<Rightarrow> nat" where
  "fat_entries s = (data_start_sector s - fat_start_sector s) * 128"

definition vol_ok :: "fat32 \<Rightarrow> bool" where
  "vol_ok s \<longleftrightarrow>
     fat_start_sector s < data_start_sector s \<and> data_start_sector s - fat_start_sector s < 2 ^ 21 \<and>
     0 < sectors_per_cluster s \<and> sectors_per_cluster s < 256 \<and>
     data_start_sector s + fat_entries s * sectors_per_cluster s < 2 ^ 32"

definition dev_ok :: "fat32 \<Rightarrow> bool" where
  "dev_ok s \<longleftrightarrow> (\<forall>x. rd_ok s x \<and> wr_ok s x)"

definition fat_entry :: "fat32 \<Rightarrow> nat \<Rightarrow> nat" where
  "fat_entry s c = get32 (disk s (fat_start_sector s + c div 128)) (c mod 128 * 4) mod 2 ^ 28"

lemma fat_sector_eq:
  assumes "vol_ok s" and "c \<le> fat_entries s"
  shows "fat_sector s c = fat_start_sector s + c div 128" and "fat_offset c = c mod 128 * 4"
proof -
  have c: "c * 4 < 2 ^ 32"
    using assms by (simp add: vol_ok_def fat_entries_def)
  have d: "c * 4 div 512 = c div 128" "c * 4 mod 512 = c mod 128 * 4"
    using mod_mult_mult2 [of c 4 128] div_mult_mult2 [of 4 c 128] by simp_all
  have "c div 128 \<le> data_start_sector s - fat_start_sector s"
    using div_le_mono [OF assms(2), of 128] by (simp add: fat_entries_def)
  then have "fat_start_sector s + c div 128 < 2 ^ 32"
    using assms(1) unfolding vol_ok_def by linarith
  then show "fat_sector s c = fat_start_sector s + c div 128" "fat_offset c = c mod 128 * 4"
    using c d by (simp_all add: fat_sector_def fat_offset_def u32_def SECTOR_def)
qed

lemma fat_next_eq:
  assumes "vol_ok s" and "c < fat_entries s" and "rd_ok s (fat_sector s c)"
  shows "fat_next s c = fat_entry s c"
  using assms fat_sector_eq [OF assms(1), of c] by (simp add: fat_next_def fat_entry_def)

lemma fat_sector_range:
  assumes "vol_ok s" and "c \<le> fat_entries s"
  shows "fat_sector s c < data_start_sector s \<longleftrightarrow> c < fat_entries s"
proof -
  have "c div 128 < data_start_sector s - fat_start_sector s \<longleftrightarrow> c < fat_entries s"
    by (simp add: fat_entries_def div_less_iff_less_mult)
  then show ?thesis
    using fat_sector_eq(1) [OF assms] assms(1) by (auto simp: vol_ok_def)
qed

text \<open>Writing one entry of the table changes that entry only.\<close>

lemma fat_write_law:
  assumes "vol_ok s" and "c < fat_entries s" and "rd_ok s (fat_sector s c)" and "wr_ok s (fat_sector s c)" and "v < 2 ^ 28"
  obtains s' where "fat_write s c v = (s', True)" and "fat_entry s' c = v"
    and "\<forall>d. d \<noteq> c \<longrightarrow> fat_entry s' d = fat_entry s d"
    and "\<forall>x. x < fat_start_sector s \<or> data_start_sector s \<le> x \<longrightarrow> disk s' x = disk s x"
    and "\<exists>d. s' = s\<lparr>disk := d\<rparr>"
proof -
  define sec where "sec = fat_start_sector s + c div 128"
  define off where "off = c mod 128 * 4"
  define w where "w = get32 (disk s sec) off div 2 ^ 28 * 2 ^ 28 + v"
  define s' where "s' = s\<lparr>disk := (disk s)(sec := put32 (disk s sec) off w)\<rparr>"
  have e: "fat_sector s c = sec" "fat_offset c = off"
    using fat_sector_eq [OF assms(1), of c] assms(2) by (simp_all add: sec_def off_def)
  have "get32 (disk s sec) off div 2 ^ 28 < 16"
    using get32_less [of "disk s sec" off] by (simp add: div_less_iff_less_mult)
  then have w: "w < 2 ^ 32" "w mod 2 ^ 28 = v"
    using assms(5) by (simp_all add: w_def)
  have run: "fat_write s c v = (s', True)"
    using assms(3-5) e by (simp add: fat_write_def blk_write_def s'_def w_def Let_def)
  have own: "fat_entry s' c = v"
    using get32_put32 [OF w(1)] w(2) by (simp add: fat_entry_def s'_def sec_def off_def)
  have other: "fat_entry s' d = fat_entry s d" if "d \<noteq> c" for d
  proof (cases "d div 128 = c div 128")
    case True
    then have "d mod 128 \<noteq> c mod 128" using that by (metis div_mult_mod_eq)
    then have "get32 (put32 (disk s sec) off w) (d mod 128 * 4) = get32 (disk s sec) (d mod 128 * 4)"
      by (intro get32_put32_other) (auto simp: off_def)
    with True show ?thesis by (simp add: fat_entry_def s'_def sec_def)
  next
    case False
    then show ?thesis by (simp add: fat_entry_def s'_def sec_def)
  qed
  have "fat_start_sector s \<le> sec" "sec < data_start_sector s"
    using assms(2) fat_sector_range [OF assms(1), of c] e by (simp_all add: sec_def)
  then have "\<forall>x. x < fat_start_sector s \<or> data_start_sector s \<le> x \<longrightarrow> disk s' x = disk s x"
    by (auto simp: s'_def)
  then show thesis
    using that [OF run own] other by (auto simp: s'_def)
qed

lemma alloc_scan_law:
  assumes "vol_ok s" and "\<forall>x. fat_start_sector s \<le> x \<and> x < data_start_sector s \<longrightarrow> rd_ok s x" and "c \<le> fat_entries s"
  shows "alloc_scan s c =
    (if \<exists>d. c \<le> d \<and> d < fat_entries s \<and> fat_entry s d = 0
     then (let d = LEAST d. c \<le> d \<and> d < fat_entries s \<and> fat_entry s d = 0; (s1, ok) = fat_write s d 0x0FFFFFFF
           in Some (s1, if ok then d else 0))
     else Some (s, 0))"
  using assms(3)
proof (induction "fat_entries s - c" arbitrary: c)
  case 0
  then have "\<not> fat_sector s c < data_start_sector s"
    using fat_sector_range [OF assms(1), of c] by simp
  with 0 show ?case by (subst alloc_scan.simps) auto
next
  case (Suc n)
  then have lt: "c < fat_entries s" by simp
  note F = fat_sector_range [OF assms(1) Suc.prems] fat_sector_eq [OF assms(1) Suc.prems]
  have sec: "\<not> data_start_sector s \<le> fat_sector s c" "rd_ok s (fat_sector s c)"
    using F lt assms(2) by auto
  have ent: "get32 (disk s (fat_sector s c)) (fat_offset c) mod 2 ^ 28 = fat_entry s c"
    by (simp add: F fat_entry_def)
  show ?case
  proof (cases "fat_entry s c = 0")
    case True
    have "(LEAST d. c \<le> d \<and> d < fat_entries s \<and> fat_entry s d = 0) = c"
      using True lt by (intro Least_equality) auto
    with True lt sec ent show ?thesis by (subst alloc_scan.simps) (auto simp: Let_def)
  next
    case False
    have u: "u32 (c + 1) = c + 1"
      using lt assms(1) by (simp add: vol_ok_def fat_entries_def u32_def)
    have step: "alloc_scan s c = alloc_scan s (c + 1)"
      using False sec ent u by (subst alloc_scan.simps) simp
    have eq: "c \<le> d \<and> d < fat_entries s \<and> fat_entry s d = 0 \<longleftrightarrow> c + 1 \<le> d \<and> d < fat_entries s \<and> fat_entry s d = 0" for d
      using False by (cases "d = c") auto
    show ?thesis
      unfolding step eq using Suc.hyps(1) [of "c + 1"] Suc.hyps(2) lt by simp
  qed
qed

text \<open>The table is readable and writable.\<close>

definition fat_dev_ok :: "fat32 \<Rightarrow> bool" where
  "fat_dev_ok s \<longleftrightarrow> (\<forall>x. fat_start_sector s \<le> x \<and> x < data_start_sector s \<longrightarrow> rd_ok s x \<and> wr_ok s x)"

lemma fat_dev_okD:
  assumes "vol_ok s" and "fat_dev_ok s" and "c < fat_entries s"
  shows "rd_ok s (fat_sector s c)" and "wr_ok s (fat_sector s c)"
proof -
  have "fat_start_sector s \<le> fat_sector s c" "fat_sector s c < data_start_sector s"
    using assms(3) fat_sector_eq(1) [OF assms(1), of c] fat_sector_range [OF assms(1), of c] by simp_all
  with assms(2) show "rd_ok s (fat_sector s c)" "wr_ok s (fat_sector s c)"
    unfolding fat_dev_ok_def by blast+
qed

text \<open>The table entries that are free, and what a change of the table keeps.\<close>

definition free_entry :: "fat32 \<Rightarrow> nat \<Rightarrow> bool" where
  "free_entry s d \<longleftrightarrow> 2 \<le> d \<and> d < fat_entries s \<and> fat_entry s d = 0"

definition fat_only :: "fat32 \<Rightarrow> fat32 \<Rightarrow> bool" where
  "fat_only s s' \<longleftrightarrow> s' = s\<lparr>disk := disk s'\<rparr> \<and>
     (\<forall>x. x < fat_start_sector s \<or> data_start_sector s \<le> x \<longrightarrow> disk s' x = disk s x)"

lemma fat_only_refl: "fat_only s s"
  by (simp add: fat_only_def)

lemma fat_only_fields:
  assumes "fat_only s s'"
  shows "fat_start_sector s' = fat_start_sector s" "data_start_sector s' = data_start_sector s"
    "sectors_per_cluster s' = sectors_per_cluster s" "rd_ok s' = rd_ok s" "wr_ok s' = wr_ok s"
    "fat_entries s' = fat_entries s" "vol_ok s' = vol_ok s" "fat_dev_ok s' = fat_dev_ok s" "dev_ok s' = dev_ok s"
    "cluster_to_sector s' c = cluster_to_sector s c"
proof -
  obtain d where "s' = s\<lparr>disk := d\<rparr>" using assms by (metis fat_only_def)
  then show "fat_start_sector s' = fat_start_sector s" "data_start_sector s' = data_start_sector s"
    "sectors_per_cluster s' = sectors_per_cluster s" "rd_ok s' = rd_ok s" "wr_ok s' = wr_ok s"
    "fat_entries s' = fat_entries s" "vol_ok s' = vol_ok s" "fat_dev_ok s' = fat_dev_ok s" "dev_ok s' = dev_ok s"
    "cluster_to_sector s' c = cluster_to_sector s c"
    by (simp_all add: fat_entries_def vol_ok_def fat_dev_ok_def dev_ok_def cluster_to_sector_def)
qed

lemma fat_only_trans:
  assumes "fat_only s s1" and "fat_only s1 s2"
  shows "fat_only s s2"
proof -
  obtain d e where "s1 = s\<lparr>disk := d\<rparr>" "s2 = s1\<lparr>disk := e\<rparr>" using assms by (metis fat_only_def)
  with assms show ?thesis by (auto simp: fat_only_def)
qed

text \<open>A write of one entry, in this vocabulary.\<close>

lemma fat_write_ok:
  assumes "vol_ok s" and "fat_dev_ok s" and "c < fat_entries s" and "v < 2 ^ 28"
  obtains s' where "fat_write s c v = (s', True)" and "fat_only s s'"
    and "\<And>d. fat_entry s' d = (if d = c then v else fat_entry s d)"
proof -
  obtain s' where s': "fat_write s c v = (s', True)" "fat_entry s' c = v"
    "\<forall>d. d \<noteq> c \<longrightarrow> fat_entry s' d = fat_entry s d"
    "\<forall>x. x < fat_start_sector s \<or> data_start_sector s \<le> x \<longrightarrow> disk s' x = disk s x" "\<exists>d. s' = s\<lparr>disk := d\<rparr>"
    using fat_write_law [OF assms(1,3) fat_dev_okD [OF assms(1-3)] assms(4)] by metis
  have "fat_only s s'" using s'(4,5) by (auto simp: fat_only_def)
  with s'(1-3) show thesis by (intro that [of s']) auto
qed

text \<open>
  The scan for a free cluster ends: it finds the lowest free entry, marks it as the end of a chain
  and touches nothing else, or it finds none and leaves the volume as it is.
\<close>

lemma fat_alloc_law:
  assumes "vol_ok s" and "fat_dev_ok s"
  obtains (found) s' c where "fat_alloc_cluster s = Some (s', c)" and "free_entry s c"
      and "\<And>d. free_entry s d \<Longrightarrow> c \<le> d" and "fat_only s s'"
      and "\<And>d. fat_entry s' d = (if d = c then 0x0FFFFFFF else fat_entry s d)"
  | (full) "fat_alloc_cluster s = Some (s, 0)" and "\<And>d. \<not> free_entry s d"
proof -
  have rd: "\<forall>x. fat_start_sector s \<le> x \<and> x < data_start_sector s \<longrightarrow> rd_ok s x"
    using assms(2) by (simp add: fat_dev_ok_def)
  have two: "2 \<le> fat_entries s" using assms(1) unfolding vol_ok_def fat_entries_def by linarith
  have scan: "fat_alloc_cluster s =
      (if \<exists>d. free_entry s d
       then (let d = LEAST d. free_entry s d; (s1, ok) = fat_write s d 0x0FFFFFFF in Some (s1, if ok then d else 0))
       else Some (s, 0))"
    using alloc_scan_law [OF assms(1) rd two] by (simp only: fat_alloc_cluster_def free_entry_def)
  show thesis
  proof (cases "\<exists>d. free_entry s d")
    case True
    define c where "c = (LEAST d. free_entry s d)"
    have c: "free_entry s c" "\<And>d. free_entry s d \<Longrightarrow> c \<le> d"
      using True LeastI_ex [of "free_entry s"] by (auto simp: c_def intro: Least_le)
    then have "c < fat_entries s" by (simp add: free_entry_def)
    then obtain s' where s': "fat_write s c 0x0FFFFFFF = (s', True)" "fat_only s s'"
      "\<And>d. fat_entry s' d = (if d = c then 0x0FFFFFFF else fat_entry s d)"
      using fat_write_ok [OF assms, of c "0x0FFFFFFF"] by force
    have "fat_alloc_cluster s = Some (s', c)"
      using True s'(1) scan by (simp add: c_def [symmetric])
    then show thesis using found c s'(2,3) by blast
  next
    case False
    then show thesis using scan full by simp
  qed
qed

section \<open>Files as byte sequences\<close>

text \<open>
  A file is a list of distinct clusters linked by the allocation table; its sectors are numbered
  through, and byte \<open>i\<close> is byte \<open>i mod 512\<close> of sector \<open>i div 512\<close>.
\<close>

definition file_chain :: "fat32 \<Rightarrow> nat list \<Rightarrow> bool" where
  "file_chain s cs \<longleftrightarrow> distinct cs \<and> cs \<noteq> [] \<and>
     (\<forall>c \<in> set cs. 2 \<le> c \<and> c < fat_entries s \<and> c < FAT32_EOC) \<and>
     (\<forall>i. Suc i < length cs \<longrightarrow> fat_entry s (cs ! i) = cs ! Suc i) \<and> FAT32_EOC \<le> fat_entry s (last cs)"

definition file_sector :: "fat32 \<Rightarrow> nat list \<Rightarrow> nat \<Rightarrow> nat" where
  "file_sector s cs j =
     data_start_sector s + (cs ! (j div sectors_per_cluster s) - 2) * sectors_per_cluster s + j mod sectors_per_cluster s"

definition file_sectors :: "fat32 \<Rightarrow> nat list \<Rightarrow> nat set" where
  "file_sectors s cs = file_sector s cs ` {..<length cs * sectors_per_cluster s}"

definition file_byte :: "fat32 \<Rightarrow> nat list \<Rightarrow> nat \<Rightarrow> 8 word" where
  "file_byte s cs i = disk s (file_sector s cs (i div 512)) (i mod 512)"

definition capacity :: "fat32 \<Rightarrow> nat list \<Rightarrow> nat" where
  "capacity s cs = length cs * (sectors_per_cluster s * 512)"

lemma cluster_to_sector_eq:
  assumes "vol_ok s" and "2 \<le> c" and "c < fat_entries s"
  shows "cluster_to_sector s c = data_start_sector s + (c - 2) * sectors_per_cluster s"
    and "cluster_to_sector s c + sectors_per_cluster s < 2 ^ 32"
proof -
  have "Suc (c - 2) \<le> fat_entries s" using assms(2,3) by linarith
  then have m: "(c - 2) * sectors_per_cluster s + sectors_per_cluster s \<le> fat_entries s * sectors_per_cluster s"
    using mult_le_mono1 [of "Suc (c - 2)" "fat_entries s" "sectors_per_cluster s"] by simp
  have "fat_entries s * 1 \<le> fat_entries s * sectors_per_cluster s"
    using assms(1) by (intro mult_le_mono2) (simp add: vol_ok_def)
  then have "c < 2 ^ 32" using assms(1,3) unfolding vol_ok_def by linarith
  then have "u32 (c + 2 ^ 32 - 2) = c - 2"
    using assms(2) mod_add_self2 [of "c - 2" "2 ^ 32"] by (simp add: u32_def)
  moreover have "data_start_sector s + (c - 2) * sectors_per_cluster s + sectors_per_cluster s < 2 ^ 32"
    using m assms(1) unfolding vol_ok_def by linarith
  ultimately show "cluster_to_sector s c = data_start_sector s + (c - 2) * sectors_per_cluster s"
    "cluster_to_sector s c + sectors_per_cluster s < 2 ^ 32"
    by (simp_all add: cluster_to_sector_def u32_def)
qed

lemma file_sector_inj:
  assumes "file_chain s cs" and "0 < sectors_per_cluster s"
    and "i < length cs * sectors_per_cluster s" and "j < length cs * sectors_per_cluster s"
    and "file_sector s cs i = file_sector s cs j"
  shows "i = j"
proof -
  let ?n = "sectors_per_cluster s"
  have l: "i div ?n < length cs" "j div ?n < length cs"
    using assms(2-4) by (simp_all add: div_less_iff_less_mult)
  have split: "a = c \<and> b = d" if "a * n + b = c * n + d" "b < n" "d < n" for a b c d n :: nat
  proof -
    have "(a * n + b) div n = a" "(c * n + d) div n = c" using that(2,3) by simp_all
    then have "a = c" using that(1) by metis
    then show ?thesis using that(1) by simp
  qed
  have "cs ! (i div ?n) - 2 = cs ! (j div ?n) - 2 \<and> i mod ?n = j mod ?n"
    by (rule split [OF _ mod_less_divisor mod_less_divisor, OF _ assms(2) assms(2)])
      (use assms(5) in \<open>simp add: file_sector_def\<close>)
  moreover have "2 \<le> cs ! (i div ?n)" "2 \<le> cs ! (j div ?n)" using assms(1) l by (simp_all add: file_chain_def)
  ultimately have "cs ! (i div ?n) = cs ! (j div ?n)" "i mod ?n = j mod ?n" by auto
  with assms(1) l show ?thesis by (metis div_mult_mod_eq file_chain_def nth_eq_iff_index_eq)
qed

text \<open>What a write of \<open>xs\<close> at offset \<open>off\<close> does to the volume.\<close>

definition wrote :: "fat32 \<Rightarrow> fat32 \<Rightarrow> nat list \<Rightarrow> nat \<Rightarrow> 8 word list \<Rightarrow> bool" where
  "wrote s s' cs off xs \<longleftrightarrow> s' = s\<lparr>disk := disk s'\<rparr> \<and>
     (\<forall>x. x \<notin> file_sectors s cs \<longrightarrow> disk s' x = disk s x) \<and>
     (\<forall>i < capacity s cs. file_byte s' cs i =
        (if off \<le> i \<and> i < off + length xs then xs ! (i - off) else file_byte s cs i))"

lemma disk_update_fields:
  assumes "s' = s\<lparr>disk := disk s'\<rparr>"
  shows "vol_ok s' = vol_ok s" "dev_ok s' = dev_ok s" "file_sectors s' cs = file_sectors s cs" "capacity s' cs = capacity s cs"
    "file_sector s' cs j = file_sector s cs j" "sectors_per_cluster s' = sectors_per_cluster s"
    "cluster_to_sector s' c = cluster_to_sector s c" "fat_entries s' = fat_entries s"
    "fat_start_sector s' = fat_start_sector s" "data_start_sector s' = data_start_sector s"
proof -
  obtain d where "s' = s\<lparr>disk := d\<rparr>" using assms by metis
  then show "vol_ok s' = vol_ok s" "dev_ok s' = dev_ok s" "file_sectors s' cs = file_sectors s cs" "capacity s' cs = capacity s cs"
    "file_sector s' cs j = file_sector s cs j" "sectors_per_cluster s' = sectors_per_cluster s"
    "cluster_to_sector s' c = cluster_to_sector s c" "fat_entries s' = fat_entries s"
    "fat_start_sector s' = fat_start_sector s" "data_start_sector s' = data_start_sector s"
    by (simp_all add: vol_ok_def fat_entries_def dev_ok_def file_sectors_def file_sector_def [abs_def] capacity_def
        cluster_to_sector_def)
qed

lemma wrote_refl: "wrote s s cs off []"
  by (auto simp: wrote_def)

lemma wrote_trans:
  assumes "wrote s s1 cs off xs" and "wrote s1 s2 cs (off + length xs) ys"
  shows "wrote s s2 cs off (xs @ ys)"
proof -
  have u: "s1 = s\<lparr>disk := disk s1\<rparr>" "s2 = s1\<lparr>disk := disk s2\<rparr>" using assms by (simp_all add: wrote_def)
  note f = disk_update_fields [OF u(1)]
  have "s2 = s\<lparr>disk := disk s2\<rparr>" using u by (metis fat32.surjective fat32.update_convs(6))
  moreover have "file_byte s2 cs i = (if off \<le> i \<and> i < off + length (xs @ ys) then (xs @ ys) ! (i - off) else file_byte s cs i)"
    if "i < capacity s cs" for i
    using assms that unfolding wrote_def f by (auto simp: nth_append)
  ultimately show ?thesis using assms unfolding wrote_def f by auto
qed

text \<open>The table and thus the chain are outside the sectors of a file.\<close>

lemma file_chain_wrote:
  assumes "vol_ok s" and "wrote s s' cs off xs" and "file_chain s ds"
  shows "file_chain s' ds"
proof -
  have u: "s' = s\<lparr>disk := disk s'\<rparr>" using assms(2) by (simp add: wrote_def)
  have "fat_entry s' c = fat_entry s c" if "c < fat_entries s" for c
  proof -
    have "fat_start_sector s + c div 128 < data_start_sector s"
      using that assms(1) fat_sector_range [OF assms(1), of c] fat_sector_eq(1) [OF assms(1), of c] by simp
    then have "fat_start_sector s + c div 128 \<notin> file_sectors s cs" by (auto simp: file_sectors_def file_sector_def)
    with assms(2) show ?thesis by (simp add: wrote_def fat_entry_def disk_update_fields [OF u])
  qed
  moreover have "last ds \<in> set ds" "\<And>i. Suc i < length ds \<Longrightarrow> ds ! i \<in> set ds"
    using assms(3) by (auto simp: file_chain_def)
  ultimately show ?thesis using assms(3) by (simp add: file_chain_def disk_update_fields [OF u])
qed

text \<open>One sector written.\<close>

lemma sector_wrote:
  assumes "vol_ok s" and "file_chain s cs" and "J < length cs * sectors_per_cluster s" and "o' + length xs \<le> 512"
    and "s' = s\<lparr>disk := (disk s)(file_sector s cs J := b)\<rparr>"
    and "\<And>i. i < 512 \<Longrightarrow> b i = (if o' \<le> i \<and> i < o' + length xs then xs ! (i - o') else disk s (file_sector s cs J) i)"
  shows "wrote s s' cs (J * 512 + o') xs"
proof -
  have u: "s' = s\<lparr>disk := disk s'\<rparr>" using assms(5) by simp
  have "file_byte s' cs i = (if J * 512 + o' \<le> i \<and> i < J * 512 + o' + length xs then xs ! (i - (J * 512 + o')) else file_byte s cs i)"
    if "i < capacity s cs" for i
  proof (cases "i div 512 = J")
    case True
    define m where "m = i mod 512"
    have i: "i = J * 512 + m" "m < 512" using True div_mult_mod_eq [of i 512] by (simp_all add: m_def)
    have "file_byte s' cs i = b m"
      unfolding file_byte_def disk_update_fields [OF u] True m_def using assms(5) by simp
    also have "\<dots> = (if o' \<le> m \<and> m < o' + length xs then xs ! (m - o') else file_byte s cs i)"
      using assms(6) [OF i(2)] True by (simp add: file_byte_def m_def)
    finally show ?thesis by (simp add: i(1))
  next
    case False
    have "i div 512 < length cs * sectors_per_cluster s"
      using that by (simp add: capacity_def div_less_iff_less_mult mult.assoc)
    with False have "file_sector s cs (i div 512) \<noteq> file_sector s cs J"
      using file_sector_inj [OF assms(2) _ _ assms(3), of "i div 512"] assms(1) by (auto simp: vol_ok_def)
    then have "file_byte s' cs i = file_byte s cs i"
      unfolding file_byte_def disk_update_fields [OF u] using assms(5) by simp
    moreover have "\<not> (J * 512 + o' \<le> i \<and> i < J * 512 + o' + length xs)"
    proof
      assume "J * 512 + o' \<le> i \<and> i < J * 512 + o' + length xs"
      then have "J * 512 \<le> i" "i < J * 512 + 512" using assms(4) by linarith+
      then have "i div 512 = J" by (intro div_nat_eqI) simp_all
      with False show False by simp
    qed
    ultimately show ?thesis by auto
  qed
  moreover have "file_sector s cs J \<in> file_sectors s cs" using assms(3) by (simp add: file_sectors_def)
  ultimately show ?thesis using assms(5) by (auto simp: wrote_def)
qed

lemma file_sector_cluster:
  assumes "vol_ok s" and "file_chain s cs" and "ci < length cs" and "inner < sectors_per_cluster s * 512"
  shows "u32 (cluster_to_sector s (cs ! ci) + inner div 512) = file_sector s cs (ci * sectors_per_cluster s + inner div 512)"
    and "ci * sectors_per_cluster s + inner div 512 < length cs * sectors_per_cluster s"
proof -
  let ?n = "sectors_per_cluster s"
  have k: "inner div 512 < ?n" using assms(4) by (simp add: div_less_iff_less_mult)
  have c: "2 \<le> cs ! ci" "cs ! ci < fat_entries s" using assms(2,3) by (simp_all add: file_chain_def)
  have "(ci * ?n + inner div 512) div ?n = ci" "(ci * ?n + inner div 512) mod ?n = inner div 512" using k by simp_all
  then show "u32 (cluster_to_sector s (cs ! ci) + inner div 512) = file_sector s cs (ci * ?n + inner div 512)"
    using cluster_to_sector_eq [OF assms(1) c] k by (simp add: file_sector_def u32_def)
  have "Suc ci * ?n \<le> length cs * ?n" using assms(3) by (intro mult_le_mono1) simp
  then show "ci * ?n + inner div 512 < length cs * ?n" using k by simp
qed

lemma write_inner_law:
  assumes "vol_ok s" and "dev_ok s" and "file_chain s cs" and "ci < length cs" and "inner \<le> sectors_per_cluster s * 512"
    and "offset + length src < 2 ^ 32"
  shows "\<exists>s'. write_inner s (cluster_to_sector s (cs ! ci)) inner offset src =
      (s', offset + min (length src) (sectors_per_cluster s * 512 - inner), drop (sectors_per_cluster s * 512 - inner) src, True) \<and>
      wrote s s' cs (ci * (sectors_per_cluster s * 512) + inner) (take (sectors_per_cluster s * 512 - inner) src)"
  using assms
proof (induction "length src" arbitrary: s inner offset src rule: less_induct)
  case less
  define n where "n = sectors_per_cluster s * 512"
  have bpc: "u32 (sectors_per_cluster s * SECTOR) = n"
    using less.prems(1) by (simp add: vol_ok_def n_def SECTOR_def u32_def)
  show ?case
  proof (cases "inner < n \<and> src \<noteq> []")
    case False
    then have e: "take (n - inner) src = []" "drop (n - inner) src = src" "min (length src) (n - inner) = 0"
      using less.prems(5) by (auto simp: n_def)
    have "write_inner s (cluster_to_sector s (cs ! ci)) inner offset src = (s, offset, src, True)"
      by (subst write_inner.simps) (simp only: bpc False if_False)
    then show ?thesis unfolding n_def [symmetric] e by (simp add: wrote_refl)
  next
    case True
    let ?J = "ci * sectors_per_cluster s + inner div 512"
    define o' where "o' = inner mod 512"
    define chunk where "chunk = min (512 - o') (length src)"
    define b where "b = put_bytes (if o' = 0 \<and> chunk = 512 then \<lambda>_. 0 else disk s (file_sector s cs ?J)) o' (take chunk src)"
    define s1 where "s1 = s\<lparr>disk := (disk s)(file_sector s cs ?J := b)\<rparr>"
    have o': "o' < 512" by (simp add: o'_def)
    have chunk: "0 < chunk" "chunk \<le> 512 - o'" "chunk \<le> length src" using True o' by (simp_all add: chunk_def)
    note J = file_sector_cluster [OF less.prems(1,3,4), of inner]
    have pos: "?J * 512 + o' = ci * n + inner"
      unfolding n_def o'_def by (simp add: add_mult_distrib div_mult_mod_eq mult.assoc)
    have "wrote s s1 cs (?J * 512 + o') (take chunk src)"
      by (rule sector_wrote [OF less.prems(1,3) _ _ s1_def])
        (use J True chunk o' in \<open>auto simp: n_def b_def put_bytes_def\<close>)
    then have w1: "wrote s s1 cs (ci * n + inner) (take chunk src)" unfolding pos .
    then have u: "s1 = s\<lparr>disk := disk s1\<rparr>" by (simp add: wrote_def)
    have run: "write_inner s (cluster_to_sector s (cs ! ci)) inner offset src =
        write_inner s1 (cluster_to_sector s1 (cs ! ci)) (inner + chunk) (offset + chunk) (drop chunk src)"
      using True less.prems(2,6) J chunk bpc unfolding disk_update_fields [OF u]
      by (subst write_inner.simps)
        (simp add: dev_ok_def SECTOR_def o'_def [symmetric] chunk_def [symmetric] b_def [symmetric] blk_write_def
          s1_def [symmetric] u32_def n_def Let_def)
    have le: "inner + chunk \<le> n"
    proof -
      have "inner div 512 < sectors_per_cluster s" using True by (simp add: n_def div_less_iff_less_mult)
      then have "inner div 512 * 512 + 512 \<le> n"
        using mult_le_mono1 [of "Suc (inner div 512)" "sectors_per_cluster s" 512] by (simp add: n_def)
      then show ?thesis using chunk(2) o' div_mult_mod_eq [of inner 512, folded o'_def] by linarith
    qed
    have "\<exists>s'. write_inner s1 (cluster_to_sector s1 (cs ! ci)) (inner + chunk) (offset + chunk) (drop chunk src) =
        (s', offset + chunk + min (length (drop chunk src)) (n - (inner + chunk)), drop (n - (inner + chunk)) (drop chunk src), True) \<and>
        wrote s1 s' cs (ci * n + (inner + chunk)) (take (n - (inner + chunk)) (drop chunk src))"
      using less.hyps [of "drop chunk src" s1 "inner + chunk" "offset + chunk"] less.prems chunk True le
        file_chain_wrote [OF less.prems(1) w1 less.prems(3)]
      by (simp add: disk_update_fields [OF u] n_def)
    then obtain s2 where s2: "write_inner s1 (cluster_to_sector s1 (cs ! ci)) (inner + chunk) (offset + chunk) (drop chunk src) =
        (s2, offset + chunk + min (length (drop chunk src)) (n - (inner + chunk)), drop (n - (inner + chunk)) (drop chunk src), True)"
      "wrote s1 s2 cs (ci * n + (inner + chunk)) (take (n - (inner + chunk)) (drop chunk src))" by blast
    have split: "take (n - inner) src = take chunk src @ take (n - (inner + chunk)) (drop chunk src)"
      "drop (n - (inner + chunk)) (drop chunk src) = drop (n - inner) src"
      "offset + chunk + min (length (drop chunk src)) (n - (inner + chunk)) = offset + min (length src) (n - inner)"
      using le chunk(3) by (simp_all add: take_add [symmetric])
    have "wrote s s2 cs (ci * n + inner) (take (n - inner) src)"
      unfolding split(1) using wrote_trans [OF w1] s2(2) chunk(3) by (simp add: add.assoc)
    then show ?thesis unfolding n_def [symmetric] run s2(1) split(2,3) by blast
  qed
qed

lemma file_chain_next:
  assumes "vol_ok s" and "dev_ok s" and "file_chain s cs" and "i < length cs"
  shows "fat_next s (cs ! i) = (if Suc i < length cs then cs ! Suc i else fat_entry s (last cs))"
    and "cs ! i < FAT32_EOC"
proof -
  have c: "cs ! i < fat_entries s" "cs ! i < FAT32_EOC" using assms(3,4) by (simp_all add: file_chain_def)
  then show "cs ! i < FAT32_EOC" by simp
  have n: "fat_next s (cs ! i) = fat_entry s (cs ! i)"
    using fat_next_eq [OF assms(1) c(1)] assms(2) by (simp add: dev_ok_def)
  show "fat_next s (cs ! i) = (if Suc i < length cs then cs ! Suc i else fat_entry s (last cs))"
  proof (cases "Suc i < length cs")
    case True
    then show ?thesis using n assms(3) by (simp add: file_chain_def)
  next
    case False
    then have "i = length cs - 1" using assms(4) by simp
    then show ?thesis using n False assms(3) by (simp add: file_chain_def last_conv_nth)
  qed
qed

lemma seek_steps_law:
  assumes "vol_ok s" and "dev_ok s" and "file_chain s cs" and "i + n < length cs"
  shows "seek_steps s (cs ! i) n create = Some (s, Some (cs ! (i + n)))"
  using assms(4)
proof (induction n arbitrary: i)
  case (Suc n)
  have "fat_next s (cs ! i) = cs ! Suc i" "cs ! Suc i < FAT32_EOC"
    using file_chain_next [OF assms(1-3), of i] file_chain_next(2) [OF assms(1-3), of "Suc i"] Suc.prems by simp_all
  then show ?case using Suc by simp
qed simp

lemma write_loop_law:
  assumes "vol_ok s" and "dev_ok s" and "file_chain s cs" and "offset + length src \<le> capacity s cs"
    and "offset + length src < 2 ^ 32"
  shows "\<exists>s'. write_loop s (hd cs) offset src = Some (s', offset + length src, True) \<and> wrote s s' cs offset src"
  using assms
proof (induction "length src" arbitrary: s offset src rule: less_induct)
  case less
  define n where "n = sectors_per_cluster s * 512"
  have n: "0 < n" "u32 (sectors_per_cluster s * SECTOR) = n"
    using less.prems(1) by (simp_all add: vol_ok_def n_def SECTOR_def u32_def)
  show ?case
  proof (cases "src = []")
    case True
    then show ?thesis by (subst write_loop.simps) (simp add: wrote_refl)
  next
    case False
    let ?ci = "offset div n" and ?in = "offset mod n"
    have ci: "?ci < length cs"
      using False less.prems(4) n(1) by (auto simp: capacity_def n_def [symmetric] div_less_iff_less_mult length_greater_0_conv [symmetric] simp del: length_greater_0_conv)
    have hd: "hd cs = cs ! 0" using less.prems(3) by (simp add: file_chain_def hd_conv_nth)
    have seek: "fat_seek_cluster s (hd cs) offset True = Some (s, Some (cs ! ?ci, ?in))"
      using seek_steps_law [OF less.prems(1-3), of 0 ?ci] ci n(2) by (simp add: fat_seek_cluster_def hd)
    have inn: "?in < n" using n(1) by simp
    obtain s1 where s1: "write_inner s (cluster_to_sector s (cs ! ?ci)) ?in offset src =
        (s1, offset + min (length src) (n - ?in), drop (n - ?in) src, True)" "wrote s s1 cs offset (take (n - ?in) src)"
      using write_inner_law [OF less.prems(1-3) ci, of ?in] inn less.prems(5) unfolding n_def [symmetric] by force
    have u: "s1 = s\<lparr>disk := disk s1\<rparr>" using s1(2) by (simp add: wrote_def)
    have "\<exists>s2. write_loop s1 (hd cs) (offset + min (length src) (n - ?in)) (drop (n - ?in) src) = Some (s2, offset + length src, True) \<and>
        wrote s1 s2 cs (offset + min (length src) (n - ?in)) (drop (n - ?in) src)"
    proof -
      have e: "offset + min (length src) (n - ?in) + length (drop (n - ?in) src) = offset + length src" by simp
      have l: "length (drop (n - ?in) src) < length src"
        using False inn unfolding length_drop length_greater_0_conv [symmetric] by linarith
      show ?thesis
        using less.hyps [OF l, of s1 "offset + min (length src) (n - ?in)"] less.prems
          file_chain_wrote [OF less.prems(1) s1(2) less.prems(3)]
        unfolding e disk_update_fields [OF u] by blast
    qed
    then obtain s2 where s2: "write_loop s1 (hd cs) (offset + min (length src) (n - ?in)) (drop (n - ?in) src) = Some (s2, offset + length src, True)"
      "wrote s1 s2 cs (offset + min (length src) (n - ?in)) (drop (n - ?in) src)" by blast
    have "wrote s s2 cs offset (take (n - ?in) src @ drop (n - ?in) src)"
      using s2(2) by (intro wrote_trans [OF s1(2)]) simp
    moreover have "write_loop s (hd cs) offset src = Some (s2, offset + length src, True)"
      using False seek s1(1) s2(1) by (subst write_loop.simps) simp
    ultimately show ?thesis by simp
  qed
qed

text \<open>Reading the chain from its head.\<close>

lemma read_sectors_law:
  assumes "vol_ok s" and "dev_ok s" and "file_chain s cs" and "ci < length cs" and "k \<le> sectors_per_cluster s"
  shows "read_sectors s (cluster_to_sector s (cs ! ci)) remaining out [k..<sectors_per_cluster s] =
    (remaining - (sectors_per_cluster s - k) * 512,
     out @ map (file_byte s cs) [(ci * sectors_per_cluster s + k) * 512..<(ci * sectors_per_cluster s + k) * 512 + min remaining ((sectors_per_cluster s - k) * 512)], True)"
  using assms(5)
proof (induction "sectors_per_cluster s - k" arbitrary: k remaining out)
  case 0
  then show ?case by simp
next
  case (Suc n)
  then have k: "k < sectors_per_cluster s" by simp
  have up: "[k..<sectors_per_cluster s] = k # [Suc k..<sectors_per_cluster s]" using k by (simp add: upt_conv_Cons)
  show ?case
  proof (cases "remaining = 0")
    case True
    then show ?thesis unfolding up by simp
  next
    case False
    let ?J = "ci * sectors_per_cluster s + k"
    have J: "u32 (cluster_to_sector s (cs ! ci) + k) = file_sector s cs ?J"
      using file_sector_cluster(1) [OF assms(1,3,4), of "k * 512"] k by simp
    have bytes: "map (disk s (file_sector s cs J)) [0..<m] = map (file_byte s cs) [J * 512..<J * 512 + m]" if "m \<le> 512" for m J
      using that by (intro nth_equalityI) (auto simp: file_byte_def)
    define m where "m = min remaining 512"
    have m: "m \<le> 512" "m \<le> remaining" by (simp_all add: m_def)
    have "read_sectors s (cluster_to_sector s (cs ! ci)) remaining out [k..<sectors_per_cluster s] =
        read_sectors s (cluster_to_sector s (cs ! ci)) (remaining - m) (out @ map (file_byte s cs) [?J * 512..<?J * 512 + m]) [Suc k..<sectors_per_cluster s]"
      unfolding up using False assms(2) J bytes [OF m(1), of ?J] by (simp add: dev_ok_def SECTOR_def m_def [symmetric])
    also have "\<dots> = (remaining - m - (sectors_per_cluster s - Suc k) * 512,
       (out @ map (file_byte s cs) [?J * 512..<?J * 512 + m]) @ map (file_byte s cs)
         [(ci * sectors_per_cluster s + Suc k) * 512..<(ci * sectors_per_cluster s + Suc k) * 512 + min (remaining - m) ((sectors_per_cluster s - Suc k) * 512)], True)"
      using Suc.hyps(1) [of "Suc k"] Suc.hyps(2) k by simp
    also have "\<dots> = (remaining - (sectors_per_cluster s - k) * 512,
       out @ map (file_byte s cs) [?J * 512..<?J * 512 + min remaining ((sectors_per_cluster s - k) * 512)], True)"
    proof (cases "remaining \<le> 512")
      case True
      then have "m = remaining" "min remaining ((sectors_per_cluster s - k) * 512) = remaining" "remaining \<le> (sectors_per_cluster s - k) * 512"
        using k by (simp_all add: m_def)
      then show ?thesis by simp
    next
      case False
      define r where "r = min (remaining - 512) ((sectors_per_cluster s - Suc k) * 512)"
      have m512: "m = 512" and q: "(sectors_per_cluster s - k) * 512 = 512 + (sectors_per_cluster s - Suc k) * 512"
        using False k by (simp_all add: m_def diff_mult_distrib)
      have r: "min remaining (512 + (sectors_per_cluster s - Suc k) * 512) = 512 + r" using False by (simp add: r_def)
      have J': "(ci * sectors_per_cluster s + Suc k) * 512 = ?J * 512 + 512" by simp
      have up': "[a..<a + (512 + r)] = [a..<a + 512] @ [a + 512..<a + 512 + r]" for a
        using upt_add_eq_append [of a "a + 512" r] by (simp add: add.assoc)
      show ?thesis unfolding m512 J' q r up' r_def [symmetric] map_append append_assoc by simp
    qed
    finally show ?thesis .
  qed
qed

lemma read_clusters_law:
  assumes "vol_ok s" and "dev_ok s" and "file_chain s cs" and "ci < length cs"
    and "ci * (sectors_per_cluster s * 512) + remaining \<le> capacity s cs"
  shows "read_clusters s (cs ! ci) remaining out =
    Some (0, out @ map (file_byte s cs) [ci * (sectors_per_cluster s * 512)..<ci * (sectors_per_cluster s * 512) + remaining], True)"
  using assms(4,5)
proof (induction "length cs - ci" arbitrary: ci remaining out)
  case (Suc n)
  define b where "b = sectors_per_cluster s * 512"
  have b: "(ci * sectors_per_cluster s + 0) * 512 = ci * b" "(sectors_per_cluster s - 0) * 512 = b"
    by (simp_all add: b_def mult.assoc)
  note sectors = read_sectors_law [OF assms(1-3) Suc.prems(1), of 0 remaining out, unfolded b, simplified]
  note nxt = file_chain_next [OF assms(1-3) Suc.prems(1)]
  show ?case
  proof (cases "remaining \<le> b")
    case True
    have stop: "read_clusters s c 0 out' = Some (0, out', True)" for c out' by (subst read_clusters.simps) simp
    show ?thesis
      using True sectors nxt(2) by (subst read_clusters.simps) (auto simp: stop b_def [symmetric] min_def)
  next
    case False
    have "ci * b + remaining \<le> length cs * b" using Suc.prems(2) by (simp add: capacity_def b_def)
    then have "ci * b + b < length cs * b" using False by linarith
    then have "Suc ci * b < length cs * b" by simp
    then have lt: "Suc ci < length cs" using mult_less_cancel2 by blast
    have "read_clusters s (cs ! ci) remaining out = read_clusters s (cs ! Suc ci) (remaining - b) (out @ map (file_byte s cs) [ci * b..<ci * b + b])"
      using False sectors nxt lt by (subst read_clusters.simps) (simp add: b_def [symmetric] min_def)
    also have "\<dots> = Some (0, (out @ map (file_byte s cs) [ci * b..<ci * b + b]) @ map (file_byte s cs) [Suc ci * b..<Suc ci * b + (remaining - b)], True)"
      using Suc.hyps(1) [of "Suc ci" "remaining - b"] Suc.hyps(2) Suc.prems lt False unfolding b_def [symmetric] by simp
    also have "\<dots> = Some (0, out @ map (file_byte s cs) [ci * b..<ci * b + remaining], True)"
      using False upt_add_eq_append [of "ci * b" "ci * b + b" "remaining - b"] by (simp add: add.assoc add.commute [of b])
    finally show ?thesis by (simp add: b_def)
  qed
qed simp

lemma fat32_read_law:
  assumes "vol_ok s" and "dev_ok s" and "file_chain s cs" and "min fsize buf_len \<le> capacity s cs"
    and "min fsize buf_len < 2 ^ 31"
  shows "fat32_read s (hd cs) fsize buf_len =
    Some (map (file_byte s cs) [0..<min fsize buf_len], int (min fsize buf_len))"
proof -
  have "hd cs = cs ! 0" "0 < length cs" using assms(3) by (simp_all add: file_chain_def hd_conv_nth)
  then show ?thesis
    using read_clusters_law [OF assms(1-3), of 0 "min fsize buf_len" "[]"] assms(4,5)
    by (simp add: fat32_read_def Let_def to_int32_def u32_def)
qed

section \<open>Growing a chain\<close>

lemma file_chain_taken:
  assumes "file_chain s cs" and "c \<in> set cs"
  shows "\<not> free_entry s c"
proof -
  obtain i where i: "i < length cs" "c = cs ! i" using assms(2) by (metis in_set_conv_nth)
  show ?thesis
  proof (cases "Suc i < length cs")
    case True
    then have "fat_entry s c = cs ! Suc i" "2 \<le> cs ! Suc i" using i(2) assms(1) by (simp_all add: file_chain_def)
    then show ?thesis by (simp add: free_entry_def)
  next
    case False
    then have "i = length cs - 1" using i(1) by simp
    then have "c = last cs" using i assms(1) by (simp add: file_chain_def last_conv_nth)
    then show ?thesis using assms(1) by (auto simp: file_chain_def free_entry_def FAT32_EOC_def)
  qed
qed

lemma fat_extend_law:
  assumes "vol_ok s" and "fat_dev_ok s" and "file_chain s cs" and "free_entry s d"
  obtains s' c where "fat_extend_chain s (last cs) 1 = Some (s', c)" and "free_entry s c"
    and "file_chain s' (cs @ [c])" and "fat_only s s'"
    and "\<And>x. x \<noteq> last cs \<Longrightarrow> x \<noteq> c \<Longrightarrow> fat_entry s' x = fat_entry s x"
proof (cases rule: fat_alloc_law [OF assms(1,2), case_names found full])
  case (found s1 c)
  note f1 = fat_only_fields [OF found(4)]
  have "c \<notin> set cs" using found(2) file_chain_taken [OF assms(3)] by blast
  then have c: "2 \<le> c" "c < fat_entries s" "c \<notin> set cs" using found(2) by (simp_all add: free_entry_def)
  have bound: "fat_entries s < FAT32_EOC" using assms(1) by (simp add: vol_ok_def fat_entries_def FAT32_EOC_def)
  have l: "last cs \<in> set cs" "last cs < fat_entries s" using assms(3) by (simp_all add: file_chain_def)
  obtain s2 where s2: "fat_write s1 (last cs) c = (s2, True)" "fat_only s1 s2"
    "\<And>x. fat_entry s2 x = (if x = last cs then c else fat_entry s1 x)"
    by (rule fat_write_ok [of s1 "last cs" c]) (use f1 assms(1,2) c l(2) bound in \<open>simp_all add: FAT32_EOC_def\<close>)
  note f2 = fat_only_fields [OF s2(2)]
  obtain s3 where s3: "fat_write s2 c FAT32_EOC = (s3, True)" "fat_only s2 s3"
    "\<And>x. fat_entry s3 x = (if x = c then FAT32_EOC else fat_entry s2 x)"
    by (rule fat_write_ok [of s2 c FAT32_EOC]) (use f1 f2 assms(1,2) c in \<open>simp_all add: FAT32_EOC_def\<close>)
  have keep: "fat_only s s3" using fat_only_trans found(4) s2(2) s3(2) by blast
  have ent: "fat_entry s3 x = (if x = c then FAT32_EOC else if x = last cs then c else fat_entry s x)" for x
    using found(5) s2(3) s3(3) c(3) by simp
  have run: "fat_extend_chain s (last cs) 1 = Some (s3, c)"
    using found(1) s2(1) s3(1) c(1) by (simp add: fat_extend_chain_def numeral_eq_Suc)
  have "fat_entry s3 ((cs @ [c]) ! i) = (cs @ [c]) ! Suc i" if "Suc i < length (cs @ [c])" for i
  proof (cases "Suc i < length cs")
    case True
    then have "cs ! i \<noteq> last cs" "cs ! i \<in> set cs"
      using assms(3) by (auto simp: file_chain_def last_conv_nth nth_eq_iff_index_eq)
    then show ?thesis using True assms(3) c(3) ent by (auto simp: nth_append file_chain_def)
  next
    case False
    then have "i = length cs - 1" "cs \<noteq> []" using that assms(3) by (auto simp: file_chain_def)
    then show ?thesis using ent l(1) c(3) by (auto simp: nth_append last_conv_nth)
  qed
  then have "file_chain s3 (cs @ [c])"
    using assms(3) c bound ent fat_only_fields [OF keep] by (auto simp: file_chain_def)
  then show thesis using that run found(2) keep ent by simp
next
  case full
  then show thesis using assms(4) by blast
qed

section \<open>Names\<close>

lemma unat_of_char: "unat (of_char c :: 8 word) = of_char c"
  using byte_of_nat [of "of_char c"] by (simp add: of_nat_of_char)

lemma upcase_no_space:
  assumes "c \<noteq> CHR '' ''"
  shows "upcase c \<noteq> 0x20"
proof -
  have "(of_char c :: nat) \<noteq> of_char CHR '' ''" using assms of_char_eq_iff by blast
  then have "(of_char c :: 8 word) \<noteq> of_char CHR '' ''" using unat_of_char by metis
  moreover have "of_char CHR '' '' = (0x20 :: 8 word)" by simp
  moreover have "b - 32 \<noteq> 0x20" if "0x61 \<le> b" for b :: "8 word"
  proof
    assume "b - 32 = 0x20"
    then have "b = 0x20 + 32" by (simp only: diff_eq_eq)
    with that show False by simp
  qed
  ultimately show ?thesis by (auto simp: upcase_def Let_def)
qed

text \<open>A name in 8.3 form: neither part has dots or blanks.\<close>

definition short_part :: "nat \<Rightarrow> string \<Rightarrow> bool" where
  "short_part n xs \<longleftrightarrow> 0 < length xs \<and> length xs \<le> n \<and> CHR ''.'' \<notin> set xs \<and> CHR '' '' \<notin> set xs"

lemma pad_part:
  assumes "length xs \<le> n" and "CHR '' '' \<notin> set xs"
  shows "length (pad n (map upcase xs)) = n"
    and "takeWhile (\<lambda>b. b \<noteq> 0x20) (pad n (map upcase xs)) = map upcase xs"
proof -
  show "length (pad n (map upcase xs)) = n" using assms(1) by (simp add: pad_def)
  have "takeWhile (\<lambda>b. b \<noteq> 0x20) (replicate k (0x20 :: 8 word)) = []" for k by (cases k) simp_all
  moreover have "b \<noteq> 0x20" if "b \<in> set (map upcase xs)" for b
  proof -
    from that obtain c where c: "c \<in> set xs" "b = upcase c" unfolding list.set_map by (rule imageE)
    have "c \<noteq> CHR '' ''" using c(1) assms(2) by metis
    then show ?thesis unfolding c(2) by (rule upcase_no_space)
  qed
  ultimately show "takeWhile (\<lambda>b. b \<noteq> 0x20) (pad n (map upcase xs)) = map upcase xs"
    unfolding pad_def by (subst takeWhile_append2) simp_all
qed

lemma to_83_parts:
  assumes "length base \<le> 8" and "CHR ''.'' \<notin> set base" and "length ext \<le> 3"
  shows "to_83 (base @ CHR ''.'' # ext) = pad 8 (map upcase base) @ pad 3 (map upcase ext)"
    and "to_83 base = pad 8 (map upcase base) @ pad 3 []"
proof -
  have nd: "\<forall>c \<in> set base. c \<noteq> CHR ''.''" using assms(2) by auto
  have t: "takeWhile (\<lambda>c. c \<noteq> CHR ''.'') (take 8 (base @ CHR ''.'' # ext)) = base"
  proof (cases "length base = 8")
    case True
    then show ?thesis using nd by (simp add: takeWhile_eq_all_conv)
  next
    case False
    then obtain k where "8 - length base = Suc k" using assms(1) by (metis Suc_diff_Suc le_neq_implies_less)
    then show ?thesis using nd assms(1) by (simp add: takeWhile_append2)
  qed
  show "to_83 (base @ CHR ''.'' # ext) = pad 8 (map upcase base) @ pad 3 (map upcase ext)"
    unfolding to_83_def t Let_def using assms(3) by simp
  have t': "takeWhile (\<lambda>c. c \<noteq> CHR ''.'') (take 8 base) = base"
    using nd assms(1) by (simp add: takeWhile_eq_all_conv)
  show "to_83 base = pad 8 (map upcase base) @ pad 3 []"
    unfolding to_83_def t' Let_def by simp
qed

lemma display_parts:
  assumes "length b = 8" and "length e = 3"
  shows "shortname_to_display (b @ e) =
    takeWhile (\<lambda>x. x \<noteq> 0x20) b @ (if e ! 0 \<noteq> 0x20 then 0x2e # takeWhile (\<lambda>x. x \<noteq> 0x20) e else [])"
  using assms by (simp add: shortname_to_display_def nth_append)

section \<open>A small volume\<close>

text \<open>One table sector, one sector per cluster, and one file on the clusters 2 and 3.\<close>

definition demo_fat :: sector where
  "demo_fat = put32 (put32 (put32 (put32 (\<lambda>_. 0) 0 0x0FFFFFF8) 4 0x0FFFFFFF) 8 3) 12 0x0FFFFFFF"

definition demo_vol :: fat32 where
  "demo_vol = \<lparr>fat_start_sector = 1, data_start_sector = 2, sectors_per_cluster = 1, root_cluster = 2,
     bytes_per_cluster = 512, disk = (\<lambda>_ _. 0)(1 := demo_fat), rd_ok = (\<lambda>_. True), wr_ok = (\<lambda>_. True)\<rparr>"

lemma demo_vol_ok:
  "vol_ok demo_vol" "dev_ok demo_vol" "fat_dev_ok demo_vol" "fat_entries demo_vol = 128" "sectors_per_cluster demo_vol = 1"
  by (simp_all add: vol_ok_def dev_ok_def fat_dev_ok_def fat_entries_def demo_vol_def)

lemma demo_entry: "fat_entry demo_vol 2 = 3" "fat_entry demo_vol 3 = 0x0FFFFFFF" "fat_entry demo_vol 4 = 0"
  by (simp_all add: fat_entry_def demo_vol_def demo_fat_def get32_def get16_def put32_def)

lemma demo_chain: "file_chain demo_vol [2, 3]" "capacity demo_vol [2, 3] = 1024"
  by (simp_all add: file_chain_def demo_entry demo_vol_ok FAT32_EOC_def less_Suc_eq capacity_def)

lemma demo_free: "free_entry demo_vol 4"
  by (simp add: free_entry_def demo_entry demo_vol_ok)

section \<open>Properties\<close>

text \<open>
  C35. The search for a free cluster always returns on a well-formed volume whose table can be read and
  written. It returns the lowest free entry, now marked as the end of a chain, with all other entries
  and everything outside the table unchanged; or 0 and the unchanged volume when no entry is free.
\<close>

theorem fat_alloc_cluster_returns:
  assumes "vol_ok s" and "fat_dev_ok s"
  shows "\<exists>s' c. fat_alloc_cluster s = Some (s', c) \<and> fat_only s s' \<and>
    (if \<exists>d. free_entry s d
     then free_entry s c \<and> (\<forall>d. free_entry s d \<longrightarrow> c \<le> d) \<and>
          (\<forall>d. fat_entry s' d = (if d = c then 0x0FFFFFFF else fat_entry s d))
     else c = 0 \<and> s' = s)"
proof (cases rule: fat_alloc_law [OF assms, case_names found full])
  case (found s' c)
  then show ?thesis by (intro exI [of _ s'] exI [of _ c]) auto
next
  case full
  then show ?thesis by (simp add: fat_only_refl)
qed

theorem fat_alloc_cluster_returns_witness:
  "\<exists>s' c. fat_alloc_cluster demo_vol = Some (s', c) \<and> fat_only demo_vol s' \<and> free_entry demo_vol c \<and> c \<le> 4 \<and>
     fat_entry s' c = 0x0FFFFFFF \<and> fat_entry s' 2 = 3"
proof -
  have ex: "\<exists>d. free_entry demo_vol d" using demo_free by blast
  obtain s' c where r: "fat_alloc_cluster demo_vol = Some (s', c)" "fat_only demo_vol s'" "free_entry demo_vol c"
    "\<forall>d. free_entry demo_vol d \<longrightarrow> c \<le> d" "\<forall>d. fat_entry s' d = (if d = c then 0x0FFFFFFF else fat_entry demo_vol d)"
    using fat_alloc_cluster_returns [OF demo_vol_ok(1,3)] ex by auto
  moreover have "c \<noteq> 2" using r(3) demo_entry by (auto simp: free_entry_def)
  ultimately show ?thesis using demo_free demo_entry by auto
qed

text \<open>
  C36. Extending a file by one cluster, when the table has a free entry, links a free cluster to the end of
  the chain: the chain of the file is the old one with the new cluster after it, and no other entry of
  the table and nothing outside the table changes.
\<close>

theorem fat_extend_chain_appends:
  assumes "vol_ok s" and "fat_dev_ok s" and "file_chain s cs" and "free_entry s d"
  shows "\<exists>s' c. fat_extend_chain s (last cs) 1 = Some (s', c) \<and> free_entry s c \<and> file_chain s' (cs @ [c]) \<and>
    fat_only s s' \<and> (\<forall>x. x \<noteq> last cs \<and> x \<noteq> c \<longrightarrow> fat_entry s' x = fat_entry s x)"
  using fat_extend_law [OF assms] by metis

theorem fat_extend_chain_appends_witness:
  "\<exists>s' c. fat_extend_chain demo_vol 3 1 = Some (s', c) \<and> free_entry demo_vol c \<and> file_chain s' [2, 3, c]"
  using fat_extend_chain_appends [OF demo_vol_ok(1,3) demo_chain(1) demo_free] by auto

text \<open>
  C6. Data written into a file within its clusters is read back. The write succeeds, reports offset plus
  length as the new size, keeps the cluster chain and every sector outside the file, and a read of the
  first \<open>n\<close> bytes returns the written bytes at their place and the old contents elsewhere.
\<close>

theorem fat32_write_at_read:
  assumes "vol_ok s" and "dev_ok s" and "file_chain s cs" and "offset + length data \<le> capacity s cs"
    and "offset + length data < 2 ^ 32" and "n \<le> capacity s cs" and "n < 2 ^ 31"
  shows "\<exists>s'. fat32_write_at s (hd cs) offset data = Some (s', Some (offset + length data)) \<and> file_chain s' cs \<and>
    (\<forall>x. x \<notin> file_sectors s cs \<longrightarrow> disk s' x = disk s x) \<and>
    fat32_read s' (hd cs) n n =
      Some (map (\<lambda>i. if offset \<le> i \<and> i < offset + length data then data ! (i - offset) else file_byte s cs i) [0..<n], int n)"
proof -
  obtain s' where s': "write_loop s (hd cs) offset data = Some (s', offset + length data, True)" "wrote s s' cs offset data"
    using write_loop_law [OF assms(1-5)] by blast
  have u: "s' = s\<lparr>disk := disk s'\<rparr>" using s'(2) by (simp add: wrote_def)
  have ch: "file_chain s' cs" by (rule file_chain_wrote [OF assms(1) s'(2) assms(3)])
  have "hd cs \<in> set cs" using assms(3) by (simp add: file_chain_def)
  then have "2 \<le> hd cs" using assms(3) unfolding file_chain_def by blast
  then have "hd cs \<noteq> 0" by simp
  then have "fat32_write_at s (hd cs) offset data = Some (s', Some (offset + length data))"
    using s'(1) by (simp add: fat32_write_at_def)
  moreover have "fat32_read s' (hd cs) n n = Some (map (file_byte s' cs) [0..<n], int n)"
    using fat32_read_law [of s' cs n n] assms(1,2,6,7) ch by (simp add: disk_update_fields [OF u])
  moreover have "map (file_byte s' cs) [0..<n] =
      map (\<lambda>i. if offset \<le> i \<and> i < offset + length data then data ! (i - offset) else file_byte s cs i) [0..<n]"
    using s'(2) assms(6) by (intro map_cong) (auto simp: wrote_def)
  ultimately show ?thesis using ch s'(2) by (auto simp: wrote_def)
qed

theorem fat32_write_at_read_witness:
  "\<exists>s'. fat32_write_at demo_vol 2 1 [7, 8] = Some (s', Some 3) \<and> fat32_read s' 2 4 4 = Some ([0, 7, 8, 0], 4)"
proof -
  have z: "file_byte demo_vol [2, 3] 0 = 0" "file_byte demo_vol [2, 3] 3 = 0"
    by (simp_all add: file_byte_def demo_vol_def file_sector_def)
  show ?thesis
    using fat32_write_at_read [OF demo_vol_ok(1,2) demo_chain(1), of 1 "[7, 8]" 4] demo_chain(2) z
    by (auto simp: upt_rec numeral_3_eq_3)
qed

text \<open>
  Names survive the directory format up to case: a name of at most eight characters, alone or with an
  extension of at most three, is displayed from its padded 8.3 form as itself in upper case.
\<close>

theorem to_83_display_roundtrip:
  assumes "short_part 8 base" and "short_part 3 ext"
  shows "shortname_to_display (to_83 (base @ CHR ''.'' # ext)) = map upcase base @ 0x2e # map upcase ext \<and>
    shortname_to_display (to_83 base) = map upcase base"
proof -
  note p = pad_part [of base 8] pad_part [of ext 3] pad_part [of "[]" 3]
  have l: "length base \<le> 8" "CHR ''.'' \<notin> set base" "CHR '' '' \<notin> set base" "length ext \<le> 3" "CHR '' '' \<notin> set ext" "ext \<noteq> []"
    using assms by (simp_all add: short_part_def)
  have "hd ext \<noteq> CHR '' ''" using l(5,6) by (metis hd_in_set)
  moreover have "pad 3 (map upcase ext) ! 0 = upcase (hd ext)" using l(6) by (cases ext) (simp_all add: pad_def)
  ultimately have "pad 3 (map upcase ext) ! 0 \<noteq> 0x20" using upcase_no_space by simp
  moreover have "pad 3 [] ! 0 = 0x20" by (simp add: pad_def)
  ultimately show ?thesis
    using p l by (simp add: to_83_parts display_parts)
qed

theorem to_83_display_roundtrip_witness:
  "shortname_to_display (to_83 ''readme.md'') = map upcase ''README.MD''"
  using to_83_display_roundtrip [of "''readme''" "''md''"] by (simp add: short_part_def upcase_def)

end
