(* ===== verification/Machine.thy ===== *)
theory Machine
  imports Vma Mmu Strings Fd
begin

text \<open>
  The state the memory subsystems share and the calls the upper layers make into them. The kernel heap
  and its frame pool sit in the file system state, the translation tables in \<open>mm\<close> and the page arrays of
  the memory areas in \<open>page_cells\<close>; each wrapper below runs one subsystem's operation on its part of
  the state, with the one frame pool, and puts the result back. \<open>ram\<close> is byte memory by kernel
  virtual address, for the contents of user pages and kernel stacks, and \<open>tlb_log\<close> records the
  invalidations the code issues outside \<^verbatim>\<open>mmu.c\<close>.
\<close>

datatype tlb_op = Tlbi_vae1 "64 word" | Tlbi_aside1 "64 word" | Tlbi_vmalle1

record 'w machine =
  fs :: "'w vfs"
  mm :: mmu
  page_cells :: "nat \<Rightarrow> nat"
  ram :: memory
  tlb_log :: "tlb_op list"

section \<open>Access to the parts\<close>

definition k_heap :: "('w, 'z) machine_scheme \<Rightarrow> heap" where
  "k_heap k = vfs.vheap (fs k)"

definition set_heap :: "heap \<Rightarrow> ('w, 'z) machine_scheme \<Rightarrow> ('w, 'z) machine_scheme" where
  "set_heap h k = k\<lparr>fs := (fs k)\<lparr>vfs.vheap := h\<rparr>\<rparr>"

definition k_pool :: "('w, 'z) machine_scheme \<Rightarrow> pmm" where
  "k_pool k = pool (k_heap k)"

definition set_pool :: "pmm \<Rightarrow> ('w, 'z) machine_scheme \<Rightarrow> ('w, 'z) machine_scheme" where
  "set_pool p k = set_heap ((k_heap k)\<lparr>pool := p\<rparr>) k"

definition k_mmu :: "('w, 'z) machine_scheme \<Rightarrow> mmu" where
  "k_mmu k = (mm k)\<lparr>mpool := k_pool k\<rparr>"

definition set_mmu :: "mmu \<Rightarrow> ('w, 'z) machine_scheme \<Rightarrow> ('w, 'z) machine_scheme" where
  "set_mmu m k = set_pool (mpool m) (k\<lparr>mm := m\<rparr>)"

definition k_vm :: "('w, 'z) machine_scheme \<Rightarrow> vm" where
  "k_vm k = \<lparr>vm.vheap = k_heap k, cells = page_cells k\<rparr>"

definition set_vm :: "vm \<Rightarrow> ('w, 'z) machine_scheme \<Rightarrow> ('w, 'z) machine_scheme" where
  "set_vm v k = set_heap (vm.vheap v) (k\<lparr>page_cells := cells v\<rparr>)"

section \<open>Calls\<close>

definition k_alloc_page :: "('w, 'z) machine_scheme \<Rightarrow> ('w, 'z) machine_scheme \<times> nat" where
  "k_alloc_page k = (let (p, a) = pmm_allocate_page (k_pool k) in (set_pool p k, a))"

definition k_alloc_pages :: "('w, 'z) machine_scheme \<Rightarrow> nat \<Rightarrow> ('w, 'z) machine_scheme \<times> nat" where
  "k_alloc_pages k n = (let (p, a) = pmm_allocate_pages (k_pool k) n in (set_pool p k, a))"

definition k_free_page :: "nat \<Rightarrow> ('w, 'z) machine_scheme \<Rightarrow> ('w, 'z) machine_scheme" where
  "k_free_page a k = set_pool (pmm_free_page (k_pool k) a) k"

definition k_free_pages :: "nat \<Rightarrow> nat \<Rightarrow> ('w, 'z) machine_scheme \<Rightarrow> ('w, 'z) machine_scheme" where
  "k_free_pages a n k = set_pool (pmm_free_pages (k_pool k) a n) k"

definition k_kmalloc :: "('w, 'z) machine_scheme \<Rightarrow> nat \<Rightarrow> (('w, 'z) machine_scheme \<times> nat) option" where
  "k_kmalloc k n = do { (h, p) \<leftarrow> kmalloc (k_heap k) n; Some (set_heap h k, p) }"

definition k_kfree :: "nat \<Rightarrow> ('w, 'z) machine_scheme \<Rightarrow> ('w, 'z) machine_scheme option" where
  "k_kfree p k = do { h \<leftarrow> kfree (k_heap k) p; Some (set_heap h k) }"

definition k_create_tables :: "('w, 'z) machine_scheme \<Rightarrow> ('w, 'z) machine_scheme \<times> nat" where
  "k_create_tables k = (let (m, l0) = mmu_create_user_tables (k_mmu k) in (set_mmu m k, l0))"

definition k_map :: "nat \<Rightarrow> nat \<Rightarrow> nat \<Rightarrow> nat \<Rightarrow> 64 word \<Rightarrow> ('w, 'z) machine_scheme \<Rightarrow> ('w, 'z) machine_scheme" where
  "k_map l0 va pa pages flags k = set_mmu (mmu_map_user_range (k_mmu k) l0 va pa pages flags) k"

definition k_unmap :: "nat \<Rightarrow> nat \<Rightarrow> nat \<Rightarrow> ('w, 'z) machine_scheme \<Rightarrow> ('w, 'z) machine_scheme option" where
  "k_unmap l0 va pages k = do { m \<leftarrow> mmu_unmap_user_range (k_mmu k) l0 va pages; Some (set_mmu m k) }"

definition k_protect :: "nat \<Rightarrow> nat \<Rightarrow> nat \<Rightarrow> 64 word \<Rightarrow> ('w, 'z) machine_scheme \<Rightarrow> (('w, 'z) machine_scheme \<times> nat) option" where
  "k_protect l0 va pages flags k =
     do { (m, n) \<leftarrow> mmu_protect_user_range (k_mmu k) l0 va pages flags; Some (set_mmu m k, n) }"

definition k_free_tables :: "nat \<Rightarrow> ('w, 'z) machine_scheme \<Rightarrow> ('w, 'z) machine_scheme" where
  "k_free_tables l0 k = set_mmu (mmu_free_user_tables l0 (k_mmu k)) k"

text \<open>Byte memory through the upper-half alias of a physical address.\<close>

definition k_zero :: "nat \<Rightarrow> nat \<Rightarrow> ('w, 'z) machine_scheme \<Rightarrow> ('w, 'z) machine_scheme" where
  "k_zero pa n k = k\<lparr>ram := memset (ram k) (phys_to_virt pa) 0 n\<rparr>"

definition k_copy :: "nat \<Rightarrow> nat \<Rightarrow> nat \<Rightarrow> ('w, 'z) machine_scheme \<Rightarrow> ('w, 'z) machine_scheme" where
  "k_copy dst src n k = k\<lparr>ram := memcpy (ram k) (phys_to_virt dst) (phys_to_virt src) n\<rparr>"

definition store64 :: "memory \<Rightarrow> nat \<Rightarrow> nat \<Rightarrow> memory" where
  "store64 m a v = fold (\<lambda>i m. m(a + i := of_nat (v div 256 ^ i))) [0..<8] m"

definition store32 :: "memory \<Rightarrow> nat \<Rightarrow> nat \<Rightarrow> memory" where
  "store32 m a v = fold (\<lambda>i m. m(a + i := of_nat (v div 256 ^ i))) [0..<4] m"

definition log_tlbi :: "tlb_op \<Rightarrow> ('w, 'z) machine_scheme \<Rightarrow> ('w, 'z) machine_scheme" where
  "log_tlbi x k = k\<lparr>tlb_log := tlb_log k @ [x]\<rparr>"

end
