(* ===== verification/Elf.thy ===== *)
theory Elf
  imports Machine
begin

text \<open>
  The ELF loader, \<^verbatim>\<open>src/src/syscall/elf.c\<close>. The file is a buffer in kernel memory at address
  \<open>kbuf\<close>; its headers are decoded from the bytes there. Instruction cache maintenance
  (\<^verbatim>\<open>cpu_sync_icache\<close>) has no effect on the modelled state.
\<close>

section \<open>Headers\<close>

definition load16 :: "memory \<Rightarrow> nat \<Rightarrow> nat" where
  "load16 m a = unat (m a) + 256 * unat (m (a + 1))"

definition load32 :: "memory \<Rightarrow> nat \<Rightarrow> nat" where
  "load32 m a = load16 m a + 2 ^ 16 * load16 m (a + 2)"

definition load64 :: "memory \<Rightarrow> nat \<Rightarrow> nat" where
  "load64 m a = load32 m a + 2 ^ 32 * load32 m (a + 4)"

definition ELFCLASS64 :: "8 word" where "ELFCLASS64 = 2"
definition ELFDATA2LSB :: "8 word" where "ELFDATA2LSB = 1"
definition EV_CURRENT :: "8 word" where "EV_CURRENT = 1"
definition ET_EXEC :: nat where "ET_EXEC = 2"
definition EM_AARCH64 :: nat where "EM_AARCH64 = 0xB7"
definition PT_LOAD :: nat where "PT_LOAD = 1"
definition PF_X :: "32 word" where "PF_X = 1"
definition PF_W :: "32 word" where "PF_W = 2"
definition PF_R :: "32 word" where "PF_R = 4"
definition ELF_MAX_REGIONS :: nat where "ELF_MAX_REGIONS = 4"
definition MAX_PHNUM :: nat where "MAX_PHNUM = 32"
definition USER_STACK_TOP :: nat where "USER_STACK_TOP = 0x00800000"

record elf64_ehdr =
  e_ident :: "8 word list"
  e_type :: nat
  e_machine :: nat
  e_entry :: nat
  e_phoff :: nat
  e_phentsize :: nat
  e_phnum :: nat

record elf64_phdr =
  p_type :: nat
  p_flags :: "32 word"
  p_offset :: nat
  p_vaddr :: nat
  p_filesz :: nat
  p_memsz :: nat

record elf_region =
  er_phys :: nat
  er_pages :: nat
  er_va :: nat
  er_flags :: "32 word"

record elf_image =
  ei_entry :: nat
  ei_regions :: "elf_region list"
  ei_phdr_va :: nat
  ei_phentsize :: nat
  ei_phnum :: nat

definition EHDR_SIZE :: nat where "EHDR_SIZE = 64"
definition PHDR_SIZE :: nat where "PHDR_SIZE = 56"

definition ehdr_at :: "memory \<Rightarrow> nat \<Rightarrow> elf64_ehdr" where
  "ehdr_at m a = \<lparr>e_ident = map (\<lambda>i. m (a + i)) [0..<16], e_type = load16 m (a + 16), e_machine = load16 m (a + 18),
     e_entry = load64 m (a + 24), e_phoff = load64 m (a + 32), e_phentsize = load16 m (a + 54), e_phnum = load16 m (a + 56)\<rparr>"

definition phdr_at :: "memory \<Rightarrow> nat \<Rightarrow> elf64_phdr" where
  "phdr_at m a = \<lparr>p_type = load32 m a, p_flags = of_nat (load32 m (a + 4)), p_offset = load64 m (a + 8),
     p_vaddr = load64 m (a + 16), p_filesz = load64 m (a + 32), p_memsz = load64 m (a + 40)\<rparr>"

definition elf_phdr :: "memory \<Rightarrow> nat \<Rightarrow> nat \<Rightarrow> elf64_phdr" where
  "elf_phdr m phs i = phdr_at m (phs + i * PHDR_SIZE)"

section \<open>Protection\<close>

definition elf_pflags_to_pte :: "32 word \<Rightarrow> 64 word" where
  "elf_pflags_to_pte pf =
     (let f0 = PTE_ATTRIDX 1 OR PTE_PXN;
          f1 = (if pf AND PF_W \<noteq> 0 then f0 OR PTE_AP_RW_EL0 else f0 OR PTE_AP_RO_EL0)
      in if pf AND PF_X = 0 then f1 OR PTE_UXN else f1)"

definition parse_flags :: "32 word \<Rightarrow> 64 word option" where
  "parse_flags pf =
     (let f0 = PTE_ATTRIDX 1 OR PTE_PXN;
          f1 = (if pf AND PF_W \<noteq> 0 then f0 OR PTE_AP_RW_EL0 else f0 OR PTE_AP_RO_EL0);
          f = (if pf AND PF_X = 0 then f1 OR PTE_UXN else f1)
      in if pf AND PF_W \<noteq> 0 \<and> pf AND PF_X \<noteq> 0 then None
         else if pf AND PF_R = 0 then None
         else Some f)"

section \<open>Loading\<close>

definition free_regions :: "elf_image \<Rightarrow> ('w, 'z) machine_scheme \<Rightarrow> ('w, 'z) machine_scheme \<times> elf_image" where
  "free_regions img k =
     (fold (\<lambda>r k. if er_phys r \<noteq> 0 \<and> er_pages r \<noteq> 0 then k_free_pages (er_phys r) (er_pages r) k else k) (ei_regions img) k,
      img\<lparr>ei_regions := []\<rparr>)"

text \<open>The checks on one segment before anything is allocated.\<close>

definition segment_ok :: "elf64_phdr \<Rightarrow> nat \<Rightarrow> elf_image \<Rightarrow> bool" where
  "segment_ok ph fsize img \<longleftrightarrow>
     \<not> p_memsz ph < p_filesz ph \<and>
     \<not> (fsize < u64 (p_offset ph + p_filesz ph) \<or> u64 (p_offset ph + p_filesz ph) < p_offset ph) \<and>
     \<not> (USER_STACK_TOP \<le> p_vaddr ph \<or> USER_STACK_TOP < u64 (p_vaddr ph + p_memsz ph) \<or>
        u64 (p_vaddr ph + p_memsz ph) < p_vaddr ph) \<and>
     \<not> ELF_MAX_REGIONS \<le> length (ei_regions img)"

definition segment_lo :: "elf64_phdr \<Rightarrow> nat" where
  "segment_lo ph = page_align_down (p_vaddr ph)"

definition segment_pages :: "elf64_phdr \<Rightarrow> nat" where
  "segment_pages ph = sub64 (page_align_up (u64 (p_vaddr ph + p_memsz ph))) (segment_lo ph) div PAGE_SIZE"

text \<open>Contents and mapping of a segment whose frames start at \<open>phys\<close>.\<close>

definition fill_segment :: "nat \<Rightarrow> elf64_phdr \<Rightarrow> nat \<Rightarrow> ('w, 'z) machine_scheme \<Rightarrow> ('w, 'z) machine_scheme" where
  "fill_segment kbuf ph phys k =
     (let k1 = k_zero phys (segment_pages ph * PAGE_SIZE) k in
      if 0 < p_filesz ph
      then k1\<lparr>ram := memcpy (ram k1) (phys_to_virt phys + (p_vaddr ph - segment_lo ph)) (kbuf + p_offset ph) (p_filesz ph)\<rparr>
      else k1)"

fun load_segments :: "nat \<Rightarrow> nat \<Rightarrow> nat \<Rightarrow> nat \<Rightarrow> nat list \<Rightarrow> ('w, 'z) machine_scheme \<Rightarrow> elf_image \<Rightarrow>
    ('w, 'z) machine_scheme \<times> elf_image \<times> bool" where
  "load_segments kbuf fsize phs l0 [] k img = (k, img, True)"
| "load_segments kbuf fsize phs l0 (i # is) k img =
     (let ph = elf_phdr (ram k) phs i; fail = (let (k1, img1) = free_regions img k in (k1, img1, False)) in
      if p_type ph \<noteq> PT_LOAD then load_segments kbuf fsize phs l0 is k img
      else if \<not> segment_ok ph fsize img then fail
      else case parse_flags (p_flags ph) of
             None \<Rightarrow> fail
           | Some pte_flags \<Rightarrow>
               (let (k1, phys) = k_alloc_pages k (segment_pages ph) in
                if phys = 0 then (let (k2, img1) = free_regions img k1 in (k2, img1, False))
                else load_segments kbuf fsize phs l0 is
                       (k_map l0 (segment_lo ph) phys (segment_pages ph) pte_flags (fill_segment kbuf ph phys k1))
                       (img\<lparr>ei_regions := ei_regions img @
                          [\<lparr>er_phys = phys, er_pages = segment_pages ph, er_va = segment_lo ph, er_flags = p_flags ph\<rparr>]\<rparr>)))"

definition header_ok :: "elf64_ehdr \<Rightarrow> nat \<Rightarrow> bool" where
  "header_ok eh fsize \<longleftrightarrow>
     e_ident eh ! 0 = 0x7F \<and> e_ident eh ! 1 = of_char CHR ''E'' \<and> e_ident eh ! 2 = of_char CHR ''L'' \<and>
     e_ident eh ! 3 = of_char CHR ''F'' \<and> e_ident eh ! 4 = ELFCLASS64 \<and> e_ident eh ! 5 = ELFDATA2LSB \<and>
     e_ident eh ! 6 = EV_CURRENT \<and> e_type eh = ET_EXEC \<and> e_machine eh = EM_AARCH64 \<and>
     e_phentsize eh = PHDR_SIZE \<and> \<not> (e_phnum eh = 0 \<or> MAX_PHNUM < e_phnum eh) \<and>
     \<not> (fsize < e_phoff eh \<or> fsize < u64 (e_phoff eh + e_phnum eh * PHDR_SIZE))"

definition find_phdr_va :: "elf64_ehdr \<Rightarrow> elf64_phdr list \<Rightarrow> nat" where
  "find_phdr_va eh phdrs =
     (let tbl_end = u64 (e_phoff eh + e_phnum eh * PHDR_SIZE) in
      case find (\<lambda>ph. p_type ph = PT_LOAD \<and> p_offset ph \<le> e_phoff eh \<and> tbl_end \<le> u64 (p_offset ph + p_filesz ph)) phdrs of
        None \<Rightarrow> 0
      | Some ph \<Rightarrow> u64 (p_vaddr ph + (e_phoff eh - p_offset ph)))"

definition entry_ok :: "elf64_ehdr \<Rightarrow> elf64_phdr list \<Rightarrow> bool" where
  "entry_ok eh phdrs \<longleftrightarrow>
     list_ex (\<lambda>ph. p_type ph = PT_LOAD \<and> p_vaddr ph \<le> e_entry eh \<and> e_entry eh < u64 (p_vaddr ph + p_memsz ph) \<and>
                   p_flags ph AND PF_X \<noteq> 0) phdrs"

text \<open>The result is the machine, the filled-in image and whether the call succeeded.\<close>

definition elf_load :: "nat \<Rightarrow> nat \<Rightarrow> nat \<Rightarrow> elf_image \<Rightarrow> ('w, 'z) machine_scheme \<Rightarrow>
    ('w, 'z) machine_scheme \<times> elf_image \<times> bool" where
  "elf_load kbuf fsize l0 out k =
     (if fsize < EHDR_SIZE then (k, out, False)
      else (let eh = ehdr_at (ram k) kbuf in
            if \<not> header_ok eh fsize then (k, out, False)
            else (let img0 = \<lparr>ei_entry = e_entry eh, ei_regions = [], ei_phdr_va = 0,
                              ei_phentsize = e_phentsize eh, ei_phnum = e_phnum eh\<rparr>;
                      phs = kbuf + e_phoff eh;
                      (k1, img1, ok) = load_segments kbuf fsize phs l0 [0..<e_phnum eh] k img0
                  in if \<not> ok then (k1, img1, False)
                     else if ei_regions img1 = [] then (k1, img1, False)
                     else (let phdrs = map (elf_phdr (ram k1) phs) [0..<e_phnum eh];
                               img2 = img1\<lparr>ei_phdr_va := find_phdr_va eh phdrs\<rparr>
                           in if \<not> entry_ok eh phdrs
                              then (let (k2, img3) = free_regions img2 k1 in (k2, img3, False))
                              else (k1, img2, True)))))"

end
