(* ===== verification/Sched.thy ===== *)
theory Sched
  imports Elf
begin

text \<open>
  The scheduler, \<^verbatim>\<open>src/src/sched/sched.c\<close>. A task is addressed by its pointer; \<open>tasks p\<close> is
  \<^term>\<open>None\<close> when no task lives there, so reading a task that has been freed has no result. The run
  queue is the ring of \<open>tnext\<close> pointers and the dead list the chain that starts at
  \<open>dead_list\<close> (0 is \<^verbatim>\<open>NULL\<close>). Walks along the pointers are \<open>partial_function (option)\<close>.
  Addresses the linker and \<^verbatim>\<open>switch.S\<close> provide are in the record \<open>linkage\<close>. The callee-saved
  registers and the stack pointer that \<^verbatim>\<open>context_switch\<close> saves are not part of the state.
\<close>

section \<open>Tasks\<close>

datatype task_state = TASK_READY | TASK_RUNNING | TASK_SLEEPING | TASK_DEAD | TASK_ZOMBIE

record task =
  sp :: nat
  pid :: nat
  tstate :: task_state
  sleep_until :: nat
  stack_phys :: nat
  ttbr0 :: "64 word"
  user_sp :: nat
  kstack_top :: nat
  ustack_phys :: nat
  exec_image :: elf_image
  tname :: string
  fds :: nat
  tnext :: nat
  stack_grown :: "(nat \<times> nat) list"
  vmas :: "vma list"
  brk_base :: nat
  brk_cur :: nat
  tls_phys :: nat
  ppid :: nat
  exit_code :: int
  clear_tid :: nat
  tpidr_el0 :: nat

record 'w kernel = "'w machine" +
  tasks :: "nat \<Rightarrow> task option"
  idle_task :: nat
  current :: nat
  next_pid :: nat
  dead_list :: nat
  next_asid :: "16 word"
  ticks :: nat
  tpidr :: nat

record linkage =
  text_start :: nat
  user_text_end :: nat
  task_trampoline :: nat
  kernel_task_trampoline :: nat
  fork_return :: nat

definition TASK_STACK_PAGES :: nat where "TASK_STACK_PAGES = 4"
definition USER_STACK_PAGES :: nat where "USER_STACK_PAGES = 4"
definition USER_STACK_PAGES_MAX :: nat where "USER_STACK_PAGES_MAX = 64"
definition USER_STACK_GROWN_MAX :: nat where "USER_STACK_GROWN_MAX = USER_STACK_PAGES_MAX - USER_STACK_PAGES"
definition USER_TEXT_BASE :: nat where "USER_TEXT_BASE = 0x00400000"
definition USER_BRK_BASE :: nat where "USER_BRK_BASE = 0x20000000"
definition USER_TLS_BASE :: nat where "USER_TLS_BASE = 0x00B00000"
definition TLS_ERRNO_OFFSET :: nat where "TLS_ERRNO_OFFSET = 0"
definition TIMER_INTERVAL_MS :: nat where "TIMER_INTERVAL_MS = 10"
definition WNOHANG :: nat where "WNOHANG = 1"
definition TASK_T_SIZE :: nat where "TASK_T_SIZE = 2576"

definition empty_image :: elf_image where
  "empty_image = \<lparr>ei_entry = 0, ei_regions = [], ei_phdr_va = 0, ei_phentsize = 0, ei_phnum = 0\<rparr>"

definition zero_task :: task where
  "zero_task = \<lparr>sp = 0, pid = 0, tstate = TASK_READY, sleep_until = 0, stack_phys = 0, ttbr0 = 0, user_sp = 0,
     kstack_top = 0, ustack_phys = 0, exec_image = empty_image, tname = [], fds = 0, tnext = 0, stack_grown = [],
     vmas = [], brk_base = 0, brk_cur = 0, tls_phys = 0, ppid = 0, exit_code = 0, clear_tid = 0, tpidr_el0 = 0\<rparr>"

text \<open>A store to a field of a task; there is no result when no task lives at the pointer.\<close>

definition upd_task :: "nat \<Rightarrow> (task \<Rightarrow> task) \<Rightarrow> 'w kernel \<Rightarrow> 'w kernel option" where
  "upd_task t f k = (case tasks k t of None \<Rightarrow> None | Some x \<Rightarrow> Some (k\<lparr>tasks := (tasks k)(t := Some (f x))\<rparr>))"

definition alloc_task :: "'w kernel \<Rightarrow> ('w kernel \<times> nat) option" where
  "alloc_task k =
     do {
       (k1, t) \<leftarrow> k_kmalloc k TASK_T_SIZE;
       Some (if t = 0 then k1 else k1\<lparr>tasks := (tasks k1)(t := Some zero_task)\<rparr>, t)
     }"

definition free_task_struct :: "nat \<Rightarrow> 'w kernel \<Rightarrow> 'w kernel option" where
  "free_task_struct t k = do { k1 \<leftarrow> k_kfree t k; Some (k1\<lparr>tasks := (tasks k1)(t := None)\<rparr>) }"

section \<open>Demand paging\<close>

definition STACK_FLAGS :: "64 word" where
  "STACK_FLAGS = PTE_ATTRIDX 1 OR PTE_AP_RW_EL0 OR PTE_UXN OR PTE_PXN"

definition user_l0 :: "task \<Rightarrow> nat" where
  "user_l0 x = unat (ttbr_baddr (ttbr0 x))"

definition vae1_arg :: "task \<Rightarrow> nat \<Rightarrow> 64 word" where
  "vae1_arg x va = push_bit 48 (ucast (ttbr_asid (ttbr0 x))) OR of_nat (va div 4096)"

text \<open>The pointer is 0 for the \<^verbatim>\<open>NULL\<close> task.\<close>

definition sched_try_grow_stack :: "nat \<Rightarrow> nat \<Rightarrow> 'w kernel \<Rightarrow> ('w kernel \<times> bool) option" where
  "sched_try_grow_stack t far k =
     (if t = 0 then Some (k, False)
      else case tasks k t of
        None \<Rightarrow> None
      | Some x \<Rightarrow>
          if ttbr0 x = 0 then Some (k, False)
          else if far < USER_STACK_TOP - USER_STACK_PAGES_MAX * PAGE_SIZE \<or>
                  USER_STACK_TOP - USER_STACK_PAGES * PAGE_SIZE \<le> far then Some (k, False)
          else if USER_STACK_GROWN_MAX \<le> length (stack_grown x) then Some (k, False)
          else (let (k1, pa) = k_alloc_page k in
                if pa = 0 then Some (k1, False)
                else (let va = page_align_down far;
                          k2 = k_map (user_l0 x) va pa 1 STACK_FLAGS (k_zero pa PAGE_SIZE k1);
                          k3 = log_tlbi (Tlbi_vae1 (vae1_arg x va)) k2
                      in do { k4 \<leftarrow> upd_task t (\<lambda>x. x\<lparr>stack_grown := stack_grown x @ [(pa, va)]\<rparr>) k3; Some (k4, True) })))"

definition access_ok :: "vma \<Rightarrow> bool \<Rightarrow> bool \<Rightarrow> bool" where
  "access_ok v is_write is_exec \<longleftrightarrow>
     (if is_exec then of_nat (vprot v) AND VMA_PROT_EXEC \<noteq> 0
      else if is_write then of_nat (vprot v) AND VMA_PROT_WRITE \<noteq> 0
      else of_nat (vprot v) AND VMA_PROT_READ \<noteq> 0)"

definition sched_try_handle_vma_fault :: "nat \<Rightarrow> nat \<Rightarrow> bool \<Rightarrow> bool \<Rightarrow> 'w kernel \<Rightarrow> ('w kernel \<times> bool) option" where
  "sched_try_handle_vma_fault t far is_write is_exec k =
     (if t = 0 then Some (k, False)
      else case tasks k t of
        None \<Rightarrow> None
      | Some x \<Rightarrow>
          if ttbr0 x = 0 then Some (k, False)
          else case vma_find (vmas x) far of
            None \<Rightarrow> Some (k, False)
          | Some v \<Rightarrow>
              if \<not> access_ok v is_write is_exec then Some (k, False)
              else (let va = page_align_down far; idx = sub64 va (vstart v) div PAGE_SIZE in
                    if sub64 (vend v) (vstart v) div PAGE_SIZE \<le> idx \<or> page_cells k (vpages v + 8 * idx) \<noteq> 0 then Some (k, False)
                    else (let (k1, pa) = k_alloc_page k in
                          if pa = 0 then Some (k1, False)
                          else (let k2 = k_map (user_l0 x) va pa 1 (mmu_prot_to_flags (of_nat (vprot v))) (k_zero pa PAGE_SIZE k1);
                                    k3 = k2\<lparr>page_cells := (page_cells k2)(vpages v + 8 * idx := pa)\<rparr>
                                in Some (log_tlbi (Tlbi_vae1 (vae1_arg x va)) k3, True)))))"

section \<open>Address space identifiers\<close>

definition sched_asid_alloc :: "'w kernel \<Rightarrow> 'w kernel \<times> 16 word" where
  "sched_asid_alloc k =
     (let a = next_asid k in
      if a + 1 = 0 then ((log_tlbi Tlbi_vmalle1 k)\<lparr>next_asid := 1\<rparr>, a)
      else (k\<lparr>next_asid := a + 1\<rparr>, a))"

definition copy_name :: "string \<Rightarrow> string" where
  "copy_name src = take 15 src"

section \<open>The run queue\<close>

definition sched_init :: "'w kernel \<Rightarrow> 'w kernel" where
  "sched_init k =
     k\<lparr>tasks := (tasks k)(idle_task k := Some (zero_task\<lparr>pid := next_pid k, tstate := TASK_READY,
         tnext := idle_task k, tname := copy_name ''idle''\<rparr>)),
       next_pid := u64 (next_pid k + 1), current := idle_task k\<rparr>"

text \<open>The element of the ring whose successor is \<open>x\<close>, searched from \<open>p\<close> on.\<close>

partial_function (option) ring_pred :: "(nat \<Rightarrow> task option) \<Rightarrow> nat \<Rightarrow> nat \<Rightarrow> nat option" where
  "ring_pred T x p =
     (case T p of None \<Rightarrow> None | Some y \<Rightarrow> if tnext y = x then Some p else ring_pred T x (tnext y))"

definition enqueue :: "nat \<Rightarrow> 'w kernel \<Rightarrow> 'w kernel option" where
  "enqueue t k =
     do {
       tail \<leftarrow> ring_pred (tasks k) (current k) (current k);
       k1 \<leftarrow> upd_task tail (\<lambda>x. x\<lparr>tnext := t\<rparr>) k;
       upd_task t (\<lambda>x. x\<lparr>tnext := current k\<rparr>) k1
     }"

text \<open>Taking a task out of the ring and pushing it on the dead list.\<close>

definition unlink_dead :: "nat \<Rightarrow> (task \<Rightarrow> task) \<Rightarrow> 'w kernel \<Rightarrow> 'w kernel option" where
  "unlink_dead t f k =
     do {
       x \<leftarrow> tasks k t;
       p \<leftarrow> ring_pred (tasks k) t t;
       k1 \<leftarrow> upd_task p (\<lambda>y. y\<lparr>tnext := tnext x\<rparr>) k;
       k2 \<leftarrow> upd_task t (\<lambda>x. f (x\<lparr>tstate := if ppid x \<noteq> 0 then TASK_ZOMBIE else TASK_DEAD, tnext := dead_list k\<rparr>)) k1;
       Some (k2\<lparr>dead_list := t\<rparr>)
     }"

section \<open>Creating tasks\<close>

definition sched_create_kernel_task :: "linkage \<Rightarrow> string \<Rightarrow> nat \<Rightarrow> 'w kernel \<Rightarrow> ('w kernel \<times> int) option" where
  "sched_create_kernel_task L name entry k =
     do {
       (k1, t) \<leftarrow> alloc_task k;
       if t = 0 then Some (k1, -1)
       else (let (k2, kstack) = k_alloc_pages k1 TASK_STACK_PAGES in
         if kstack = 0 then do { k3 \<leftarrow> free_task_struct t k2; Some (k3, -1) }
         else (let ktop = u64 (phys_to_virt kstack + TASK_STACK_PAGES * PAGE_SIZE);
                   frame = ktop - 160;
                   k3 = k_zero kstack (TASK_STACK_PAGES * PAGE_SIZE) k2;
                   k4 = k3\<lparr>ram := store64 (store64 (store64 (ram k3) frame entry) (frame + 8) 0) (frame + 88) (kernel_task_trampoline L)\<rparr>
               in do {
                 k5 \<leftarrow> upd_task t (\<lambda>x. x\<lparr>sp := frame, pid := next_pid k4, tstate := TASK_READY, stack_phys := kstack,
                         ttbr0 := 0, user_sp := 0, kstack_top := ktop, ustack_phys := 0, tname := copy_name name, fds := 0\<rparr>) k4;
                 k6 \<leftarrow> enqueue t (k5\<lparr>next_pid := u64 (next_pid k5 + 1)\<rparr>);
                 Some (k6, to_int32 (next_pid k4))
               }))
     }"

definition clear_errno :: "nat \<Rightarrow> ('w, 'z) machine_scheme \<Rightarrow> ('w, 'z) machine_scheme" where
  "clear_errno tls k =
     (if tls = 0 then k else k\<lparr>ram := store32 (ram k) (phys_to_virt tls + TLS_ERRNO_OFFSET) 0\<rparr>)"

text \<open>The three console descriptors of a new task; 0 is a table that could not be allocated.\<close>

definition open_console :: "'w drivers \<Rightarrow> 'w vfs \<Rightarrow> ('w vfs \<times> nat) option" where
  "open_console D s =
     do {
       (s1, t) \<leftarrow> fd_table_create s;
       if t = 0 then Some (s1, t)
       else do {
         (s2, _) \<leftarrow> fd_open_ex D s1 t ''/dev/console'' O_RDWR;
         (s3, _) \<leftarrow> fd_open_ex D s2 t ''/dev/console'' O_RDWR;
         (s4, _) \<leftarrow> fd_open_ex D s3 t ''/dev/console'' O_RDWR;
         Some (s4, t)
       }
     }"

definition TEXT_FLAGS :: "64 word" where
  "TEXT_FLAGS = PTE_ATTRIDX 1 OR PTE_AP_RO_EL0 OR PTE_PXN"

definition text_pages :: "linkage \<Rightarrow> nat" where
  "text_pages L = sub64 (virt_to_phys (user_text_end L)) (virt_to_phys (text_start L)) div PAGE_SIZE"

definition map_text :: "linkage \<Rightarrow> nat \<Rightarrow> ('w, 'z) machine_scheme \<Rightarrow> ('w, 'z) machine_scheme" where
  "map_text L l0 k = k_map l0 USER_TEXT_BASE (virt_to_phys (text_start L)) (text_pages L) TEXT_FLAGS k"

text \<open>Release of a kernel stack and the task structure on the failure paths.\<close>

definition drop_task :: "nat \<Rightarrow> nat \<Rightarrow> 'w kernel \<Rightarrow> ('w kernel \<times> int) option" where
  "drop_task kstack t k =
     do { k1 \<leftarrow> free_task_struct t (k_free_pages kstack TASK_STACK_PAGES k); Some (k1, -1) }"

definition map_stack :: "nat \<Rightarrow> nat \<Rightarrow> ('w, 'z) machine_scheme \<Rightarrow> ('w, 'z) machine_scheme" where
  "map_stack l0 ustack k = k_map l0 (USER_STACK_TOP - USER_STACK_PAGES * PAGE_SIZE) ustack USER_STACK_PAGES STACK_FLAGS k"

definition sched_create_task :: "'w drivers \<Rightarrow> linkage \<Rightarrow> string \<Rightarrow> nat \<Rightarrow> 'w kernel \<Rightarrow> ('w kernel \<times> int) option" where
  "sched_create_task D L name entry k =
     do {
       (k1, t) \<leftarrow> alloc_task k;
       if t = 0 then Some (k1, -1)
       else (let (k2, kstack) = k_alloc_pages k1 TASK_STACK_PAGES in
         if kstack = 0 then do { k3 \<leftarrow> free_task_struct t k2; Some (k3, -1) }
         else (let ktop = u64 (phys_to_virt kstack + TASK_STACK_PAGES * PAGE_SIZE);
                   (k3, l0) = k_create_tables (k_zero kstack (TASK_STACK_PAGES * PAGE_SIZE) k2);
                   entry_pa = virt_to_phys entry
               in
           if l0 = 0 then drop_task kstack t k3
           else if entry_pa < virt_to_phys (text_start L) \<or> virt_to_phys (user_text_end L) \<le> entry_pa
                then drop_task kstack t (k_free_page l0 k3)
           else (let k4 = map_text L l0 k3; (k5, ustack) = k_alloc_pages k4 USER_STACK_PAGES in
             if ustack = 0 then drop_task kstack t (k_free_tables l0 k5)
             else (let (k6, tls) = k_alloc_page (map_stack l0 ustack (k_zero ustack (USER_STACK_PAGES * PAGE_SIZE) k5)) in
               if tls = 0 then drop_task kstack t (k_free_tables l0 (k_free_pages ustack USER_STACK_PAGES k6))
               else (let k7 = k_map l0 USER_TLS_BASE tls 1 STACK_FLAGS (k_zero tls PAGE_SIZE k6);
                         user_entry = USER_TEXT_BASE + (entry_pa - virt_to_phys (text_start L));
                         frame = ktop - 160;
                         k8 = k7\<lparr>ram := store64 (store64 (store64 (ram k7) frame user_entry) (frame + 8) USER_STACK_TOP) (frame + 88) (task_trampoline L)\<rparr>;
                         (k9, asid) = sched_asid_alloc (k8\<lparr>next_pid := u64 (next_pid k8 + 1)\<rparr>);
                         k10 = clear_errno tls k9
                     in do {
                       (s, table) \<leftarrow> open_console D (fs k10);
                       k11 \<leftarrow> upd_task t (\<lambda>x. x\<lparr>sp := frame, pid := next_pid k8, tstate := TASK_READY, stack_phys := kstack,
                               ttbr0 := ttbr_pack (of_nat l0) asid, user_sp := USER_STACK_TOP, kstack_top := ktop,
                               ustack_phys := ustack, tls_phys := tls, tpidr_el0 := USER_TLS_BASE, tname := copy_name name,
                               vmas := vma_init, brk_base := USER_BRK_BASE, brk_cur := USER_BRK_BASE, fds := table\<rparr>) (k10\<lparr>fs := s\<rparr>);
                       k12 \<leftarrow> enqueue t k11;
                       Some (k12, to_int32 (next_pid k8))
                     })))))
     }"

section \<open>Fork\<close>

text \<open>The segments of an executed image, each copied into frames of its own.\<close>

fun fork_regions :: "nat \<Rightarrow> elf_region list \<Rightarrow> ('w, 'z) machine_scheme \<Rightarrow> elf_region list \<Rightarrow>
    ('w, 'z) machine_scheme \<times> elf_region list \<times> bool" where
  "fork_regions l0 [] k acc = (k, acc, True)"
| "fork_regions l0 (r # rs) k acc =
     (let (k1, dst) = k_alloc_pages k (er_pages r) in
      if dst = 0 then (fold (\<lambda>r. k_free_pages (er_phys r) (er_pages r)) acc k1, [], False)
      else fork_regions l0 rs
             (k_map l0 (er_va r) dst (er_pages r) (elf_pflags_to_pte (er_flags r)) (k_copy dst (er_phys r) (er_pages r * PAGE_SIZE) k1))
             (acc @ [r\<lparr>er_phys := dst\<rparr>]))"

fun fork_grown :: "nat \<Rightarrow> (nat \<times> nat) list \<Rightarrow> ('w, 'z) machine_scheme \<Rightarrow> (nat \<times> nat) list \<Rightarrow>
    ('w, 'z) machine_scheme \<times> (nat \<times> nat) list" where
  "fork_grown l0 [] k acc = (k, acc)"
| "fork_grown l0 ((src_pa, va) # gs) k acc =
     (if src_pa = 0 then fork_grown l0 gs k acc
      else (let (k1, dst_pa) = k_alloc_page k in
            if dst_pa = 0 then (k1, acc)
            else fork_grown l0 gs (k_map l0 va dst_pa 1 STACK_FLAGS (k_copy dst_pa src_pa PAGE_SIZE k1)) (acc @ [(dst_pa, va)])))"

text \<open>The resident pages of one cloned area; the result says whether the frames sufficed.\<close>

fun privatize_pages :: "nat \<Rightarrow> vma \<Rightarrow> 64 word \<Rightarrow> nat list \<Rightarrow> ('w, 'z) machine_scheme \<Rightarrow> ('w, 'z) machine_scheme \<times> bool" where
  "privatize_pages l0 cv flags [] k = (k, True)"
| "privatize_pages l0 cv flags (pi # pis) k =
     (let src_pa = page_cells k (vpages cv + 8 * pi) in
      if src_pa = 0 then privatize_pages l0 cv flags pis k
      else (let (k1, dst_pa) = k_alloc_page k in
            if dst_pa = 0 then (k1, False)
            else (let k2 = k_copy dst_pa src_pa PAGE_SIZE k1;
                      k3 = k2\<lparr>page_cells := (page_cells k2)(vpages cv + 8 * pi := dst_pa)\<rparr>
                  in privatize_pages l0 cv flags pis (k_map l0 (u64 (vstart cv + pi * PAGE_SIZE)) dst_pa 1 flags k3))))"

partial_function (option) privatize_vmas :: "nat \<Rightarrow> nat \<Rightarrow> 'w kernel \<Rightarrow> vma list \<Rightarrow> ('w kernel \<times> vma list) option" where
  "privatize_vmas l0 vi k vs =
     (if vi < length vs
      then (let cv = vs ! vi in
            case privatize_pages l0 cv (mmu_prot_to_flags (of_nat (vprot cv))) [0..<vma_npages cv] k of
              (k1, ok) \<Rightarrow>
                if ok then privatize_vmas l0 (vi + 1) k1 vs
                else Option.bind (k_unmap l0 (vstart cv) (vma_npages cv) k1)
                       (\<lambda>k2. Option.bind (vma_unmap_range (k_vm k2) vs (vstart cv) (vend cv))
                         (\<lambda>r. case r of (v, vs1, _) \<Rightarrow> privatize_vmas l0 vi (set_vm v k2) vs1)))
      else Some (k, vs))"

definition fork_vmas :: "nat \<Rightarrow> vma list \<Rightarrow> 'w kernel \<Rightarrow> ('w kernel \<times> vma list) option" where
  "fork_vmas l0 src k =
     (if src = [] then Some (k, [])
      else do {
        (v, vs, ok) \<leftarrow> vma_clone (k_vm k) src;
        if \<not> ok then Some (set_vm v k, vs) else privatize_vmas l0 0 (set_vm v k) vs
      })"

definition fork_name :: "string \<Rightarrow> string" where
  "fork_name name = (let n = copy_name name in if length n + 2 < 16 then n @ ''+f'' else n)"

text \<open>The program image: the segments of an executed file, or the shared text window.\<close>

definition fork_image :: "linkage \<Rightarrow> nat \<Rightarrow> elf_image \<Rightarrow> ('w, 'z) machine_scheme \<Rightarrow> ('w, 'z) machine_scheme \<times> elf_image \<times> bool" where
  "fork_image L l0 img k =
     (if ei_regions img \<noteq> []
      then (let (k1, rs, ok) = fork_regions l0 (ei_regions img) k []
            in (k1, empty_image\<lparr>ei_regions := rs, ei_entry := if ok then ei_entry img else 0\<rparr>, ok))
      else (map_text L l0 k, empty_image, True))"

text \<open>The child's kernel stack: a copy of the trap frame with the result 0, and below it the switch frame.\<close>

definition fork_frames :: "linkage \<Rightarrow> nat \<Rightarrow> nat \<Rightarrow> ('w, 'z) machine_scheme \<Rightarrow> ('w, 'z) machine_scheme" where
  "fork_frames L frame ktop k =
     (let child = ktop - 688; switch = child - 160;
          m = store64 (memcpy (ram k) child frame 688) child 0
      in k\<lparr>ram := store64 (store64 (store64 m switch 0) (switch + 8) 0) (switch + 88) (fork_return L)\<rparr>)"

definition sched_fork :: "linkage \<Rightarrow> nat \<Rightarrow> nat \<Rightarrow> 'w kernel \<Rightarrow> ('w kernel \<times> int) option" where
  "sched_fork L parent frame k =
     (if parent = 0 \<or> frame = 0 then Some (k, -1)
      else do {
       (k1, t) \<leftarrow> alloc_task k;
       if t = 0 then Some (k1, -1)
       else (let (k2, kstack) = k_alloc_pages k1 TASK_STACK_PAGES in
         if kstack = 0 then do { k3 \<leftarrow> free_task_struct t k2; Some (k3, -1) }
         else (let ktop = u64 (phys_to_virt kstack + TASK_STACK_PAGES * PAGE_SIZE);
                   (k3, l0) = k_create_tables (k_zero kstack (TASK_STACK_PAGES * PAGE_SIZE) k2)
               in
           if l0 = 0 then drop_task kstack t k3
           else do {
             p \<leftarrow> tasks k3 parent;
             let (k4, img, ok) = fork_image L l0 (exec_image p) k3 in
             if \<not> ok then drop_task kstack t (k_free_tables l0 k4)
             else (let (k5, ustack) = k_alloc_pages k4 USER_STACK_PAGES in
               if ustack = 0 then drop_task kstack t (k_free_tables l0 k5)
               else (let k6 = map_stack l0 ustack (k_copy ustack (ustack_phys p) (USER_STACK_PAGES * PAGE_SIZE) k5);
                         (k7, grown) = fork_grown l0 (stack_grown p) k6 [];
                         (k8, tls) = k_alloc_page k7
                     in
                 if tls = 0 then drop_task kstack t (k_free_tables l0 (k_free_pages ustack USER_STACK_PAGES k8))
                 else (let k9 = fork_frames L frame ktop (k_map l0 USER_TLS_BASE tls 1 STACK_FLAGS (k_zero tls PAGE_SIZE k8)) in
                   do {
                     (k10, vs) \<leftarrow> fork_vmas l0 (vmas p) k9;
                     let (k11, asid) = sched_asid_alloc (k10\<lparr>next_pid := u64 (next_pid k10 + 1)\<rparr>) in
                     do {
                       (s, table) \<leftarrow> fd_table_clone (fs k11) (fds p);
                       let k12 = k11\<lparr>fs := s\<rparr> in
                       if table = 0
                       then drop_task kstack t (k_free_pages ustack USER_STACK_PAGES (k_free_tables l0 k12))
                       else do {
                         k13 \<leftarrow> upd_task t (\<lambda>x. x\<lparr>sp := ktop - 688 - 160, pid := next_pid k10, tstate := TASK_READY, stack_phys := kstack,
                                 ttbr0 := ttbr_pack (of_nat l0) asid, user_sp := user_sp p, kstack_top := ktop, ustack_phys := ustack,
                                 exec_image := img, tname := fork_name (tname p), fds := table, stack_grown := grown, vmas := vs,
                                 brk_base := brk_base p, brk_cur := brk_cur p, tls_phys := tls, ppid := pid p,
                                 tpidr_el0 := USER_TLS_BASE\<rparr>) k12;
                         k14 \<leftarrow> enqueue t k13;
                         Some (k14, to_int32 (next_pid k10))
                       }
                     }
                   })))
           }))
      })"

section \<open>Reaping\<close>

text \<open>The stacks, the segments and the grown stack pages of a task.\<close>

definition free_task_frames :: "task \<Rightarrow> ('w, 'z) machine_scheme \<Rightarrow> ('w, 'z) machine_scheme" where
  "free_task_frames x k =
     (let k1 = (if stack_phys x \<noteq> 0 then k_free_pages (stack_phys x) TASK_STACK_PAGES k else k);
          k2 = (if ustack_phys x \<noteq> 0 then k_free_pages (ustack_phys x) USER_STACK_PAGES k1 else k1);
          k3 = fold (\<lambda>r k. if er_phys r \<noteq> 0 \<and> er_pages r \<noteq> 0 then k_free_pages (er_phys r) (er_pages r) k else k)
                 (ei_regions (exec_image x)) k2
      in fold (\<lambda>(pa, va) k. if pa \<noteq> 0 then k_free_page pa k else k) (stack_grown x) k3)"

text \<open>The thread-local page and the translation tables.\<close>

definition free_task_tables :: "task \<Rightarrow> ('w, 'z) machine_scheme \<Rightarrow> ('w, 'z) machine_scheme" where
  "free_task_tables x k =
     (let k1 = (if tls_phys x \<noteq> 0 then k_free_page (tls_phys x) k else k) in
      if ttbr0 x \<noteq> 0
      then k_free_tables (user_l0 x)
             (if ttbr_asid (ttbr0 x) \<noteq> 0 then log_tlbi (Tlbi_aside1 (push_bit 48 (ucast (ttbr_asid (ttbr0 x))))) k1 else k1)
      else k1)"

definition sched_free_task :: "nat \<Rightarrow> 'w kernel \<Rightarrow> 'w kernel option" where
  "sched_free_task t k =
     do {
       x \<leftarrow> tasks k t;
       let k1 = free_task_frames x k in
       do {
         (v, _) \<leftarrow> vma_destroy (k_vm k1) (vmas x);
         let k2 = free_task_tables x (set_vm v k1) in
         do {
           s \<leftarrow> (if fds x \<noteq> 0 then fd_table_destroy (fs k2) (fds x) else Some (fs k2));
           free_task_struct t (k2\<lparr>fs := s\<rparr>)
         }
       }
     }"

partial_function (option) orphan_ring :: "nat \<Rightarrow> nat \<Rightarrow> nat \<Rightarrow> 'w kernel \<Rightarrow> 'w kernel option" where
  "orphan_ring pp head t k =
     (case tasks k t of
        None \<Rightarrow> None
      | Some x \<Rightarrow>
          (let k1 = (if ppid x = pp then k\<lparr>tasks := (tasks k)(t := Some (x\<lparr>ppid := 0\<rparr>))\<rparr> else k) in
           if tnext x \<noteq> 0 \<and> tnext x \<noteq> head then orphan_ring pp head (tnext x) k1 else Some k1))"

partial_function (option) orphan_dead :: "nat \<Rightarrow> nat \<Rightarrow> 'w kernel \<Rightarrow> 'w kernel option" where
  "orphan_dead pp d k =
     (if d = 0 then Some k
      else case tasks k d of
             None \<Rightarrow> None
           | Some x \<Rightarrow> orphan_dead pp (tnext x) (if ppid x = pp then k\<lparr>tasks := (tasks k)(d := Some (x\<lparr>ppid := 0\<rparr>))\<rparr> else k))"

definition sched_orphan_children :: "nat \<Rightarrow> 'w kernel \<Rightarrow> 'w kernel option" where
  "sched_orphan_children pp k =
     (if pp = 0 then Some k
      else do { k1 \<leftarrow> orphan_ring pp (idle_task k) (idle_task k) k; orphan_dead pp (dead_list k1) k1 })"

partial_function (option) reap_loop :: "nat \<Rightarrow> nat \<Rightarrow> 'w kernel \<Rightarrow> 'w kernel option" where
  "reap_loop prev c k =
     (if c = 0 then (if prev \<noteq> 0 then upd_task prev (\<lambda>y. y\<lparr>tnext := 0\<rparr>) k else Some k)
      else case tasks k c of
             None \<Rightarrow> None
           | Some x \<Rightarrow>
               if ppid x \<noteq> 0
               then Option.bind (if prev \<noteq> 0 then upd_task prev (\<lambda>y. y\<lparr>tnext := c\<rparr>) k else Some (k\<lparr>dead_list := c\<rparr>))
                      (\<lambda>k1. reap_loop c (tnext x) k1)
               else Option.bind (sched_orphan_children (pid x) k)
                      (\<lambda>k1. Option.bind (sched_free_task c k1) (\<lambda>k2. reap_loop prev (tnext x) k2)))"

definition sched_reap :: "'w kernel \<Rightarrow> 'w kernel option" where
  "sched_reap k = reap_loop 0 (dead_list k) (k\<lparr>dead_list := 0\<rparr>)"

section \<open>Switching\<close>

text \<open>
  \<^verbatim>\<open>context_switch\<close> as far as it touches the modelled state: the thread pointer register is saved
  in the old task, and a task with tables of its own has them and its thread pointer loaded.
\<close>

definition context_switch :: "nat \<Rightarrow> nat \<Rightarrow> 'w kernel \<Rightarrow> 'w kernel option" where
  "context_switch prev nxt k =
     do {
       k1 \<leftarrow> upd_task prev (\<lambda>x. x\<lparr>tpidr_el0 := tpidr k\<rparr>) k;
       y \<leftarrow> tasks k1 nxt;
       Some (if ttbr0 y = 0 then k1
             else k1\<lparr>mm := (mm k1)\<lparr>regs := (regs (mm k1))\<lparr>ttbr0_el1 := ttbr0 y\<rparr>\<rparr>, tpidr := tpidr_el0 y\<rparr>)
     }"

text \<open>The search for the next task: the task it stops at, and the idle task if it was seen ready.\<close>

partial_function (option) pick_loop :: "'w kernel \<Rightarrow> nat \<Rightarrow> nat \<Rightarrow> nat \<Rightarrow> (nat \<times> nat) option" where
  "pick_loop k prev nxt fallback =
     (if nxt = prev then Some (nxt, fallback)
      else case tasks k nxt of
             None \<Rightarrow> None
           | Some x \<Rightarrow>
               if tstate x = TASK_READY
               then (if nxt = idle_task k
                     then pick_loop k prev (tnext x) (if fallback = 0 then nxt else fallback)
                     else Some (nxt, fallback))
               else pick_loop k prev (tnext x) fallback)"

definition switch_to :: "nat \<Rightarrow> nat \<Rightarrow> 'w kernel \<Rightarrow> 'w kernel option" where
  "switch_to prev nxt k =
     do {
       p \<leftarrow> tasks k prev;
       k1 \<leftarrow> (if tstate p = TASK_RUNNING then upd_task prev (\<lambda>x. x\<lparr>tstate := TASK_READY\<rparr>) k
              else if tstate p = TASK_DEAD then unlink_dead prev id k
              else Some k);
       k2 \<leftarrow> upd_task nxt (\<lambda>x. x\<lparr>tstate := TASK_RUNNING\<rparr>) k1;
       context_switch prev nxt (k2\<lparr>current := nxt\<rparr>)
     }"

definition schedule :: "'w kernel \<Rightarrow> 'w kernel option" where
  "schedule k0 =
     do {
       k \<leftarrow> sched_reap k0;
       p \<leftarrow> tasks k (current k);
       (nxt, fallback) \<leftarrow> pick_loop k (current k) (tnext p) 0;
       if nxt = current k \<and> (fallback = 0 \<or> tstate p = TASK_RUNNING) then Some k
       else switch_to (current k) (if nxt = current k then fallback else nxt) k
     }"

definition yield :: "'w kernel \<Rightarrow> 'w kernel option" where
  "yield k = schedule k"

definition task_exit :: "int \<Rightarrow> 'w kernel \<Rightarrow> 'w kernel option" where
  "task_exit code k =
     do { k1 \<leftarrow> upd_task (current k) (\<lambda>x. x\<lparr>exit_code := code, tstate := TASK_DEAD\<rparr>) k; schedule k1 }"

section \<open>Killing, sleeping and waking\<close>

text \<open>The ring element with the given pid, or 0.\<close>

partial_function (option) kill_find :: "'w kernel \<Rightarrow> nat \<Rightarrow> nat \<Rightarrow> nat \<Rightarrow> nat option" where
  "kill_find k p head t =
     (case tasks k t of
        None \<Rightarrow> None
      | Some x \<Rightarrow> if pid x \<noteq> p then (if tnext x \<noteq> head then kill_find k p head (tnext x) else Some 0) else Some t)"

definition sched_kill_task :: "nat \<Rightarrow> 'w kernel \<Rightarrow> ('w kernel \<times> int) option" where
  "sched_kill_task p k =
     (if p = 0 then Some (k, -1)
      else do {
        t \<leftarrow> kill_find k p (idle_task k) (idle_task k);
        if t = 0 then Some (k, -1)
        else do {
          x \<leftarrow> tasks k t;
          if tstate x = TASK_DEAD then Some (k, -1)
          else if t = current k then do { k1 \<leftarrow> task_exit 0 k; Some (k1, 0) }
          else do { k1 \<leftarrow> unlink_dead t (\<lambda>x. x\<lparr>exit_code := -1\<rparr>) k; Some (k1, 0) }
        }
      })"

definition sleep_ms :: "nat \<Rightarrow> 'w kernel \<Rightarrow> 'w kernel option" where
  "sleep_ms ms k =
     (let needed = (if ms div TIMER_INTERVAL_MS = 0 then 1 else ms div TIMER_INTERVAL_MS) in
      do {
        k1 \<leftarrow> upd_task (current k) (\<lambda>x. x\<lparr>sleep_until := u64 (ticks k + needed), tstate := TASK_SLEEPING\<rparr>) k;
        schedule k1
      })"

partial_function (option) wake_loop :: "nat \<Rightarrow> 'w kernel \<Rightarrow> 'w kernel option" where
  "wake_loop t k =
     (if t = idle_task k then Some k
      else case tasks k t of
             None \<Rightarrow> None
           | Some x \<Rightarrow>
               wake_loop (tnext x)
                 (if tstate x = TASK_SLEEPING \<and> sleep_until x \<le> ticks k
                  then k\<lparr>tasks := (tasks k)(t := Some (x\<lparr>tstate := TASK_READY, sleep_until := 0\<rparr>))\<rparr> else k))"

definition sched_wake_sleepers :: "'w kernel \<Rightarrow> 'w kernel option" where
  "sched_wake_sleepers k = do { i \<leftarrow> tasks k (idle_task k); wake_loop (tnext i) k }"

section \<open>Waiting\<close>

definition wanted :: "int \<Rightarrow> nat \<Rightarrow> task \<Rightarrow> bool" where
  "wanted pid_arg parent_pid x \<longleftrightarrow> ppid x = parent_pid \<and> (pid_arg = -1 \<or> nat (pid_arg mod 2 ^ 64) = pid x)"

partial_function (option) child_ring :: "'w kernel \<Rightarrow> int \<Rightarrow> nat \<Rightarrow> nat \<Rightarrow> nat \<Rightarrow> nat \<Rightarrow> bool option" where
  "child_ring k pid_arg cur cur_pid head t =
     (case tasks k t of
        None \<Rightarrow> None
      | Some x \<Rightarrow>
          if t \<noteq> cur \<and> wanted pid_arg cur_pid x then Some True
          else if tnext x \<noteq> 0 \<and> tnext x \<noteq> head then child_ring k pid_arg cur cur_pid head (tnext x)
          else Some False)"

partial_function (option) child_dead :: "'w kernel \<Rightarrow> int \<Rightarrow> nat \<Rightarrow> nat \<Rightarrow> bool option" where
  "child_dead k pid_arg cur_pid d =
     (if d = 0 then Some False
      else case tasks k d of
             None \<Rightarrow> None
           | Some x \<Rightarrow> if wanted pid_arg cur_pid x then Some True else child_dead k pid_arg cur_pid (tnext x))"

definition has_matching_child :: "'w kernel \<Rightarrow> nat \<Rightarrow> int \<Rightarrow> bool option" where
  "has_matching_child k cur pid_arg =
     do {
       x \<leftarrow> tasks k cur;
       r \<leftarrow> child_ring k pid_arg cur (pid x) (idle_task k) (idle_task k);
       if r then Some True else child_dead k pid_arg (pid x) (dead_list k)
     }"

text \<open>The first matching corpse on the dead list and its predecessor; 0 for none.\<close>

partial_function (option) zombie_find :: "'w kernel \<Rightarrow> int \<Rightarrow> nat \<Rightarrow> nat \<Rightarrow> nat \<Rightarrow> (nat \<times> nat) option" where
  "zombie_find k pid_arg cur_pid prev c =
     (if c = 0 then Some (prev, 0)
      else case tasks k c of
             None \<Rightarrow> None
           | Some x \<Rightarrow> if wanted pid_arg cur_pid x then Some (prev, c) else zombie_find k pid_arg cur_pid c (tnext x))"

definition wait_status :: "int \<Rightarrow> int" where
  "wait_status code = (if code < 0 then 0x80 OR 11 else push_bit 8 (code AND 0xFF))"

text \<open>
  One round of the loop in \<^verbatim>\<open>sched_waitpid\<close>: the value and the status to return, or
  \<^term>\<open>None\<close> when the caller has to yield and try again.
\<close>

definition waitpid_round :: "int \<Rightarrow> nat \<Rightarrow> 'w kernel \<Rightarrow> ('w kernel \<times> (int \<times> int option) option) option" where
  "waitpid_round pid_arg options k =
     do {
       cur \<leftarrow> tasks k (current k);
       (prev, c) \<leftarrow> zombie_find k pid_arg (pid cur) 0 (dead_list k);
       if c \<noteq> 0
       then do {
         x \<leftarrow> tasks k c;
         k1 \<leftarrow> (if prev \<noteq> 0 then upd_task prev (\<lambda>y. y\<lparr>tnext := tnext x\<rparr>) k else Some (k\<lparr>dead_list := tnext x\<rparr>));
         k2 \<leftarrow> sched_free_task c k1;
         Some (k2, Some (int (pid x), Some (wait_status (exit_code x))))
       }
       else do {
         child \<leftarrow> has_matching_child k (current k) pid_arg;
         if \<not> child then Some (k, Some (-1, None))
         else if options AND WNOHANG \<noteq> 0 then Some (k, Some (0, None))
         else Some (k, None)
       }
     }"

text \<open>
  What the other tasks do between the yield and the moment the caller runs again is the parameter
  \<open>resume\<close>. The status goes to the caller's pointer if there is one.
\<close>

partial_function (option) waitpid_loop :: "('w kernel \<Rightarrow> 'w kernel option) \<Rightarrow> int \<Rightarrow> nat \<Rightarrow> 'w kernel \<Rightarrow>
    ('w kernel \<times> int \<times> int option) option" where
  "waitpid_loop resume pid_arg options k =
     Option.bind (waitpid_round pid_arg options k)
       (\<lambda>r. case r of
          (k1, Some res) \<Rightarrow> Some (k1, res)
        | (k1, None) \<Rightarrow>
            Option.bind (yield k1)
              (\<lambda>k2. Option.bind (resume k2) (\<lambda>k3. waitpid_loop resume pid_arg options k3)))"

definition sched_waitpid :: "('w kernel \<Rightarrow> 'w kernel option) \<Rightarrow> int \<Rightarrow> nat \<Rightarrow> 'w kernel \<Rightarrow> ('w kernel \<times> int \<times> int option) option" where
  "sched_waitpid resume pid_arg options k =
     (if current k = 0 then Some (k, -1, None)
      else if pid_arg < -1 then Some (k, -1, None)
      else waitpid_loop resume pid_arg options k)"

definition sched_current :: "'w kernel \<Rightarrow> nat" where
  "sched_current k = current k"

definition sched_first_task :: "'w kernel \<Rightarrow> nat" where
  "sched_first_task k = idle_task k"

fun task_state_name :: "task_state \<Rightarrow> string" where
  "task_state_name TASK_READY = ''READY''"
| "task_state_name TASK_RUNNING = ''RUNNING''"
| "task_state_name TASK_SLEEPING = ''SLEEPING''"
| "task_state_name TASK_DEAD = ''DEAD''"
| "task_state_name TASK_ZOMBIE = ''?''"

end
