(* ===== verification/Syscall.thy ===== *)
theory Syscall
  imports Sched "HOL-Library.Signed_Division"
begin

text \<open>
  The system call layer, \<^verbatim>\<open>src/src/syscall/syscall.c\<close>: the error slot, the checks on user pointers,
  the memory calls (\<^verbatim>\<open>mmap\<close>, \<^verbatim>\<open>munmap\<close>, \<^verbatim>\<open>mprotect\<close>, \<^verbatim>\<open>brk\<close>) and the
  structures of the Linux interface. The kernel reaches user memory through the tables that
  \<^verbatim>\<open>TTBR0_EL1\<close> names; an access to a page that is not mapped is a data abort taken from the kernel
  itself, which \<^verbatim>\<open>exception_dispatch\<close> answers with a panic, so such a call has no result.
\<close>

section \<open>Numbers\<close>

definition SYS_READ :: nat where "SYS_READ = 0"
definition SYS_WRITE :: nat where "SYS_WRITE = 1"
definition SYS_OPEN :: nat where "SYS_OPEN = 2"
definition SYS_CLOSE :: nat where "SYS_CLOSE = 3"
definition SYS_EXIT :: nat where "SYS_EXIT = 4"
definition SYS_YIELD :: nat where "SYS_YIELD = 5"
definition SYS_SLEEP :: nat where "SYS_SLEEP = 6"
definition SYS_GETPID :: nat where "SYS_GETPID = 7"
definition SYS_LSEEK :: nat where "SYS_LSEEK = 8"
definition SYS_UPTIME :: nat where "SYS_UPTIME = 9"
definition SYS_NET_PING :: nat where "SYS_NET_PING = 10"
definition SYS_KILL :: nat where "SYS_KILL = 11"
definition SYS_FORK :: nat where "SYS_FORK = 12"
definition SYS_EXEC :: nat where "SYS_EXEC = 13"
definition SYS_BALLOON :: nat where "SYS_BALLOON = 14"
definition SYS_BRK :: nat where "SYS_BRK = 214"
definition SYS_MUNMAP :: nat where "SYS_MUNMAP = 215"
definition SYS_MMAP :: nat where "SYS_MMAP = 222"
definition SYS_MPROTECT :: nat where "SYS_MPROTECT = 226"
definition SYS_WAITPID :: nat where "SYS_WAITPID = 260"

definition LNX_READ :: nat where "LNX_READ = 63"
definition LNX_WRITE :: nat where "LNX_WRITE = 64"
definition LNX_OPENAT :: nat where "LNX_OPENAT = 56"
definition LNX_CLOSE :: nat where "LNX_CLOSE = 57"
definition LNX_LSEEK :: nat where "LNX_LSEEK = 62"
definition LNX_NEWFSTATAT :: nat where "LNX_NEWFSTATAT = 79"
definition LNX_FSTAT :: nat where "LNX_FSTAT = 80"
definition LNX_GETDENTS64 :: nat where "LNX_GETDENTS64 = 61"
definition LNX_EXIT :: nat where "LNX_EXIT = 93"
definition LNX_EXIT_GROUP :: nat where "LNX_EXIT_GROUP = 94"
definition LNX_SET_TID_ADDRESS :: nat where "LNX_SET_TID_ADDRESS = 96"
definition LNX_NANOSLEEP :: nat where "LNX_NANOSLEEP = 101"
definition LNX_CLOCK_GETTIME :: nat where "LNX_CLOCK_GETTIME = 113"
definition LNX_ARCH_PRCTL :: nat where "LNX_ARCH_PRCTL = 158"
definition LNX_GETPID :: nat where "LNX_GETPID = 172"
definition LNX_GETRANDOM :: nat where "LNX_GETRANDOM = 278"
definition AT_FDCWD :: int where "AT_FDCWD = -100"

definition ENOENT :: nat where "ENOENT = 2"
definition EIO :: nat where "EIO = 5"
definition EBADF :: nat where "EBADF = 9"
definition ECHILD :: nat where "ECHILD = 10"
definition ENOMEM :: nat where "ENOMEM = 12"
definition EACCES :: nat where "EACCES = 13"
definition EFAULT :: nat where "EFAULT = 14"
definition ENOTDIR :: nat where "ENOTDIR = 20"
definition EINVAL :: nat where "EINVAL = 22"
definition ENOSYS :: nat where "ENOSYS = 38"
definition EOPNOTSUPP :: nat where "EOPNOTSUPP = 95"

definition USER_VA_TOP :: nat where "USER_VA_TOP = 0x40000000"
definition USER_MMAP_BASE :: nat where "USER_MMAP_BASE = 0x01000000"
definition USER_BRK_RESERVE_PAGES :: nat where "USER_BRK_RESERVE_PAGES = 4096"
definition USER_PATH_MAX :: nat where "USER_PATH_MAX = 4096"
definition MM_MAX_USER_VA :: nat where "MM_MAX_USER_VA = USER_VA_TOP"

definition MAP_SHARED :: nat where "MAP_SHARED = 0x01"
definition MAP_PRIVATE :: nat where "MAP_PRIVATE = 0x02"
definition MAP_FIXED :: nat where "MAP_FIXED = 0x10"
definition MAP_ANONYMOUS :: nat where "MAP_ANONYMOUS = 0x20"
definition VMA_ANONYMOUS :: nat where "VMA_ANONYMOUS = 1"
definition VMA_SHARED :: nat where "VMA_SHARED = 2"

section \<open>The error slot\<close>

definition task_errno_slot :: "task \<Rightarrow> nat option" where
  "task_errno_slot x = (if tls_phys x = 0 then None else Some (phys_to_virt (tls_phys x) + TLS_ERRNO_OFFSET))"

text \<open>The current task as the calls see it: there is none while the pointer is 0.\<close>

definition fail :: "nat \<Rightarrow> 'w kernel \<Rightarrow> ('w kernel \<times> int) option" where
  "fail err k =
     (if current k = 0 then Some (k, -1)
      else case tasks k (current k) of
             None \<Rightarrow> None
           | Some x \<Rightarrow>
               (case task_errno_slot x of
                  None \<Rightarrow> Some (k, -1)
                | Some slot \<Rightarrow> Some (k\<lparr>ram := store32 (ram k) slot err\<rparr>, -1)))"

definition syscall_reset_errno :: "task \<Rightarrow> ('w, 'z) machine_scheme \<Rightarrow> ('w, 'z) machine_scheme" where
  "syscall_reset_errno x k = clear_errno (tls_phys x) k"

section \<open>User memory\<close>

definition active_l0 :: "('w, 'z) machine_scheme \<Rightarrow> nat" where
  "active_l0 k = unat (ttbr_baddr (ttbr0_el1 (regs (mm k))))"

text \<open>A byte at a virtual address as the kernel loads it, in either half of the address space.\<close>

definition va_load :: "('w, 'z) machine_scheme \<Rightarrow> nat \<Rightarrow> 8 word option" where
  "va_load k va =
     (if KERNEL_VA_OFFSET \<le> va then Some (ram k va)
      else map_option (\<lambda>pa. ram k (phys_to_virt pa)) (translate (k_mmu k) (active_l0 k) va))"

text \<open>A store needs a mapping that the kernel may write, that is one without the read-only bit.\<close>

definition va_store :: "nat \<Rightarrow> 8 word \<Rightarrow> ('w, 'z) machine_scheme \<Rightarrow> ('w, 'z) machine_scheme option" where
  "va_store va b k =
     (if KERNEL_VA_OFFSET \<le> va then Some (k\<lparr>ram := (ram k)(va := b)\<rparr>)
      else case pte (k_mmu k) (active_l0 k) va of
             None \<Rightarrow> None
           | Some e \<Rightarrow>
               if e AND PTE_AP_RO \<noteq> 0 then None
               else Some (k\<lparr>ram := (ram k)(phys_to_virt (unat (e AND PTE_ADDR_MASK) + va mod 4096) := b)\<rparr>))"

definition load_bytes :: "('w, 'z) machine_scheme \<Rightarrow> nat \<Rightarrow> nat \<Rightarrow> 8 word list option" where
  "load_bytes k va n = those (map (va_load k) [va..<va + n])"

fun store_bytes :: "nat \<Rightarrow> 8 word list \<Rightarrow> ('w, 'z) machine_scheme \<Rightarrow> ('w, 'z) machine_scheme option" where
  "store_bytes va [] k = Some k"
| "store_bytes va (b # bs) k = Option.bind (va_store va b k) (store_bytes (va + 1) bs)"

definition le_bytes :: "nat \<Rightarrow> nat \<Rightarrow> 8 word list" where
  "le_bytes n v = map (\<lambda>i. of_nat (v div 256 ^ i)) [0..<n]"

definition le_nat :: "8 word list \<Rightarrow> nat" where
  "le_nat bs = foldr (\<lambda>b n. unat b + 256 * n) bs 0"

definition load_word :: "('w, 'z) machine_scheme \<Rightarrow> nat \<Rightarrow> nat option" where
  "load_word k va = map_option le_nat (load_bytes k va 8)"

definition u64_of :: "int \<Rightarrow> nat" where
  "u64_of v = nat (v mod 2 ^ 64)"

section \<open>Checks on user pointers\<close>

definition user_buf_ok :: "nat \<Rightarrow> nat \<Rightarrow> bool" where
  "user_buf_ok p len \<longleftrightarrow>
     (if len = 0 then True
      else if u64 (p + len) < p then False
      else if USER_VA_TOP < u64 (p + len) then False
      else True)"

fun str_scan :: "('w, 'z) machine_scheme \<Rightarrow> nat \<Rightarrow> nat \<Rightarrow> nat \<Rightarrow> int option" where
  "str_scan k p i 0 = Some (-1)"
| "str_scan k p i (Suc n) =
     (case va_load k (p + i) of
        None \<Rightarrow> None
      | Some c \<Rightarrow> if c = 0 then Some (int i) else str_scan k p (Suc i) n)"

definition user_str_ok :: "('w, 'z) machine_scheme \<Rightarrow> nat \<Rightarrow> int option" where
  "user_str_ok k p =
     (if USER_VA_TOP \<le> p then Some (-1)
      else str_scan k p 0 (if USER_PATH_MAX < USER_VA_TOP - p then USER_PATH_MAX else USER_VA_TOP - p))"

text \<open>The string behind a pointer, as the callee reads it up to the terminator.\<close>

partial_function (option) read_cstr :: "('w, 'z) machine_scheme \<Rightarrow> nat \<Rightarrow> string option" where
  "read_cstr k p =
     (case va_load k p of
        None \<Rightarrow> None
      | Some c \<Rightarrow> if c = 0 then Some [] else Option.bind (read_cstr k (p + 1)) (\<lambda>s. Some (char_of (unat c) # s)))"

section \<open>Memory mappings\<close>

definition mmap_range_ok :: "nat \<Rightarrow> nat \<Rightarrow> bool" where
  "mmap_range_ok start fin \<longleftrightarrow> \<not> fin \<le> start \<and> \<not> MM_MAX_USER_VA < fin"

partial_function (option) find_free_from :: "vma list \<Rightarrow> nat \<Rightarrow> nat \<Rightarrow> nat option" where
  "find_free_from vs len candidate =
     (if u64 (candidate + len) \<le> MM_MAX_USER_VA
      then (case vma_find_overlap vs candidate (u64 (candidate + len)) of
              None \<Rightarrow> Some candidate
            | Some hit \<Rightarrow> find_free_from vs len (page_align_up (vend hit)))
      else Some 0)"

definition mmap_find_free :: "vma list \<Rightarrow> nat \<Rightarrow> nat option" where
  "mmap_find_free vs len = find_free_from vs len USER_MMAP_BASE"

text \<open>The range to map, or the error code.\<close>

definition mmap_range :: "vma list \<Rightarrow> nat \<Rightarrow> nat \<Rightarrow> nat \<Rightarrow> (nat + nat \<times> nat) option" where
  "mmap_range vs addr len flags =
     (if flags AND MAP_FIXED \<noteq> 0
      then Some (if addr mod PAGE_SIZE \<noteq> 0 then Inl EINVAL
                 else if \<not> mmap_range_ok addr (u64 (addr + len)) then Inl EINVAL
                 else if vma_find_overlap vs addr (u64 (addr + len)) \<noteq> None then Inl EINVAL
                 else Inr (addr, u64 (addr + len)))
      else (let want = page_align_up len in
            if want < len then Some (Inl ENOMEM)
            else do {
              start \<leftarrow> mmap_find_free vs want;
              Some (if start = 0 then Inl ENOMEM
                    else if \<not> mmap_range_ok start (u64 (start + want)) then Inl ENOMEM
                    else Inr (start, u64 (start + want)))
            }))"

definition sys_mmap :: "nat \<Rightarrow> nat \<Rightarrow> nat \<Rightarrow> nat \<Rightarrow> nat \<Rightarrow> nat \<Rightarrow> 'w kernel \<Rightarrow> ('w kernel \<times> int) option" where
  "sys_mmap addr len prot flags fd offset k =
     (if current k = 0 then fail EINVAL k
      else do {
        x \<leftarrow> tasks k (current k);
        if ttbr0 x = 0 then fail EINVAL k
        else if prot div 8 \<noteq> 0 then fail EINVAL k
        else if flags AND MAP_SHARED \<noteq> 0 then fail EOPNOTSUPP k
        else if flags AND MAP_ANONYMOUS = 0 then fail EOPNOTSUPP k
        else if offset \<noteq> 0 \<or> fd \<noteq> 2 ^ 64 - 1 then fail EINVAL k
        else if len = 0 then fail EINVAL k
        else do {
          r \<leftarrow> mmap_range (vmas x) addr len flags;
          case r of
            Inl e \<Rightarrow> fail e k
          | Inr (start, fin) \<Rightarrow>
              do {
                (v, vs, area) \<leftarrow> vma_add (k_vm k) (vmas x) start fin prot (VMA_ANONYMOUS OR VMA_SHARED);
                k1 \<leftarrow> upd_task (current k) (\<lambda>x. x\<lparr>vmas := vs\<rparr>) (set_vm v k);
                if area = None then fail ENOMEM k1 else Some (k1, int start)
              }
        }
      })"

text \<open>The end of the last page that \<open>[addr, addr + len)\<close> touches, after the guard against overflow.\<close>

definition range_end :: "nat \<Rightarrow> nat \<Rightarrow> nat option" where
  "range_end addr len =
     (if MM_MAX_USER_VA < len \<or> MM_MAX_USER_VA - len < addr then None
      else (let fin = page_align_down (addr + len - 1) + PAGE_SIZE in
            if MM_MAX_USER_VA < fin then None else Some fin))"

definition sys_munmap :: "nat \<Rightarrow> nat \<Rightarrow> 'w kernel \<Rightarrow> ('w kernel \<times> int) option" where
  "sys_munmap addr len k =
     (if current k = 0 then fail EINVAL k
      else do {
        x \<leftarrow> tasks k (current k);
        if ttbr0 x = 0 then fail EINVAL k
        else if addr mod PAGE_SIZE \<noteq> 0 \<or> len = 0 then fail EINVAL k
        else if addr = 0 then Some (k, 0)
        else case range_end addr len of
          None \<Rightarrow> fail EINVAL k
        | Some fin \<Rightarrow>
            do {
              (v, vs, released) \<leftarrow> vma_unmap_range (k_vm k) (vmas x) addr fin;
              k1 \<leftarrow> upd_task (current k) (\<lambda>x. x\<lparr>vmas := vs\<rparr>) (set_vm v k);
              if released = None then fail ENOMEM k1
              else do { k2 \<leftarrow> k_unmap (user_l0 x) addr ((fin - addr) div PAGE_SIZE) k1; Some (k2, 0) }
            }
      })"

definition sys_mprotect :: "nat \<Rightarrow> nat \<Rightarrow> nat \<Rightarrow> 'w kernel \<Rightarrow> ('w kernel \<times> int) option" where
  "sys_mprotect addr len prot k =
     (if current k = 0 then fail EINVAL k
      else do {
        x \<leftarrow> tasks k (current k);
        if ttbr0 x = 0 then fail EINVAL k
        else if addr mod PAGE_SIZE \<noteq> 0 \<or> len = 0 then fail EINVAL k
        else if prot div 8 \<noteq> 0 then fail EINVAL k
        else if addr = 0 then Some (k, 0)
        else case range_end addr len of
          None \<Rightarrow> fail EINVAL k
        | Some fin \<Rightarrow>
            do {
              (v, vs, touched) \<leftarrow> vma_protect_range (k_vm k) (vmas x) addr fin prot;
              k1 \<leftarrow> upd_task (current k) (\<lambda>x. x\<lparr>vmas := vs\<rparr>) (set_vm v k);
              if touched = None then fail ENOMEM k1
              else do {
                (k2, _) \<leftarrow> k_protect (user_l0 x) addr ((fin - addr) div PAGE_SIZE) (mmu_prot_to_flags (of_nat prot)) k1;
                Some (k2, 0)
              }
            }
      })"

section \<open>The program break\<close>

text \<open>The area containing the break, extended to \<open>new_end\<close>; the result says whether memory sufficed.\<close>

definition brk_extend :: "nat \<Rightarrow> nat \<Rightarrow> vma \<Rightarrow> vm \<Rightarrow> vma list \<Rightarrow> (vm \<times> vma list \<times> bool) option" where
  "brk_extend cur new_end v s vs =
     (let old_n = sub64 (vend v) (vstart v) div PAGE_SIZE; grow_n = sub64 new_end (vend v) div PAGE_SIZE in
      do {
        (s1, bigger) \<leftarrow> vm_kmalloc s (u64 (u64 (old_n + grow_n) * 8));
        if bigger = 0 then Some (s1, vs, False)
        else (let s2 = vm_write bigger (vm_read s1 (vpages v) old_n @ replicate grow_n 0) s1 in
              do {
                s3 \<leftarrow> vm_kfree s2 (vpages v);
                Some (s3, vma_update (\<lambda>v. v\<lparr>vpages := bigger, vend := new_end\<rparr>) cur vs, True)
              })
      })"

text \<open>The areas after the break moved to \<open>addr\<close>; \<^term>\<open>False\<close> is the early return of the unchanged break.\<close>

definition brk_areas :: "task \<Rightarrow> nat \<Rightarrow> vm \<Rightarrow> (vm \<times> vma list \<times> bool) option" where
  "brk_areas x addr s =
     (let new_end = page_align_up addr in
      case vma_find (vmas x) (brk_cur x) of
        None \<Rightarrow>
          if brk_base x < new_end
          then do {
            (s1, vs, _) \<leftarrow> vma_add s (vmas x) (brk_base x) new_end 3 VMA_ANONYMOUS;
            Some (s1, vs, True)
          }
          else Some (s, vmas x, True)
      | Some v \<Rightarrow>
          if vend v < new_end then brk_extend (brk_cur x) new_end v s (vmas x) else Some (s, vmas x, True))"

text \<open>With no current task the code reads the break through the null pointer.\<close>

definition sys_brk :: "nat \<Rightarrow> 'w kernel \<Rightarrow> ('w kernel \<times> int) option" where
  "sys_brk addr k =
     do {
       x \<leftarrow> (if current k = 0 then None else tasks k (current k));
       if ttbr0 x = 0 then Some (k, i64 (int (brk_cur x)))
       else if addr = 0 then Some (k, i64 (int (brk_cur x)))
       else if addr < brk_base x \<or> u64 (brk_base x + USER_BRK_RESERVE_PAGES * PAGE_SIZE) < addr then Some (k, i64 (int (brk_cur x)))
       else if addr < brk_cur x then Some (k, i64 (int (brk_cur x)))
       else do {
         (v, vs, ok) \<leftarrow> brk_areas x addr (k_vm k);
         k1 \<leftarrow> upd_task (current k) (\<lambda>x. x\<lparr>vmas := vs, brk_cur := if ok then addr else brk_cur x\<rparr>) (set_vm v k);
         Some (k1, i64 (int (if ok then addr else brk_cur x)))
       }
     }"

section \<open>File status\<close>

record linux_stat =
  st_dev :: nat
  st_ino :: nat
  st_mode :: nat
  st_nlink :: nat
  st_uid :: nat
  st_gid :: nat
  st_rdev :: nat
  st_size :: int
  st_blksize :: int
  st_blocks :: int

definition LNX_S_IFREG :: nat where "LNX_S_IFREG = 0x8000"
definition LNX_S_IFDIR :: nat where "LNX_S_IFDIR = 0x4000"
definition LNX_S_IFCHR :: nat where "LNX_S_IFCHR = 0x2000"
definition LNX_S_IFBLK :: nat where "LNX_S_IFBLK = 0x6000"

text \<open>Read and write for everybody, and search for directories.\<close>

definition stat_type :: "vnode_type \<Rightarrow> nat" where
  "stat_type t =
     (case t of VNODE_DIR \<Rightarrow> LNX_S_IFDIR | VNODE_CHR \<Rightarrow> LNX_S_IFCHR | VNODE_BLK \<Rightarrow> LNX_S_IFBLK | _ \<Rightarrow> LNX_S_IFREG)"

definition stat_perm :: "vnode_type \<Rightarrow> nat" where
  "stat_perm t =
     (let perm = 0x100 OR 0x80 OR 0x20 OR 0x4 OR 0x10 OR 0x2 in
      if t = VNODE_DIR then perm OR 0x40 OR 0x8 OR 0x1 else perm)"

definition fill_linux_stat :: "nat \<Rightarrow> vnode \<Rightarrow> linux_stat" where
  "fill_linux_stat i v =
     \<lparr>st_dev = 0, st_ino = i, st_mode = stat_type (vtype v) OR stat_perm (vtype v), st_nlink = 1, st_uid = 0, st_gid = 0,
      st_rdev = 0, st_size = i64 (int (vsize v)), st_blksize = int PAGE_SIZE,
      st_blocks = i64 (i64 (int (vsize v)) + 511) sdiv 512\<rparr>"

text \<open>The 128 bytes the caller receives; the padding, the times and the reserved words are 0.\<close>

definition stat_bytes :: "linux_stat \<Rightarrow> 8 word list" where
  "stat_bytes st =
     le_bytes 8 (st_dev st) @ le_bytes 8 (st_ino st) @ le_bytes 4 (st_mode st) @ le_bytes 4 (st_nlink st) @
     le_bytes 4 (st_uid st) @ le_bytes 4 (st_gid st) @ le_bytes 8 (st_rdev st) @ le_bytes 8 0 @
     le_bytes 8 (u64_of (st_size st)) @ le_bytes 4 (u64_of (st_blksize st)) @ le_bytes 4 0 @
     le_bytes 8 (u64_of (st_blocks st)) @ le_bytes 56 0"

definition translate_linux_syscall :: "nat \<Rightarrow> nat" where
  "translate_linux_syscall num =
     (if num = LNX_READ then SYS_READ
      else if num = LNX_WRITE then SYS_WRITE
      else if num = LNX_CLOSE then SYS_CLOSE
      else if num = LNX_LSEEK then SYS_LSEEK
      else if num = LNX_EXIT then SYS_EXIT
      else if num = LNX_EXIT_GROUP then SYS_EXIT
      else if num = LNX_GETPID then SYS_GETPID
      else num)"

end
