(* ===== verification/Exec.thy ===== *)
theory Exec
  imports Syscall
begin

text \<open>
  \<^verbatim>\<open>sys_exec\<close> of \<^verbatim>\<open>src/src/syscall/syscall.c\<close>: capturing the arguments, laying out the initial
  stack, loading the file, and replacing the caller's address space. The devices are reached through
  the record \<open>periph\<close>: \<open>io_bytes\<close> gives the bytes that a driver has stored at a kernel address,
  \<open>p_rng_read\<close> the answer of the entropy device, and the others the answers of the network and
  balloon devices.
\<close>

section \<open>Devices\<close>

record 'w periph =
  io_bytes :: "'w \<Rightarrow> nat \<Rightarrow> 8 word"
  p_rng_read :: "'w \<Rightarrow> nat \<Rightarrow> 'w \<times> 8 word list option"
  p_send_ping :: "'w \<Rightarrow> nat \<Rightarrow> 'w \<times> int"
  p_rx_poll :: "'w \<Rightarrow> nat \<Rightarrow> 'w \<times> 8 word list"
  p_inflate :: "nat \<Rightarrow> 'w kernel \<Rightarrow> 'w kernel \<times> int"
  p_deflate :: "nat \<Rightarrow> 'w kernel \<Rightarrow> 'w kernel \<times> int"
  p_balloon_status :: "'w \<Rightarrow> nat \<times> nat"

definition set_world :: "'w \<Rightarrow> ('w, 'z) machine_scheme \<Rightarrow> ('w, 'z) machine_scheme" where
  "set_world w k = k\<lparr>fs := (fs k)\<lparr>world := w\<rparr>\<rparr>"

section \<open>Arguments\<close>

definition EXEC_MAX_BYTES :: nat where "EXEC_MAX_BYTES = 2 ^ 20"
definition EXEC_MAX_ARGC :: nat where "EXEC_MAX_ARGC = 32"
definition EXEC_ARG_BYTES_MAX :: nat where "EXEC_ARG_BYTES_MAX = 1024"

text \<open>
  The loop over the argument vector: the string bytes collected so far and the offset of each string
  in them. The inner \<^term>\<open>None\<close> is the return of -1; the number is what is left of the limit.
\<close>

fun exec_args :: "('w, 'z) machine_scheme \<Rightarrow> nat \<Rightarrow> nat \<Rightarrow> 8 word list \<Rightarrow> nat list \<Rightarrow> (8 word list \<times> nat list) option option" where
  "exec_args k argv 0 blob offs = Some (Some (blob, offs))"
| "exec_args k argv (Suc n) blob offs =
     (let slot_va = u64 (argv + length offs * 8) in
      if \<not> user_buf_ok slot_va 8 then Some None
      else do {
        p \<leftarrow> load_word k slot_va;
        if p = 0 then Some (Some (blob, offs))
        else do {
          len \<leftarrow> user_str_ok k p;
          if len < 0 then Some None
          else if EXEC_ARG_BYTES_MAX < length blob + nat len + 1 then Some None
          else do {
            bs \<leftarrow> load_bytes k p (nat len + 1);
            exec_args k argv n (blob @ bs) (offs @ [length blob])
          }
        }
      })"

definition capture_argv :: "('w, 'z) machine_scheme \<Rightarrow> nat \<Rightarrow> (8 word list \<times> nat list) option option" where
  "capture_argv k argv = (if argv = 0 then Some (Some ([], [])) else exec_args k argv EXEC_MAX_ARGC [] [])"

section \<open>The initial stack\<close>

definition aux_max :: nat where "aux_max = 17"
definition aux_random_size :: nat where "aux_random_size = 16"

definition stack_user_lo :: nat where "stack_user_lo = USER_STACK_TOP - USER_STACK_PAGES * PAGE_SIZE"

definition envp_off :: "nat \<Rightarrow> nat" where
  "envp_off argc = 8 + (argc + 1) * 8"

definition auxv_off :: "nat \<Rightarrow> nat" where
  "auxv_off argc = envp_off argc + 8"

definition auxv_base :: "nat \<Rightarrow> nat" where
  "auxv_base argc = (auxv_off argc + aux_max * 16 + 15) div 16 * 16"

definition strings_lo :: "nat \<Rightarrow> nat" where
  "strings_lo arg_bytes = (USER_STACK_TOP - arg_bytes - aux_random_size) div 16 * 16"

definition new_sp :: "nat \<Rightarrow> nat \<Rightarrow> nat" where
  "new_sp argc arg_bytes = sub64 (strings_lo arg_bytes) (auxv_base argc)"

definition AT_NULL :: nat where "AT_NULL = 0"
definition AT_PHDR :: nat where "AT_PHDR = 3"
definition AT_PHENT :: nat where "AT_PHENT = 4"
definition AT_PHNUM :: nat where "AT_PHNUM = 5"
definition AT_PAGESZ :: nat where "AT_PAGESZ = 6"
definition AT_BASE :: nat where "AT_BASE = 7"
definition AT_FLAGS :: nat where "AT_FLAGS = 8"
definition AT_ENTRY :: nat where "AT_ENTRY = 9"
definition AT_UID :: nat where "AT_UID = 11"
definition AT_EUID :: nat where "AT_EUID = 12"
definition AT_GID :: nat where "AT_GID = 13"
definition AT_EGID :: nat where "AT_EGID = 14"
definition AT_HWCAP :: nat where "AT_HWCAP = 16"
definition AT_CLKTCK :: nat where "AT_CLKTCK = 17"
definition AT_SECURE :: nat where "AT_SECURE = 23"
definition AT_RANDOM :: nat where "AT_RANDOM = 25"
definition AT_EXECFN :: nat where "AT_EXECFN = 31"

definition aux_put :: "nat \<Rightarrow> memory \<times> nat \<Rightarrow> nat \<Rightarrow> nat \<Rightarrow> memory \<times> nat" where
  "aux_put base mi type val =
     (case mi of (m, i) \<Rightarrow> (store64 (store64 m (base + i * 16) type) (base + i * 16 + 8) val, i + 1))"

definition aux_entries :: "elf_image \<Rightarrow> nat \<Rightarrow> nat \<Rightarrow> nat \<Rightarrow> (nat \<times> nat) list" where
  "aux_entries img argc random_va strings =
     [(AT_PHDR, ei_phdr_va img), (AT_PHENT, ei_phentsize img), (AT_PHNUM, ei_phnum img), (AT_PAGESZ, PAGE_SIZE),
      (AT_BASE, 0), (AT_FLAGS, 0), (AT_ENTRY, ei_entry img), (AT_UID, 0), (AT_EUID, 0), (AT_GID, 0), (AT_EGID, 0),
      (AT_HWCAP, 0), (AT_CLKTCK, 100), (AT_SECURE, 0), (AT_RANDOM, random_va)] @
     (if 0 < argc then [(AT_EXECFN, strings)] else []) @ [(AT_NULL, 0)]"

definition write_auxv :: "nat \<Rightarrow> (nat \<times> nat) list \<Rightarrow> memory \<Rightarrow> memory" where
  "write_auxv base es m =
     (case fold (\<lambda>(t, v) mi. aux_put base mi t v) es (m, 0) of
        (m1, ai) \<Rightarrow> fold (\<lambda>i m. store64 (store64 m (base + i * 16) 0) (base + i * 16 + 8) 0) [ai..<aux_max] m1)"

definition write_blob :: "nat \<Rightarrow> 8 word list \<Rightarrow> memory \<Rightarrow> memory" where
  "write_blob a bs m = (\<lambda>b. if a \<le> b \<and> b < a + length bs then bs ! (b - a) else m b)"

definition write_argv :: "nat \<Rightarrow> nat \<Rightarrow> nat list \<Rightarrow> memory \<Rightarrow> memory" where
  "write_argv base strings offs m =
     store64 (fold (\<lambda>i m. store64 m (base + i * 8) (strings + offs ! i)) [0..<length offs] m) (base + length offs * 8) 0"

text \<open>
  Everything is stored through the kernel's alias of the stack pages, whose lowest byte is at
  \<open>kbase\<close>; \<open>rnd\<close> are the bytes the entropy device delivered.
\<close>

definition build_stack :: "nat \<Rightarrow> 8 word list \<Rightarrow> nat list \<Rightarrow> 8 word list \<Rightarrow> elf_image \<Rightarrow> memory \<Rightarrow> memory" where
  "build_stack kbase blob offs rnd img m =
     (let argc = length offs; lo = strings_lo (length blob); sp0 = new_sp argc (length blob);
          random_va = lo + length blob;
          m1 = write_blob (kbase + (lo - stack_user_lo)) blob m;
          m2 = write_blob (kbase + (random_va - stack_user_lo)) rnd
                 (memset m1 (kbase + (random_va - stack_user_lo)) 0 aux_random_size);
          spk = kbase + (sp0 - stack_user_lo);
          m3 = write_argv (spk + 8) lo offs (store64 m2 spk argc);
          m4 = store64 m3 (spk + envp_off argc) 0
      in write_auxv (spk + auxv_off argc) (aux_entries img argc random_va lo) m4)"

section \<open>Loading the file\<close>

text \<open>The file read into a kernel buffer: its address and size, or 0 after a failure.\<close>

definition exec_slurp :: "'w drivers \<Rightarrow> 'w periph \<Rightarrow> nat \<Rightarrow> string \<Rightarrow> 'w kernel \<Rightarrow> ('w kernel \<times> nat \<times> nat) option" where
  "exec_slurp D P t path k =
     do {
       (s1, fd) \<leftarrow> fd_open D (fs k) t path;
       if fd < 0 then Some (k\<lparr>fs := s1\<rparr>, 0, 0)
       else (let (s2, fsize) = fd_seek s1 t fd 0 2; (s3, _) = fd_seek s2 t fd 0 0 in
         if fsize \<le> 0 \<or> int EXEC_MAX_BYTES < fsize
         then do { (s4, _) \<leftarrow> fd_close s3 t fd; Some (k\<lparr>fs := s4\<rparr>, 0, 0) }
         else do {
           (k1, kbuf) \<leftarrow> k_kmalloc (k\<lparr>fs := s3\<rparr>) (nat fsize);
           if kbuf = 0 then do { (s4, _) \<leftarrow> fd_close (fs k1) t fd; Some (k1\<lparr>fs := s4\<rparr>, 0, 0) }
           else do {
             (s4, got) \<leftarrow> fd_read D (fs k1) t fd kbuf (nat fsize);
             let k2 = k1\<lparr>ram := write_blob kbuf (map (io_bytes P (world s4)) [kbuf..<kbuf + nat got]) (ram k1)\<rparr> in
             do {
               (s5, _) \<leftarrow> fd_close s4 t fd;
               if got \<noteq> fsize then do { k3 \<leftarrow> k_kfree kbuf (k2\<lparr>fs := s5\<rparr>); Some (k3, 0, 0) }
               else Some (k2\<lparr>fs := s5\<rparr>, kbuf, nat fsize)
             }
           }
         })
     }"

text \<open>The new address space: its tables, stack, image and thread page; 0 tables after a failure.\<close>

definition exec_space :: "nat \<Rightarrow> nat \<Rightarrow> 'w kernel \<Rightarrow> ('w kernel \<times> nat \<times> nat \<times> elf_image \<times> nat) option" where
  "exec_space kbuf fsize k =
     (let (k1, stack) = k_alloc_pages k USER_STACK_PAGES; none = (0, 0, empty_image, 0) in
      if stack = 0 then do { k2 \<leftarrow> k_kfree kbuf k1; Some (k2, none) }
      else (let (k3, l0) = k_create_tables (k_zero stack (USER_STACK_PAGES * PAGE_SIZE) k1) in
        if l0 = 0 then do { k4 \<leftarrow> k_kfree kbuf (k_free_pages stack USER_STACK_PAGES k3); Some (k4, none) }
        else (case elf_load kbuf fsize l0 empty_image k3 of
          (k4, img, ok) \<Rightarrow>
            if \<not> ok then do { k5 \<leftarrow> k_kfree kbuf (k_free_pages stack USER_STACK_PAGES (k_free_tables l0 k4)); Some (k5, none) }
            else do {
              k5 \<leftarrow> k_kfree kbuf k4;
              let (k6, tls) = k_alloc_page (map_stack l0 stack k5) in
              if tls = 0
              then Some (fst (free_regions img (k_free_pages stack USER_STACK_PAGES (k_free_tables l0 k6))), none)
              else Some (k_map l0 USER_TLS_BASE tls 1 STACK_FLAGS (k_zero tls PAGE_SIZE k6), l0, stack, img, tls)
            })))"

text \<open>Switching the calling task over to the new space.\<close>

definition exec_swap :: "nat \<Rightarrow> nat \<Rightarrow> elf_image \<Rightarrow> nat \<Rightarrow> 'w kernel \<Rightarrow> 'w kernel option" where
  "exec_swap l0 stack img tls k =
     do {
       x \<leftarrow> tasks k (current k);
       let (k1, asid) = sched_asid_alloc k; ttbr = ttbr_pack (of_nat l0) asid in
       do {
         (v, _) \<leftarrow> vma_destroy (k_vm k1) (vmas x);
         k2 \<leftarrow> upd_task (current k) (\<lambda>x. x\<lparr>ttbr0 := ttbr, ustack_phys := stack, tls_phys := tls, tpidr_el0 := USER_TLS_BASE,
                 user_sp := USER_STACK_TOP, exec_image := img, vmas := vma_init, brk_base := USER_BRK_BASE,
                 brk_cur := USER_BRK_BASE, stack_grown := []\<rparr>) (set_vm v k1);
         Some (k2\<lparr>mm := (mm k2)\<lparr>regs := (regs (mm k2))\<lparr>ttbr0_el1 := ttbr\<rparr>\<rparr>\<rparr>)
       }
     }"

text \<open>The old image of the task \<open>x\<close>, released after the switch.\<close>

definition exec_release :: "task \<Rightarrow> 'w kernel \<Rightarrow> 'w kernel" where
  "exec_release x k =
     (let k1 = (if ustack_phys x \<noteq> 0 then k_free_pages (ustack_phys x) USER_STACK_PAGES k else k);
          k2 = (if tls_phys x \<noteq> 0 then k_free_page (tls_phys x) k1 else k1);
          k3 = fst (free_regions (exec_image x) k2)
      in if ttbr0 x \<noteq> 0
         then k_free_tables (user_l0 x)
                (if ttbr_asid (ttbr0 x) \<noteq> 0 then log_tlbi (Tlbi_aside1 (push_bit 48 (ucast (ttbr_asid (ttbr0 x))))) k3 else k3)
         else k3)"

section \<open>The trap frame\<close>

definition frame_reg :: "nat \<Rightarrow> nat \<Rightarrow> nat" where "frame_reg frame i = frame + 8 * i"
definition frame_elr :: "nat \<Rightarrow> nat" where "frame_elr frame = frame + 8 * 31"
definition frame_spsr :: "nat \<Rightarrow> nat" where "frame_spsr frame = frame + 8 * 32"
definition frame_esr :: "nat \<Rightarrow> nat" where "frame_esr frame = frame + 8 * 33"
definition frame_far :: "nat \<Rightarrow> nat" where "frame_far frame = frame + 8 * 34"
definition frame_sp_el0 :: "nat \<Rightarrow> nat" where "frame_sp_el0 frame = frame + 8 * 35"

definition exec_frame :: "nat \<Rightarrow> nat \<Rightarrow> memory \<Rightarrow> memory" where
  "exec_frame frame entry m =
     store64 (store64 (fold (\<lambda>i m. store64 m (frame_reg frame i) 0) [0..<31] m) (frame_elr frame) entry) (frame_spsr frame) 0"

definition exec_entry_regs :: "nat \<Rightarrow> nat \<Rightarrow> nat \<Rightarrow> memory \<Rightarrow> memory" where
  "exec_entry_regs frame argc sp0 m =
     store64 (store64 (store64 (store64 m (frame_reg frame 0) argc) (frame_reg frame 1) (sp0 + 8))
       (frame_reg frame 2) (sp0 + envp_off argc)) (frame_sp_el0 frame) sp0"

section \<open>The call\<close>

definition sys_exec :: "'w drivers \<Rightarrow> 'w periph \<Rightarrow> nat \<Rightarrow> nat \<Rightarrow> nat \<Rightarrow> 'w kernel \<Rightarrow> ('w kernel \<times> int) option" where
  "sys_exec D P arg_path arg_argv frame k =
     do {
       n \<leftarrow> user_str_ok k arg_path;
       if n < 0 then Some (k, -1)
       else do {
         path \<leftarrow> read_cstr k arg_path;
         x \<leftarrow> tasks k (current k);
         if fds x = 0 then Some (k, -1)
         else do {
           args \<leftarrow> capture_argv k arg_argv;
           case args of
             None \<Rightarrow> Some (k, -1)
           | Some (blob, offs) \<Rightarrow>
               (let argc = length offs; sp0 = new_sp argc (length blob) in
                if sp0 < stack_user_lo then Some (k, -1)
                else do {
                  (k1, kbuf, fsize) \<leftarrow> exec_slurp D P (fds x) path k;
                  if kbuf = 0 then Some (k1, -1)
                  else do {
                    (k2, l0, stack, img, tls) \<leftarrow> exec_space kbuf fsize k1;
                    if l0 = 0 then Some (k2, -1)
                    else do {
                      k3 \<leftarrow> exec_swap l0 stack img tls k2;
                      let (w, rnd) = p_rng_read P (world (fs k3)) aux_random_size;
                          m = build_stack (phys_to_virt stack) blob offs (case rnd of None \<Rightarrow> [] | Some bs \<Rightarrow> take aux_random_size bs)
                                img (exec_frame frame (ei_entry img) (ram k3));
                          k4 = (set_world w k3)\<lparr>ram := exec_entry_regs frame argc sp0 m\<rparr>
                      in Some (exec_release x k4, 0)
                    }
                  }
                })
         }
       }
     }"

end
