(* ===== verification/Dispatch.thy ===== *)
theory Dispatch
  imports Exec
begin

text \<open>
  The system call dispatcher of \<^verbatim>\<open>src/src/syscall/syscall.c\<close>, the exception entry of
  \<^verbatim>\<open>src/src/exception/exception.c\<close> and the timer interrupt of
  \<^verbatim>\<open>src/src/exception/timer/timer.c\<close>. A handler gives the kernel state and the value for
  register 0, or \<^term>\<open>None\<close> where the code does not come back to write it: the task has exited, or
  a successful \<^verbatim>\<open>exec\<close> has rewritten the frame. What the other tasks do while the caller is
  switched out is the parameter \<open>resume\<close>. Interrupts that arrive inside a handler are not modelled.
\<close>

type_synonym 'w handled = "('w kernel \<times> int option) option"

definition reply :: "('w kernel \<times> int) option \<Rightarrow> 'w handled" where
  "reply r = map_option (\<lambda>(k, v). (k, Some v)) r"

definition with_fs :: "'w kernel \<Rightarrow> ('w vfs \<times> int) option \<Rightarrow> ('w kernel \<times> int) option" where
  "with_fs k r = map_option (\<lambda>(s, v). (k\<lparr>fs := s\<rparr>, v)) r"

section \<open>Files\<close>

definition case_read :: "'w drivers \<Rightarrow> nat \<Rightarrow> nat \<Rightarrow> nat \<Rightarrow> nat \<Rightarrow> 'w kernel \<Rightarrow> ('w kernel \<times> int) option" where
  "case_read D t a0 a1 a2 k =
     (if t \<noteq> 0 \<and> user_buf_ok a1 a2 then with_fs k (fd_read D (fs k) t (to_int32 a0) a1 a2) else Some (k, -1))"

definition case_write :: "'w drivers \<Rightarrow> nat \<Rightarrow> nat \<Rightarrow> nat \<Rightarrow> nat \<Rightarrow> 'w kernel \<Rightarrow> ('w kernel \<times> int) option" where
  "case_write D t a0 a1 a2 k =
     (if t \<noteq> 0 \<and> user_buf_ok a1 a2 then with_fs k (fd_write D (fs k) t (to_int32 a0) a1 a2) else Some (k, -1))"

text \<open>\<^verbatim>\<open>SYS_OPEN\<close> and \<^verbatim>\<open>openat\<close> once the directory is settled: path and flags.\<close>

definition case_open :: "'w drivers \<Rightarrow> nat \<Rightarrow> nat \<Rightarrow> nat \<Rightarrow> 'w kernel \<Rightarrow> ('w kernel \<times> int) option" where
  "case_open D t path flags k =
     (if t = 0 then fail EFAULT k
      else do {
        n \<leftarrow> user_str_ok k path;
        if n < 0 then fail EFAULT k
        else do {
          name \<leftarrow> read_cstr k path;
          (s1, fd) \<leftarrow> fd_open_ex D (fs k) t name (u32 flags);
          if fd < 0
          then do {
            (s2, probe) \<leftarrow> vfs_resolve D s1 (Some name);
            fail (if probe \<noteq> None then EACCES else ENOENT) (k\<lparr>fs := s2\<rparr>)
          }
          else Some (k\<lparr>fs := s1\<rparr>, fd)
        }
      })"

definition case_close :: "nat \<Rightarrow> nat \<Rightarrow> 'w kernel \<Rightarrow> ('w kernel \<times> int) option" where
  "case_close t a0 k = (if t \<noteq> 0 then with_fs k (fd_close (fs k) t (to_int32 a0)) else Some (k, -1))"

definition case_lseek :: "nat \<Rightarrow> nat \<Rightarrow> nat \<Rightarrow> nat \<Rightarrow> 'w kernel \<Rightarrow> ('w kernel \<times> int) option" where
  "case_lseek t a0 a1 a2 k =
     (if t \<noteq> 0 then with_fs k (Some (fd_seek (fs k) t (to_int32 a0) (i64 (int a1)) (u32 a2))) else Some (k, -1))"

definition case_openat :: "'w drivers \<Rightarrow> nat \<Rightarrow> nat \<Rightarrow> nat \<Rightarrow> nat \<Rightarrow> 'w kernel \<Rightarrow> ('w kernel \<times> int) option" where
  "case_openat D t a0 a1 a2 k = (if to_int32 a0 \<noteq> AT_FDCWD then fail ENOSYS k else case_open D t a1 a2 k)"

definition put_stat :: "nat \<Rightarrow> nat \<Rightarrow> 'w kernel \<Rightarrow> ('w kernel \<times> int) option" where
  "put_stat i buf k = do { k1 \<leftarrow> store_bytes buf (stat_bytes (fill_linux_stat i (vn (fs k) i))) k; Some (k1, 0) }"

definition case_fstat :: "nat \<Rightarrow> nat \<Rightarrow> nat \<Rightarrow> 'w kernel \<Rightarrow> ('w kernel \<times> int) option" where
  "case_fstat t a0 a1 k =
     (case (if t \<noteq> 0 then fd_vnode (fs k) t (to_int32 a0) else None) of
        None \<Rightarrow> fail EBADF k
      | Some v \<Rightarrow> if \<not> user_buf_ok a1 128 then fail EFAULT k else put_stat v a1 k)"

text \<open>The check on the path takes the length for a truth value, so only the empty path fails it.\<close>

definition case_newfstatat :: "'w drivers \<Rightarrow> nat \<Rightarrow> nat \<Rightarrow> nat \<Rightarrow> nat \<Rightarrow> 'w kernel \<Rightarrow> ('w kernel \<times> int) option" where
  "case_newfstatat D a0 a1 a2 a3 k =
     (if to_int32 a0 \<noteq> AT_FDCWD then fail ENOSYS k
      else do {
        n \<leftarrow> user_str_ok k a1;
        if n = 0 \<or> \<not> user_buf_ok a2 128 then fail EFAULT k
        else if a3 \<noteq> 0 \<and> a3 \<noteq> 0x100 then fail EINVAL k
        else do {
          name \<leftarrow> read_cstr k a1;
          (s1, v) \<leftarrow> vfs_resolve D (fs k) (Some name);
          case v of None \<Rightarrow> fail ENOENT (k\<lparr>fs := s1\<rparr>) | Some i \<Rightarrow> put_stat i a2 (k\<lparr>fs := s1\<rparr>)
        }
      })"

section \<open>Directories\<close>

definition LNX_DIRENT64_NAME_OFFSET :: nat where "LNX_DIRENT64_NAME_OFFSET = 19"
definition LNX_DT_DIR :: nat where "LNX_DT_DIR = 4"
definition LNX_DT_REG :: nat where "LNX_DT_REG = 8"

definition dirent_reclen :: "vfs_dirent \<Rightarrow> nat" where
  "dirent_reclen de = (LNX_DIRENT64_NAME_OFFSET + length (de_name de) + 1 + 7) div 8 * 8"

definition dirent_bytes :: "vfs_dirent \<Rightarrow> nat \<Rightarrow> 8 word list" where
  "dirent_bytes de off =
     le_bytes 8 (de_id de) @ le_bytes 8 off @ le_bytes 2 (dirent_reclen de) @
     [of_nat (if de_is_dir de then LNX_DT_DIR else LNX_DT_REG)] @ map (\<lambda>c. of_char c) (de_name de) @ [0]"

text \<open>
  The loop of \<^verbatim>\<open>getdents64\<close>. The inner result is \<^term>\<open>None\<close> when the directory cannot be
  enumerated; otherwise the cookie and the number of bytes written.
\<close>

function getdents_loop :: "'w drivers \<Rightarrow> nat \<Rightarrow> nat \<Rightarrow> nat \<Rightarrow> nat \<Rightarrow> nat \<Rightarrow> 'w kernel \<Rightarrow> ('w kernel \<times> (nat \<times> nat) option) option" where
  "getdents_loop D dir out count off used k =
     (if used < count
      then (case vfs_readdir D (fs k) (Some dir) off 1 of
              None \<Rightarrow> None
            | Some (s1, des, off1, eof_now, n) \<Rightarrow>
                if n < 0 then Some (k\<lparr>fs := s1\<rparr>, None)
                else if n = 0 \<or> eof_now then Some (k\<lparr>fs := s1\<rparr>, Some (off1, used))
                else (let de = hd des; reclen = dirent_reclen de in
                      if count < used + reclen then Some (k\<lparr>fs := s1\<rparr>, Some (off, used))
                      else (case store_bytes (out + used) (dirent_bytes de off1) (k\<lparr>fs := s1\<rparr>) of
                              None \<Rightarrow> None
                            | Some k1 \<Rightarrow> getdents_loop D dir out count off1 (used + reclen) k1)))
      else Some (k, Some (off, used)))"
  by pat_completeness auto
termination
  by (relation "measure (\<lambda>(D, dir, out, count, off, used, k). count - used)")
     (auto simp: dirent_reclen_def LNX_DIRENT64_NAME_OFFSET_def)

declare getdents_loop.simps [simp del]

definition case_getdents64 :: "'w drivers \<Rightarrow> nat \<Rightarrow> nat \<Rightarrow> nat \<Rightarrow> nat \<Rightarrow> 'w kernel \<Rightarrow> ('w kernel \<times> int) option" where
  "case_getdents64 D t a0 a1 a2 k =
     (if a2 = 0 then Some (k, 0)
      else case (if t \<noteq> 0 then fd_vnode (fs k) t (to_int32 a0) else None) of
        None \<Rightarrow> fail EBADF k
      | Some dir \<Rightarrow>
          if vtype (vn (fs k) dir) \<noteq> VNODE_DIR then fail ENOTDIR k
          else if \<not> user_buf_ok a1 a2 then fail EFAULT k
          else (let f = fd_file (fs k) t (to_int32 a0) in
                case getdents_loop D dir a1 a2 (u64_of (foffset (files (fs k) f))) 0 k of
                  None \<Rightarrow> None
                | Some (k1, None) \<Rightarrow> fail EOPNOTSUPP k1
                | Some (k1, Some (off, used)) \<Rightarrow>
                    Some (k1\<lparr>fs := (fs k1)\<lparr>files := (files (fs k1))(f := (files (fs k1) f)\<lparr>foffset := i64 (int off)\<rparr>)\<rparr>\<rparr>, int used)))"

section \<open>Time, randomness, the thread pointer\<close>

definition timer_uptime_ms :: "'w kernel \<Rightarrow> nat" where
  "timer_uptime_ms k = u64 (ticks k * TIMER_INTERVAL_MS)"

definition timer_uptime_seconds :: "'w kernel \<Rightarrow> nat" where
  "timer_uptime_seconds k = u64 (ticks k * TIMER_INTERVAL_MS) div 1000"

definition case_clock_gettime :: "nat \<Rightarrow> nat \<Rightarrow> 'w kernel \<Rightarrow> ('w kernel \<times> int) option" where
  "case_clock_gettime a0 a1 k =
     (if a0 \<noteq> 0 \<and> a0 \<noteq> 1 then fail EINVAL k
      else if \<not> user_buf_ok a1 16 then fail EFAULT k
      else do {
        k1 \<leftarrow> store_bytes a1 (le_bytes 8 (timer_uptime_seconds k) @ le_bytes 8 (timer_uptime_ms k mod 1000 * 1000000)) k;
        Some (k1, 0)
      })"

definition sleep_and_resume :: "('w kernel \<Rightarrow> 'w kernel option) \<Rightarrow> nat \<Rightarrow> 'w kernel \<Rightarrow> 'w kernel option" where
  "sleep_and_resume resume ms k = do { k1 \<leftarrow> sleep_ms ms k; resume k1 }"

definition nanosleep_ms :: "int \<Rightarrow> int \<Rightarrow> nat" where
  "nanosleep_ms sec nsec = u64 (u64 (nat sec * 1000) + (nat nsec + 999999) div 1000000)"

definition case_nanosleep :: "('w kernel \<Rightarrow> 'w kernel option) \<Rightarrow> nat \<Rightarrow> nat \<Rightarrow> 'w kernel \<Rightarrow> ('w kernel \<times> int) option" where
  "case_nanosleep resume a0 a1 k =
     (if \<not> user_buf_ok a0 16 then fail EFAULT k
      else do {
        sec0 \<leftarrow> load_word k a0;
        nsec0 \<leftarrow> load_word k (a0 + 8);
        let sec = i64 (int sec0); nsec = i64 (int nsec0) in
        if sec < 0 \<or> nsec < 0 \<or> 1000000000 \<le> nsec then fail EINVAL k
        else do {
          k1 \<leftarrow> (if nanosleep_ms sec nsec \<noteq> 0 then sleep_and_resume resume (nanosleep_ms sec nsec) k else Some k);
          if a1 \<noteq> 0
          then (if \<not> user_buf_ok a1 16 then fail EFAULT k1
                else do { k2 \<leftarrow> store_bytes a1 (le_bytes 16 0) k1; Some (k2, 0) })
          else Some (k1, 0)
        }
      })"

definition case_getrandom :: "'w periph \<Rightarrow> nat \<Rightarrow> nat \<Rightarrow> 'w kernel \<Rightarrow> ('w kernel \<times> int) option" where
  "case_getrandom P a0 a1 k =
     (if a1 = 0 then Some (k, 0)
      else if \<not> user_buf_ok a0 a1 then fail EFAULT k
      else (case p_rng_read P (world (fs k)) (u32 a1) of
              (w, None) \<Rightarrow> fail EIO (set_world w k)
            | (w, Some bs) \<Rightarrow> do { k1 \<leftarrow> store_bytes a0 bs (set_world w k); Some (k1, int (length bs)) }))"

definition ARCH_SET_FS :: nat where "ARCH_SET_FS = 0x1002"
definition ARCH_GET_FS :: nat where "ARCH_GET_FS = 0x1003"

definition case_arch_prctl :: "nat \<Rightarrow> nat \<Rightarrow> 'w kernel \<Rightarrow> ('w kernel \<times> int) option" where
  "case_arch_prctl a0 a1 k =
     (if a0 = ARCH_SET_FS
      then (if a1 = 0 \<or> a1 mod 8 \<noteq> 0 then fail EINVAL k else Some (k\<lparr>tpidr := a1\<rparr>, 0))
      else if a0 = ARCH_GET_FS then Some (k, i64 (int (tpidr k)))
      else fail EINVAL k)"

definition case_set_tid_address :: "nat \<Rightarrow> 'w kernel \<Rightarrow> ('w kernel \<times> int) option" where
  "case_set_tid_address a1 k =
     do {
       k1 \<leftarrow> upd_task (current k) (\<lambda>x. x\<lparr>clear_tid := a1\<rparr>) k;
       x \<leftarrow> tasks k1 (current k);
       Some (k1, i64 (int (pid x)))
     }"

section \<open>Tasks\<close>

definition case_waitpid :: "('w kernel \<Rightarrow> 'w kernel option) \<Rightarrow> nat \<Rightarrow> nat \<Rightarrow> nat \<Rightarrow> 'w kernel \<Rightarrow> ('w kernel \<times> int) option" where
  "case_waitpid resume a0 a1 a2 k =
     (if a1 \<noteq> 0 \<and> \<not> user_buf_ok a1 4 then fail EFAULT k
      else do {
        (k1, p, status) \<leftarrow> sched_waitpid resume (i64 (int a0)) (u32 a2) k;
        if p < 0 then fail ECHILD k1
        else do {
          k2 \<leftarrow> (if a1 \<noteq> 0 then store_bytes a1 (le_bytes 4 (u64_of (case status of None \<Rightarrow> 0 | Some c \<Rightarrow> c))) k1 else Some k1);
          Some (k2, p)
        }
      })"

text \<open>A task that kills itself is switched away and does not come back.\<close>

definition case_kill :: "nat \<Rightarrow> 'w kernel \<Rightarrow> 'w handled" where
  "case_kill a0 k =
     do { (k1, r) \<leftarrow> sched_kill_task a0 k; Some (k1, if current k1 = current k then Some r else None) }"

section \<open>Network and balloon\<close>

definition ping_reply :: "nat \<Rightarrow> 8 word list \<Rightarrow> int option" where
  "ping_reply seq buf =
     (if length buf < 14 + 20 + 8 then None
      else if buf ! 12 \<noteq> 8 \<or> buf ! 13 \<noteq> 0 then None
      else if buf ! 23 \<noteq> 1 \<or> buf ! 34 \<noteq> 0 then None
      else if unat (buf ! 40) * 256 + unat (buf ! 41) \<noteq> seq then None
      else Some (uint (buf ! 22)))"

fun ping_loop :: "'w periph \<Rightarrow> nat \<Rightarrow> nat \<Rightarrow> 'w \<Rightarrow> 'w \<times> int" where
  "ping_loop P seq 0 w = (w, -1)"
| "ping_loop P seq (Suc spins) w =
     (let (w1, buf) = p_rx_poll P w 256 in
      case ping_reply seq buf of None \<Rightarrow> ping_loop P seq spins w1 | Some ttl \<Rightarrow> (w1, ttl))"

definition case_net_ping :: "'w periph \<Rightarrow> nat \<Rightarrow> 'w kernel \<Rightarrow> ('w kernel \<times> int) option" where
  "case_net_ping P a0 k =
     (let seq = a0 mod 2 ^ 16; (w, sent) = p_send_ping P (world (fs k)) seq in
      if sent \<le> 0 then Some (set_world w k, -1)
      else (let (w1, ttl) = ping_loop P seq 2000000 w in Some (set_world w1 k, ttl)))"

definition case_balloon :: "'w periph \<Rightarrow> nat \<Rightarrow> nat \<Rightarrow> 'w kernel \<Rightarrow> ('w kernel \<times> int) option" where
  "case_balloon P a0 a1 k =
     Some (if a0 = 0 then p_inflate P (u32 a1) k
           else if a0 = 1 then p_deflate P (u32 a1) k
           else if a0 = 2 then (k, int (fst (p_balloon_status P (world (fs k)))))
           else if a0 = 3 then (k, int (snd (p_balloon_status P (world (fs k)))))
           else (k, -1))"

section \<open>The dispatcher\<close>

text \<open>The arguments are the registers 0 to 5 of the frame, \<open>a i\<close>.\<close>

definition dispatch_call :: "'w drivers \<Rightarrow> linkage \<Rightarrow> 'w periph \<Rightarrow> ('w kernel \<Rightarrow> 'w kernel option) \<Rightarrow> nat \<Rightarrow> nat \<Rightarrow>
    (nat \<Rightarrow> nat) \<Rightarrow> task \<Rightarrow> 'w kernel \<Rightarrow> 'w handled" where
  "dispatch_call D L P resume frame num a x k =
     (if num = SYS_READ then reply (case_read D (fds x) (a 0) (a 1) (a 2) k)
      else if num = SYS_WRITE then reply (case_write D (fds x) (a 0) (a 1) (a 2) k)
      else if num = SYS_OPEN then reply (case_open D (fds x) (a 0) (a 1) k)
      else if num = SYS_CLOSE then reply (case_close (fds x) (a 0) k)
      else if num = SYS_EXIT then map_option (\<lambda>k1. (k1, None)) (task_exit (to_int32 (a 0)) k)
      else if num = SYS_YIELD then do { k1 \<leftarrow> schedule k; k2 \<leftarrow> resume k1; Some (k2, Some 0) }
      else if num = SYS_SLEEP then do { k1 \<leftarrow> sleep_and_resume resume (a 0) k; Some (k1, Some 0) }
      else if num = SYS_GETPID then Some (k, Some (i64 (int (pid x))))
      else if num = SYS_LSEEK then reply (case_lseek (fds x) (a 0) (a 1) (a 2) k)
      else if num = SYS_UPTIME then Some (k, Some (i64 (int (timer_uptime_ms k))))
      else if num = SYS_NET_PING then reply (case_net_ping P (a 0) k)
      else if num = SYS_KILL then case_kill (a 0) k
      else if num = SYS_FORK then reply (sched_fork L (current k) frame k)
      else if num = SYS_WAITPID then reply (case_waitpid resume (a 0) (a 1) (a 2) k)
      else if num = LNX_ARCH_PRCTL then reply (case_arch_prctl (a 0) (a 1) k)
      else if num = LNX_SET_TID_ADDRESS then reply (case_set_tid_address (a 1) k)
      else if num = LNX_OPENAT then reply (case_openat D (fds x) (a 0) (a 1) (a 2) k)
      else if num = LNX_GETDENTS64 then reply (case_getdents64 D (fds x) (a 0) (a 1) (a 2) k)
      else if num = LNX_CLOCK_GETTIME then reply (case_clock_gettime (a 0) (a 1) k)
      else if num = LNX_NANOSLEEP then reply (case_nanosleep resume (a 0) (a 1) k)
      else if num = LNX_GETRANDOM then reply (case_getrandom P (a 0) (a 1) k)
      else if num = LNX_FSTAT then reply (case_fstat (fds x) (a 0) (a 1) k)
      else if num = LNX_NEWFSTATAT then reply (case_newfstatat D (a 0) (a 1) (a 2) (a 3) k)
      else if num = SYS_MMAP then reply (sys_mmap (a 0) (a 1) (a 2) (a 3) (a 4) (a 5) k)
      else if num = SYS_BRK then reply (sys_brk (a 0) k)
      else if num = SYS_MUNMAP then reply (sys_munmap (a 0) (a 1) k)
      else if num = SYS_MPROTECT then reply (sys_mprotect (a 0) (a 1) (a 2) k)
      else if num = SYS_BALLOON then reply (case_balloon P (a 0) (a 1) k)
      else if num = SYS_EXEC
           then do { (k1, r) \<leftarrow> sys_exec D P (a 0) (a 1) frame k; Some (k1, if 0 \<le> r then None else Some (-1)) }
      else reply (fail ENOSYS k))"

definition frame_args :: "memory \<Rightarrow> nat \<Rightarrow> nat \<Rightarrow> nat" where
  "frame_args m frame i = load64 m (frame_reg frame i)"

definition syscall_dispatch :: "'w drivers \<Rightarrow> linkage \<Rightarrow> 'w periph \<Rightarrow> ('w kernel \<Rightarrow> 'w kernel option) \<Rightarrow> nat \<Rightarrow>
    'w kernel \<Rightarrow> 'w kernel option" where
  "syscall_dispatch D L P resume frame k =
     (let num = translate_linux_syscall (frame_args (ram k) frame 8) in
      do {
        x \<leftarrow> tasks k (current k);
        (k1, r) \<leftarrow> dispatch_call D L P resume frame num (frame_args (ram k) frame) x k;
        Some (case r of None \<Rightarrow> k1 | Some v \<Rightarrow> k1\<lparr>ram := store64 (ram k1) (frame_reg frame 0) (u64_of v)\<rparr>)
      })"

section \<open>Exceptions\<close>

definition EXCEPTION_SYNC :: nat where "EXCEPTION_SYNC = 0"
definition EXCEPTION_IRQ :: nat where "EXCEPTION_IRQ = 1"
definition EC_SVC_AARCH64 :: nat where "EC_SVC_AARCH64 = 0x15"
definition EC_INST_ABORT_LO :: nat where "EC_INST_ABORT_LO = 0x20"
definition EC_DATA_ABORT_LO :: nat where "EC_DATA_ABORT_LO = 0x24"
definition EC_BRK :: nat where "EC_BRK = 0x3C"

definition ESR_EC :: "nat \<Rightarrow> nat" where "ESR_EC esr = esr div 2 ^ 26 mod 64"
definition ESR_ISS_DFSC :: "nat \<Rightarrow> nat" where "ESR_ISS_DFSC esr = esr mod 64"
definition ESR_ISS_WNR :: "nat \<Rightarrow> bool" where "ESR_ISS_WNR esr \<longleftrightarrow> esr div 64 mod 2 = 1"

definition translation_fault :: "nat \<Rightarrow> bool" where
  "translation_fault dfsc \<longleftrightarrow> dfsc = 5 \<or> dfsc = 6 \<or> dfsc = 7"

text \<open>A data abort of a task: stack growth first, then the memory areas, else the task dies.\<close>

definition data_abort :: "nat \<Rightarrow> nat \<Rightarrow> 'w kernel \<Rightarrow> 'w kernel option" where
  "data_abort esr far k =
     do {
       (k1, grown) \<leftarrow> (if translation_fault (ESR_ISS_DFSC esr) then sched_try_grow_stack (current k) far k else Some (k, False));
       if grown then Some k1
       else do {
         (k2, paged) \<leftarrow> (if translation_fault (ESR_ISS_DFSC esr)
                         then sched_try_handle_vma_fault (current k) far (ESR_ISS_WNR esr) False k1 else Some (k1, False));
         if paged then Some k2 else task_exit (-1) k2
       }
     }"

definition inst_abort :: "nat \<Rightarrow> nat \<Rightarrow> 'w kernel \<Rightarrow> 'w kernel option" where
  "inst_abort esr far k =
     do {
       (k1, paged) \<leftarrow> (if translation_fault (ESR_ISS_DFSC esr)
                       then sched_try_handle_vma_fault (current k) far False True k else Some (k, False));
       if paged then Some k1 else task_exit (-1) k1
     }"

definition timer_handle_irq :: "'w kernel \<Rightarrow> 'w kernel option" where
  "timer_handle_irq k = sched_wake_sleepers (k\<lparr>ticks := u64 (ticks k + 1)\<rparr>)"

definition TIMER_PPI_INTID :: nat where "TIMER_PPI_INTID = 30"
definition GIC_INTID_NO_PENDING :: nat where "GIC_INTID_NO_PENDING = 1023"

text \<open>An interrupt: \<open>intid\<close> is what the interrupt controller acknowledges.\<close>

definition handle_irq :: "nat \<Rightarrow> 'w kernel \<Rightarrow> 'w kernel option" where
  "handle_irq intid k =
     (if intid = GIC_INTID_NO_PENDING then Some k
      else do { k1 \<leftarrow> (if intid = TIMER_PPI_INTID then timer_handle_irq k else Some k); schedule k1 })"

text \<open>Every case that ends in \<^verbatim>\<open>kernel_panic\<close> has no result.\<close>

definition exception_dispatch :: "'w drivers \<Rightarrow> linkage \<Rightarrow> 'w periph \<Rightarrow> ('w kernel \<Rightarrow> 'w kernel option) \<Rightarrow> nat \<Rightarrow> nat \<Rightarrow> nat \<Rightarrow>
    'w kernel \<Rightarrow> 'w kernel option" where
  "exception_dispatch D L P resume intid type frame k =
     (let esr = load64 (ram k) (frame_esr frame); far = load64 (ram k) (frame_far frame) in
      if type = EXCEPTION_SYNC
      then (if ESR_EC esr = EC_SVC_AARCH64 then syscall_dispatch D L P resume frame k
            else if ESR_EC esr = EC_DATA_ABORT_LO then data_abort esr far k
            else if ESR_EC esr = EC_INST_ABORT_LO then inst_abort esr far k
            else if ESR_EC esr = EC_BRK
                 then Some (k\<lparr>ram := store64 (ram k) (frame_elr frame) (u64 (load64 (ram k) (frame_elr frame) + 4))\<rparr>)
            else None)
      else if type = EXCEPTION_IRQ then handle_irq intid k
      else None)"

end
