(* ===== verification/Sched_Laws.thy ===== *)
theory Sched_Laws
  imports Sched
begin

text \<open>
  The queues of the scheduler. A segment of tasks linked by \<open>tnext\<close> describes both the ring of
  runnable tasks and the chain of dead ones; the state machine of the scheduler's entry points keeps
  them well-formed.
\<close>

section \<open>Linked segments\<close>

fun path :: "(nat \<Rightarrow> task option) \<Rightarrow> nat \<Rightarrow> nat list \<Rightarrow> nat \<Rightarrow> bool" where
  "path T p [] r \<longleftrightarrow> p = r"
| "path T p (x # xs) r \<longleftrightarrow> p = x \<and> (\<exists>y. T x = Some y \<and> path T (tnext y) xs r)"

lemma path_append [simp]: "path T p (xs @ ys) r \<longleftrightarrow> (\<exists>m. path T p xs m \<and> path T m ys r)"
  by (induction xs arbitrary: p) auto

lemma path_cong:
  assumes "\<And>t. t \<in> set xs \<Longrightarrow> map_option tnext (T' t) = map_option tnext (T t)"
  shows "path T' p xs r = path T p xs r"
  using assms
proof (induction xs arbitrary: p)
  case (Cons x xs)
  have "map_option tnext (T' x) = map_option tnext (T x)" using Cons.prems by simp
  then have "(\<exists>y. T' x = Some y \<and> path T (tnext y) xs r) \<longleftrightarrow> (\<exists>y. T x = Some y \<and> path T (tnext y) xs r)"
    by (cases "T' x"; cases "T x") auto
  with Cons show ?case by simp
qed simp

lemma path_update [simp]: "t \<notin> set xs \<Longrightarrow> path (T(t := v)) p xs r = path T p xs r"
  by (rule path_cong) auto

lemma path_live: "path T p xs r \<Longrightarrow> t \<in> set xs \<Longrightarrow> \<exists>x. T t = Some x"
  by (induction xs arbitrary: p) auto

lemma path_head: "path T p xs r \<Longrightarrow> xs \<noteq> [] \<Longrightarrow> hd xs = p"
  by (cases xs) auto

text \<open>Redirecting the last element of a segment.\<close>

lemma path_redirect:
  assumes "path T p xs r" and "xs \<noteq> []" and "distinct xs" and "T (last xs) = Some y"
  shows "path (T(last xs := Some (y\<lparr>tnext := m\<rparr>))) p xs m"
proof -
  obtain zs l where xs: "xs = zs @ [l]" using assms(2) by (metis rev_exhaust)
  then show ?thesis using assms by auto
qed

definition ring :: "(nat \<Rightarrow> task option) \<Rightarrow> nat list \<Rightarrow> bool" where
  "ring T q \<longleftrightarrow> q \<noteq> [] \<and> distinct q \<and> path T (hd q) q (hd q)"

lemma ring_rotate: "ring T (xs @ ys) \<Longrightarrow> ring T (ys @ xs)"
proof (cases "xs = [] \<or> ys = []")
  case False
  assume r: "ring T (xs @ ys)"
  then obtain m where "path T (hd xs) xs m" "path T m ys (hd xs)" using False by (auto simp: ring_def)
  moreover have "m = hd ys" using calculation(2) False path_head by metis
  ultimately show ?thesis using r False by (auto simp: ring_def)
qed auto

lemma ring_start:
  assumes "ring T q" and "c \<in> set q"
  obtains r where "ring T (c # r)" and "set (c # r) = set q"
proof -
  obtain xs ys where q: "q = xs @ c # ys" using assms(2) by (metis split_list)
  then have "ring T (c # (ys @ xs))" using assms(1) ring_rotate [of T xs "c # ys"] by simp
  then show thesis using that [of "ys @ xs"] q by auto
qed

lemma ring_Cons: "ring T (c # r) \<longleftrightarrow> c \<notin> set r \<and> distinct r \<and> path T c (c # r) c"
  by (auto simp: ring_def)

lemma ring_pred_path:
  assumes "path T p xs x" and "xs \<noteq> []" and "x \<notin> set (tl xs)"
  shows "ring_pred T x p = Some (last xs)"
  using assms
proof (induction xs arbitrary: p)
  case (Cons a xs)
  then obtain y where y: "T a = Some y" "path T (tnext y) xs x" "p = a" by auto
  show ?case
  proof (cases xs)
    case Nil
    then show ?thesis using y by (subst ring_pred.simps) simp
  next
    case (Cons b zs)
    then have "tnext y = b" "b \<noteq> x" using y(2) Cons.prems(3) by auto
    then show ?thesis using y Cons Cons.IH [OF y(2)] Cons.prems(3) by (subst ring_pred.simps) auto
  qed
qed simp

section \<open>The queues\<close>

text \<open>
  \<open>links\<close>: the ring \<open>q\<close> and the dead list \<open>ds\<close> are disjoint, together hold every task, and the
  idle task is in the ring. \<open>queues\<close> adds what holds between two entries into the scheduler: the
  current task is in the ring, no other task of the ring is running or dead, and the dead list holds
  dead tasks only.
\<close>

definition links :: "(nat \<Rightarrow> task option) \<Rightarrow> nat \<Rightarrow> nat \<Rightarrow> nat list \<Rightarrow> nat list \<Rightarrow> bool" where
  "links T i d q ds \<longleftrightarrow>
     ring T q \<and> path T d ds 0 \<and> distinct (q @ ds) \<and> 0 \<notin> set (q @ ds) \<and> i \<in> set q \<and> dom T = set (q @ ds)"

definition state_in :: "(nat \<Rightarrow> task option) \<Rightarrow> nat \<Rightarrow> task_state set \<Rightarrow> bool" where
  "state_in T t S \<longleftrightarrow> (\<forall>x. T t = Some x \<longrightarrow> tstate x \<in> S)"

text \<open>The idle task has pid 0 and never dies.\<close>

definition idle_alive :: "(nat \<Rightarrow> task option) \<Rightarrow> nat \<Rightarrow> bool" where
  "idle_alive T i \<longleftrightarrow> (\<forall>x. T i = Some x \<longrightarrow> pid x = 0 \<and> tstate x \<notin> {TASK_DEAD, TASK_ZOMBIE})"

definition queues :: "'w kernel \<Rightarrow> nat list \<Rightarrow> nat list \<Rightarrow> bool" where
  "queues k q ds \<longleftrightarrow>
     links (tasks k) (idle_task k) (dead_list k) q ds \<and> current k \<in> set q \<and>
     (\<forall>t \<in> set q - {current k}. state_in (tasks k) t {TASK_READY, TASK_SLEEPING}) \<and>
     (\<forall>t \<in> set ds. state_in (tasks k) t {TASK_DEAD, TASK_ZOMBIE}) \<and>
     state_in (tasks k) (current k) (- {TASK_ZOMBIE}) \<and> idle_alive (tasks k) (idle_task k)"

definition queue_ok :: "'w kernel \<Rightarrow> bool" where
  "queue_ok k \<longleftrightarrow> (\<exists>q ds. queues k q ds)"

definition qstate :: "'w kernel \<Rightarrow> (nat \<Rightarrow> task option) \<times> nat \<times> nat \<times> nat" where
  "qstate k = (tasks k, idle_task k, current k, dead_list k)"

lemma queues_cong: "qstate k' = qstate k \<Longrightarrow> queues k' q ds = queues k q ds"
  by (simp add: queues_def qstate_def)

lemma queue_ok_cong: "qstate k' = qstate k \<Longrightarrow> queue_ok k' = queue_ok k"
  by (simp add: queue_ok_def queues_cong [of k' k])

lemma links_cong:
  assumes "\<And>t. map_option tnext (T' t) = map_option tnext (T t)"
  shows "links T' i d q ds = links T i d q ds"
proof -
  have p: "path T' p xs r = path T p xs r" for p xs r by (rule path_cong) (rule assms)
  have "T' t = None \<longleftrightarrow> T t = None" for t using assms [of t] by (cases "T' t"; cases "T t") auto
  then have "dom T' = dom T" by (simp add: dom_def)
  then show ?thesis by (simp only: links_def ring_def p)
qed

lemma links_update:
  assumes "T t = Some x" and "tnext y = tnext x"
  shows "links (T(t := Some y)) i d q ds = links T i d q ds"
  by (rule links_cong) (use assms in auto)

lemma links_live: "links T i d q ds \<Longrightarrow> t \<in> set q \<union> set ds \<Longrightarrow> \<exists>x. T t = Some x"
  unfolding links_def by (metis domD set_append)

lemma links_start:
  assumes "links T i d q ds" and "c \<in> set q"
  obtains r where "links T i d (c # r) ds" and "set (c # r) = set q"
proof -
  obtain r where r: "ring T (c # r)" "set (c # r) = set q"
    using ring_start assms by (metis links_def)
  then have "links T i d (c # r) ds" using assms(1) by (auto simp: links_def ring_def)
  then show thesis using that r(2) by blast
qed

text \<open>A new task goes to the end of the ring, seen from the current task.\<close>

lemma enqueue_links:
  assumes "links T (idle_task k) (dead_list k) q ds" and "current k \<in> set q" and "T t = None" and "t \<noteq> 0"
    and "tasks k = T(t := Some x)"
  obtains k' q' where "enqueue t k = Some k'" and "links (tasks k') (idle_task k) (dead_list k) q' ds"
    and "set q' = insert t (set q)" and "qstate k' = (tasks k', idle_task k, current k, dead_list k)"
    and "\<And>u. map_option tstate (tasks k' u) = map_option tstate (tasks k u)"
    and "\<And>u. map_option pid (tasks k' u) = map_option pid (tasks k u)"
proof -
  obtain r where r: "links T (idle_task k) (dead_list k) (current k # r) ds" "set (current k # r) = set q"
    using links_start [OF assms(1,2)] by blast
  let ?q = "current k # r"
  have t: "t \<notin> set ?q" "t \<notin> set ds" using r(1) assms(3) links_live by fastforce+
  have p: "path T (current k) ?q (current k)" "current k \<notin> set r" "distinct r" using r(1) by (auto simp: links_def ring_def)
  then have pk: "path (tasks k) (current k) ?q (current k)" using t(1) by (simp add: assms(5))
  define l where "l = last ?q"
  have l: "l \<in> set ?q" unfolding l_def by (rule last_in_set) simp
  then have lt: "l \<noteq> t" using t(1) by blast
  obtain y where y: "tasks k l = Some y" using path_live [OF pk l] by blast
  define T2 where "T2 = (tasks k)(l := Some (y\<lparr>tnext := t\<rparr>), t := Some (x\<lparr>tnext := current k\<rparr>))"
  have "path ((tasks k)(l := Some (y\<lparr>tnext := t\<rparr>))) (current k) ?q t"
    using path_redirect [OF pk] p(2,3) y by (simp add: l_def del: path.simps)
  then have "path T2 (current k) ?q t" unfolding T2_def using t(1) by (simp del: path.simps)
  then have "path T2 (current k) (?q @ [t]) (current k)" by (auto simp: T2_def)
  then have ring: "ring T2 (?q @ [t])" using p(2,3) t(1) by (simp add: ring_def del: path.simps)
  have "ring_pred (tasks k) (current k) (current k) = Some l"
    using ring_pred_path [OF pk] p(2) by (simp add: l_def)
  then have run: "enqueue t k = Some (k\<lparr>tasks := T2\<rparr>)"
    using y lt assms(5) by (simp add: enqueue_def upd_task_def T2_def)
  have "path T2 (dead_list k) ds 0 = path T (dead_list k) ds 0"
    using t(2) l r(1) by (intro path_cong) (auto simp: T2_def assms(5) links_def)
  then have "links T2 (idle_task k) (dead_list k) (?q @ [t]) ds"
    using ring r(1) t assms(4,5) y by (auto simp: links_def T2_def)
  moreover have "map_option tstate (T2 u) = map_option tstate (tasks k u)" "map_option pid (T2 u) = map_option pid (tasks k u)" for u
    using y by (auto simp: T2_def assms(5))
  moreover have "set (?q @ [t]) = insert t (set q)" using r(2) by auto
  ultimately show thesis using that [OF run] by (simp add: qstate_def)
qed

text \<open>A task other than the idle task moves from the ring to the head of the dead list.\<close>

lemma unlink_links:
  assumes "links (tasks k) i (dead_list k) q ds" and "t \<in> set q" and "t \<noteq> i" and "tasks k t = Some x"
    and "\<And>z. tnext (f z) = tnext z"
  obtains k' r where "unlink_dead t f k = Some k'" and "links (tasks k') i t r (t # ds)" and "set r = set q - {t}"
    and "qstate k' = (tasks k', idle_task k, current k, t)"
    and "tasks k' t = Some (f (x\<lparr>tstate := if ppid x \<noteq> 0 then TASK_ZOMBIE else TASK_DEAD, tnext := dead_list k\<rparr>))"
    and "\<And>u. u \<noteq> t \<Longrightarrow> map_option (\<lambda>y. y\<lparr>tnext := 0\<rparr>) (tasks k' u) = map_option (\<lambda>y. y\<lparr>tnext := 0\<rparr>) (tasks k u)"
proof -
  obtain r where r: "links (tasks k) i (dead_list k) (t # r) ds" "set (t # r) = set q"
    using links_start [OF assms(1,2)] by blast
  have p: "path (tasks k) t (t # r) t" "t \<notin> set r" "distinct r" "t \<notin> set ds" using r(1) by (auto simp: links_def ring_def)
  have "i \<in> set r" using r(1) assms(3) by (auto simp: links_def)
  then have ne: "r \<noteq> []" by auto
  have p2: "path (tasks k) (tnext x) r t" using p(1) assms(4) by auto
  then have h: "tnext x = hd r" using path_head ne by metis
  define l where "l = last r"
  have l: "l \<in> set r" "l \<noteq> t" using ne p(2) by (auto simp: l_def)
  obtain y where y: "tasks k l = Some y" using path_live [OF p2 l(1)] by blast
  define z where "z = f (x\<lparr>tstate := if ppid x \<noteq> 0 then TASK_ZOMBIE else TASK_DEAD, tnext := dead_list k\<rparr>)"
  define T2 where "T2 = (tasks k)(l := Some (y\<lparr>tnext := tnext x\<rparr>), t := Some z)"
  have "path ((tasks k)(l := Some (y\<lparr>tnext := tnext x\<rparr>))) (tnext x) r (tnext x)"
    using path_redirect [OF p2 ne p(3)] y by (simp add: l_def)
  then have "path T2 (hd r) r (hd r)" unfolding T2_def using p(2) h by simp
  then have ring: "ring T2 r" using p(3) ne by (simp add: ring_def)
  have "ring_pred (tasks k) t t = Some l"
    using ring_pred_path [OF p(1)] p(2) ne by (simp add: l_def)
  then have run: "unlink_dead t f k = Some (k\<lparr>tasks := T2, dead_list := t\<rparr>)"
    using y l(2) assms(4) by (simp add: unlink_dead_def upd_task_def T2_def z_def)
  have "l \<notin> set ds" using l(1) r(1) by (auto simp: links_def)
  then have "path T2 (dead_list k) ds 0" using r(1) p(4) by (simp add: T2_def links_def)
  then have "path T2 t (t # ds) 0" by (simp add: T2_def z_def assms(5))
  then have "links T2 i t r (t # ds)"
    using ring r(1) \<open>i \<in> set r\<close> assms(4) y by (auto simp: links_def T2_def)
  moreover have "map_option (\<lambda>y. y\<lparr>tnext := 0\<rparr>) (T2 u) = map_option (\<lambda>y. y\<lparr>tnext := 0\<rparr>) (tasks k u)" if "u \<noteq> t" for u
    using y that by (auto simp: T2_def)
  moreover have "set r = set q - {t}" using r(2) p(2) by auto
  moreover have "T2 t = Some z" by (simp add: T2_def)
  ultimately show thesis using that [OF run] by (simp add: qstate_def z_def)
qed

lemma unlinked_field:
  assumes "map_option (\<lambda>y. y\<lparr>tnext := 0\<rparr>) a = map_option (\<lambda>y. y\<lparr>tnext := 0\<rparr>) b" and "\<And>y. g (y\<lparr>tnext := 0\<rparr>) = g y"
  shows "map_option g a = map_option g b"
  using assms by (cases a; cases b) (auto, metis)

lemma state_in_cong: "map_option tstate (T' u) = map_option tstate (T u) \<Longrightarrow> state_in T' u S = state_in T u S"
  by (cases "T' u"; cases "T u") (auto simp: state_in_def)

lemma idle_alive_cong:
  "map_option tstate (T' i) = map_option tstate (T i) \<Longrightarrow> map_option pid (T' i) = map_option pid (T i) \<Longrightarrow>
     idle_alive T' i = idle_alive T i"
  by (cases "T' i"; cases "T i") (auto simp: idle_alive_def)

section \<open>The machine below the queues\<close>

text \<open>Calls into the memory subsystems leave the queues alone.\<close>

lemma set_heap_qstate [simp]: "qstate (set_heap h k) = qstate k"
  by (simp add: set_heap_def qstate_def)

lemma set_pool_qstate [simp]: "qstate (set_pool p k) = qstate k"
  by (simp add: set_pool_def)

lemma machine_update_qstate [simp]:
  "qstate (k\<lparr>fs := a\<rparr>) = qstate k" "qstate (k\<lparr>mm := b\<rparr>) = qstate k" "qstate (k\<lparr>page_cells := c\<rparr>) = qstate k"
  "qstate (k\<lparr>ram := d\<rparr>) = qstate k" "qstate (k\<lparr>tlb_log := e\<rparr>) = qstate k" "qstate (k\<lparr>next_pid := f\<rparr>) = qstate k"
  "qstate (k\<lparr>next_asid := g\<rparr>) = qstate k" "qstate (k\<lparr>ticks := h\<rparr>) = qstate k" "qstate (k\<lparr>tpidr := j\<rparr>) = qstate k"
  by (simp_all add: qstate_def)

lemma set_mmu_qstate [simp]: "qstate (set_mmu m k) = qstate k"
  by (simp add: set_mmu_def)

lemma set_vm_qstate [simp]: "qstate (set_vm v k) = qstate k"
  by (simp add: set_vm_def)

lemma call_qstate [simp]:
  "qstate (k_free_page a k) = qstate k" "qstate (k_free_pages a n k) = qstate k" "qstate (k_map l0 va pa m fl k) = qstate k"
  "qstate (k_free_tables l0 k) = qstate k" "qstate (k_zero a n k) = qstate k" "qstate (k_copy a b n k) = qstate k"
  "qstate (log_tlbi x k) = qstate k" "qstate (clear_errno a k) = qstate k" "qstate (map_text L l0 k) = qstate k"
  "qstate (map_stack l0 a k) = qstate k" "qstate (fork_frames L a b k) = qstate k"
  by (simp_all add: k_free_page_def k_free_pages_def k_map_def k_free_tables_def k_zero_def k_copy_def log_tlbi_def
      clear_errno_def map_text_def map_stack_def fork_frames_def Let_def)

lemma call_result_qstate:
  "k_alloc_page k = (k', a) \<Longrightarrow> qstate k' = qstate k" "k_alloc_pages k n = (k', a) \<Longrightarrow> qstate k' = qstate k"
  "k_create_tables k = (k', a) \<Longrightarrow> qstate k' = qstate k" "k_kmalloc k n = Some (k', a) \<Longrightarrow> qstate k' = qstate k"
  "k_kfree a k = Some k' \<Longrightarrow> qstate k' = qstate k" "k_unmap l0 va n k = Some k' \<Longrightarrow> qstate k' = qstate k"
  "sched_asid_alloc k = (k', asid) \<Longrightarrow> qstate k' = qstate k"
  by (auto simp: k_alloc_page_def k_alloc_pages_def k_create_tables_def k_kmalloc_def k_kfree_def k_unmap_def
      sched_asid_alloc_def Let_def split: prod.splits bind_splits if_splits)

lemma fold_qstate: "(\<And>x k. qstate (f x k) = qstate k) \<Longrightarrow> qstate (fold f xs k) = qstate k"
  by (rule fold_field)

section \<open>Reaping\<close>

lemma free_task_struct_qstate:
  assumes "free_task_struct t k = Some k'"
  shows "qstate k' = ((tasks k)(t := None), idle_task k, current k, dead_list k)"
proof -
  obtain k1 where k1: "k_kfree t k = Some k1" "k' = k1\<lparr>tasks := (tasks k1)(t := None)\<rparr>"
    using assms by (auto simp: free_task_struct_def split: bind_splits)
  have "qstate k1 = qstate k" using k1(1) by (rule call_result_qstate)
  then show ?thesis by (simp add: k1(2) qstate_def)
qed

lemma free_task_parts_qstate [simp]: "qstate (free_task_frames x k) = qstate k" "qstate (free_task_tables x k) = qstate k"
proof -
  have f: "qstate (fold (\<lambda>r k. if er_phys r \<noteq> 0 \<and> er_pages r \<noteq> 0 then k_free_pages (er_phys r) (er_pages r) k else k) rs k) = qstate k"
    for rs and k :: "'a kernel" by (rule fold_qstate) simp
  have g: "qstate (fold (\<lambda>(pa, va) k. if pa \<noteq> 0 then k_free_page pa k else k) gs k) = qstate k"
    for gs :: "(nat \<times> nat) list" and k :: "'a kernel" by (rule fold_qstate) (auto split: prod.splits)
  show "qstate (free_task_frames x k) = qstate k" unfolding free_task_frames_def Let_def by (simp only: f g split: if_split) simp
  show "qstate (free_task_tables x k) = qstate k" by (simp add: free_task_tables_def Let_def)
qed

lemma sched_free_task_qstate:
  assumes "sched_free_task t k = Some k'"
  shows "qstate k' = ((tasks k)(t := None), idle_task k, current k, dead_list k)"
proof -
  obtain k1 where k1: "free_task_struct t k1 = Some k'" "qstate k1 = qstate k"
    using assms unfolding sched_free_task_def Let_def by (auto split: bind_splits prod.splits if_splits)
  show ?thesis using free_task_struct_qstate [OF k1(1)] k1(2) by (simp add: qstate_def)
qed

text \<open>Detaching children changes parent fields only.\<close>

definition ppid_only :: "'w kernel \<Rightarrow> 'w kernel \<Rightarrow> bool" where
  "ppid_only k k' \<longleftrightarrow>
     (\<forall>u. map_option (\<lambda>x. x\<lparr>ppid := 0\<rparr>) (tasks k' u) = map_option (\<lambda>x. x\<lparr>ppid := 0\<rparr>) (tasks k u)) \<and>
     idle_task k' = idle_task k \<and> current k' = current k \<and> dead_list k' = dead_list k"

lemma ppid_only_refl: "ppid_only k k"
  by (simp add: ppid_only_def)

lemma ppid_only_trans: "ppid_only k k1 \<Longrightarrow> ppid_only k1 k2 \<Longrightarrow> ppid_only k k2"
  by (simp add: ppid_only_def)

lemma ppid_only_set: "tasks k t = Some x \<Longrightarrow> ppid_only k (k\<lparr>tasks := (tasks k)(t := Some (x\<lparr>ppid := p\<rparr>))\<rparr>)"
  by (simp add: ppid_only_def)

lemma ppid_only_field:
  assumes "ppid_only k k'" and "\<And>x. g (x\<lparr>ppid := 0\<rparr>) = g x"
  shows "map_option g (tasks k' u) = map_option g (tasks k u)"
proof -
  have "map_option (\<lambda>x. x\<lparr>ppid := 0\<rparr>) (tasks k' u) = map_option (\<lambda>x. x\<lparr>ppid := 0\<rparr>) (tasks k u)"
    using assms(1) by (simp add: ppid_only_def)
  then show ?thesis using assms(2) by (cases "tasks k' u"; cases "tasks k u") (auto, metis)
qed

lemma ppid_only_task:
  assumes "ppid_only k k'"
  shows "map_option tnext (tasks k' u) = map_option tnext (tasks k u)"
    and "map_option tstate (tasks k' u) = map_option tstate (tasks k u)"
    and "map_option pid (tasks k' u) = map_option pid (tasks k u)"
  by (rule ppid_only_field [OF assms], simp)+

lemma orphan_ring_ppid:
  assumes "orphan_ring pp head t k = Some k'"
  shows "ppid_only k k'"
proof (rule orphan_ring.raw_induct [OF _ assms], goal_cases)
  case (1 rec pp head t k k')
  obtain x where x: "tasks k t = Some x" using 1(2) by (auto split: option.splits)
  define k1 where "k1 = (if ppid x = pp then k\<lparr>tasks := (tasks k)(t := Some (x\<lparr>ppid := 0\<rparr>))\<rparr> else k)"
  have "ppid_only k k1" using x by (simp add: k1_def ppid_only_refl ppid_only_set)
  moreover have "k' = k1 \<or> rec pp head (tnext x) k1 = Some k'"
    using 1(2) x by (auto simp: k1_def [symmetric] Let_def split: if_splits)
  ultimately show ?case using 1(1) ppid_only_trans by blast
qed

lemma orphan_dead_ppid:
  assumes "orphan_dead pp d k = Some k'"
  shows "ppid_only k k'"
proof (rule orphan_dead.raw_induct [OF _ assms], goal_cases)
  case (1 rec pp d k k')
  show ?case
  proof (cases "d = 0")
    case True
    then show ?thesis using 1(2) ppid_only_refl by auto
  next
    case False
    then obtain x where x: "tasks k d = Some x" using 1(2) by (auto split: option.splits)
    define k1 where "k1 = (if ppid x = pp then k\<lparr>tasks := (tasks k)(d := Some (x\<lparr>ppid := 0\<rparr>))\<rparr> else k)"
    have "ppid_only k k1" using x by (simp add: k1_def ppid_only_refl ppid_only_set)
    moreover have "rec pp (tnext x) k1 = Some k'" using 1(2) x False by (simp add: k1_def)
    ultimately show ?thesis using 1(1) ppid_only_trans by blast
  qed
qed

lemma orphan_children_ppid: "sched_orphan_children pp k = Some k' \<Longrightarrow> ppid_only k k'"
  unfolding sched_orphan_children_def
  by (auto simp: ppid_only_refl split: if_splits bind_splits dest!: orphan_ring_ppid orphan_dead_ppid intro: ppid_only_trans)

text \<open>
  The state inside \<^verbatim>\<open>sched_reap\<close>: \<open>S\<close> are the corpses kept so far, linked from
  \<open>dead_list\<close> up to \<open>prev\<close>, whose own link is still the old one; \<open>rest\<close> are those not
  looked at yet.
\<close>

definition reaping :: "'w kernel \<Rightarrow> nat list \<Rightarrow> nat list \<Rightarrow> nat \<Rightarrow> nat \<Rightarrow> nat list \<Rightarrow> bool" where
  "reaping k q S prev c rest \<longleftrightarrow>
     ring (tasks k) q \<and> idle_task k \<in> set q \<and> path (tasks k) c rest 0 \<and>
     (if S = [] then dead_list k = 0 \<and> prev = 0 else prev = last S \<and> (\<exists>m. path (tasks k) (dead_list k) S m)) \<and>
     distinct (q @ S @ rest) \<and> 0 \<notin> set (q @ S @ rest) \<and> dom (tasks k) = set (q @ S @ rest)"

lemma reaping_keep:
  assumes "reaping k q S prev c (c # rest)" and "tasks k c = Some x"
  obtains k1 where "(if prev \<noteq> 0 then upd_task prev (\<lambda>y. y\<lparr>tnext := c\<rparr>) k else Some (k\<lparr>dead_list := c\<rparr>)) = Some k1"
    and "reaping k1 q (S @ [c]) c (tnext x) rest" and "idle_task k1 = idle_task k" "current k1 = current k"
    and "\<And>u. map_option tstate (tasks k1 u) = map_option tstate (tasks k u)"
    and "\<And>u. map_option pid (tasks k1 u) = map_option pid (tasks k u)"
proof (cases "S = []")
  case True
  then have "prev = 0" "reaping (k\<lparr>dead_list := c\<rparr>) q (S @ [c]) c (tnext x) rest"
    using assms by (auto simp: reaping_def)
  then show thesis by (intro that [of "k\<lparr>dead_list := c\<rparr>"]) simp_all
next
  case False
  then obtain m where m: "path (tasks k) (dead_list k) S m" "prev = last S" "distinct S" "last S \<in> set S"
    using assms(1) by (auto simp: reaping_def)
  then obtain y where y: "tasks k prev = Some y" using path_live by metis
  have p: "prev \<notin> set q" "prev \<notin> set rest" "prev \<noteq> c" "prev \<noteq> 0" "c \<notin> set S"
    using assms(1) m(2,4) by (auto simp: reaping_def)
  define T where "T = (tasks k)(prev := Some (y\<lparr>tnext := c\<rparr>))"
  have "path T (dead_list k) S c" using path_redirect [OF m(1) False m(3)] y by (simp add: T_def m(2))
  moreover have "T c = Some x" using assms(2) p(3) by (simp add: T_def)
  ultimately have d: "path T (dead_list k) (S @ [c]) (tnext x)" by auto
  have "ring T q" "path T (tnext x) rest 0"
    using assms p(1,2) by (auto simp: reaping_def ring_def T_def)
  moreover have "dom T = dom (tasks k)" using y by (auto simp: T_def)
  ultimately have "reaping (k\<lparr>tasks := T\<rparr>) q (S @ [c]) c (tnext x) rest"
    using assms(1) d by (auto simp: reaping_def)
  then show thesis
    using y p(4) by (intro that [of "k\<lparr>tasks := T\<rparr>"]) (simp_all add: upd_task_def T_def)
qed

lemma reaping_free:
  assumes "reaping k q S prev c (c # rest)" and "tasks k c = Some x"
    and "sched_orphan_children pp k = Some k1" and "sched_free_task c k1 = Some k2"
  shows "reaping k2 q S prev (tnext x) rest" and "idle_task k2 = idle_task k" and "current k2 = current k"
    and "u \<noteq> c \<Longrightarrow> map_option tstate (tasks k2 u) = map_option tstate (tasks k u)"
    and "u \<noteq> c \<Longrightarrow> map_option pid (tasks k2 u) = map_option pid (tasks k u)"
proof -
  note o = orphan_children_ppid [OF assms(3)]
  have q: "tasks k2 = (tasks k1)(c := None)" "idle_task k2 = idle_task k" "current k2 = current k" "dead_list k2 = dead_list k"
    using sched_free_task_qstate [OF assms(4)] o by (simp_all add: qstate_def ppid_only_def)
  have p: "path (tasks k1) a xs b = path (tasks k) a xs b" for a xs b
    by (rule path_cong) (rule ppid_only_task(1) [OF o])
  have "tasks k1 u = None \<longleftrightarrow> tasks k u = None" for u
    using ppid_only_task(1) [OF o, of u] by (cases "tasks k1 u"; cases "tasks k u") auto
  then have dm: "dom (tasks k1) = dom (tasks k)" by (simp add: dom_def)
  have c: "c \<notin> set q" "c \<notin> set S" "c \<notin> set rest" using assms(1) by (auto simp: reaping_def)
  have p2: "path (tasks k2) a xs b = path (tasks k) a xs b" if "c \<notin> set xs" for a xs b
    using that p by (simp add: q(1))
  have d2: "dom (tasks k2) = dom (tasks k) - {c}" using dm by (simp add: q(1))
  show "reaping k2 q S prev (tnext x) rest"
    using assms(1,2) c unfolding reaping_def ring_def q(2-4) p2 [OF c(1)] p2 [OF c(2)] p2 [OF c(3)] d2 by auto
  show "idle_task k2 = idle_task k" "current k2 = current k" using q by simp_all
  show "u \<noteq> c \<Longrightarrow> map_option tstate (tasks k2 u) = map_option tstate (tasks k u)"
    "u \<noteq> c \<Longrightarrow> map_option pid (tasks k2 u) = map_option pid (tasks k u)"
    using ppid_only_task(2,3) [OF o] by (simp_all add: q(1))
qed

lemma reap_loop_law:
  assumes "reap_loop prev c k = Some k'" and "reaping k q S prev c rest"
  shows "\<exists>ds. links (tasks k') (idle_task k) (dead_list k') q ds \<and> set ds \<subseteq> set S \<union> set rest \<and>
    idle_task k' = idle_task k \<and> current k' = current k \<and>
    (\<forall>u \<in> set q \<union> set ds. map_option tstate (tasks k' u) = map_option tstate (tasks k u) \<and>
       map_option pid (tasks k' u) = map_option pid (tasks k u))"
  using assms
proof (induction rest arbitrary: S prev c k)
  case Nil
  then have c: "c = 0" by (simp add: reaping_def)
  show ?case
  proof (cases "S = []")
    case True
    then have "k' = k" using Nil c by (subst (asm) reap_loop.simps) (simp add: reaping_def)
    then show ?thesis using Nil True c by (intro exI [of _ "[]"]) (auto simp: links_def reaping_def)
  next
    case False
    then obtain m where m: "path (tasks k) (dead_list k) S m" "prev = last S" "distinct S" "last S \<in> set S"
      using Nil(2) by (auto simp: reaping_def)
    then obtain y where y: "tasks k prev = Some y" using path_live by metis
    have p: "prev \<notin> set q" "prev \<noteq> 0" using Nil(2) m(2,4) by (auto simp: reaping_def)
    have k': "k' = k\<lparr>tasks := (tasks k)(prev := Some (y\<lparr>tnext := 0\<rparr>))\<rparr>"
      using Nil(1) c p(2) y by (subst (asm) reap_loop.simps) (simp add: upd_task_def)
    have "path (tasks k') (dead_list k) S 0" using path_redirect [OF m(1) False m(3)] y by (simp add: k' m(2))
    moreover have "ring (tasks k') q" using Nil(2) p(1) by (simp add: k' reaping_def ring_def)
    moreover have "dom (tasks k') = dom (tasks k)" using y by (simp add: k' domI insert_absorb)
    ultimately have "links (tasks k') (idle_task k) (dead_list k) q S"
      using Nil(2) unfolding links_def reaping_def by simp
    moreover have "map_option tstate (tasks k' u) = map_option tstate (tasks k u)"
      "map_option pid (tasks k' u) = map_option pid (tasks k u)" for u
      using y by (simp_all add: k')
    moreover have "dead_list k' = dead_list k" "idle_task k' = idle_task k" "current k' = current k" by (simp_all add: k')
    ultimately show ?thesis by (intro exI [of _ S]) simp
  qed
next
  case (Cons a rest)
  then obtain x where c: "c = a" "c \<noteq> 0" and x: "tasks k c = Some x" by (auto simp: reaping_def)
  note R = Cons.prems(2) [folded c(1)]
  show ?case
  proof (cases "ppid x \<noteq> 0")
    case True
    obtain k1 where k1: "(if prev \<noteq> 0 then upd_task prev (\<lambda>y. y\<lparr>tnext := c\<rparr>) k else Some (k\<lparr>dead_list := c\<rparr>)) = Some k1"
      "reaping k1 q (S @ [c]) c (tnext x) rest" "idle_task k1 = idle_task k" "current k1 = current k"
      "\<And>u. map_option tstate (tasks k1 u) = map_option tstate (tasks k u)"
      "\<And>u. map_option pid (tasks k1 u) = map_option pid (tasks k u)"
      by (rule reaping_keep [OF R x]) blast
    have "reap_loop c (tnext x) k1 = Some k'"
      using Cons.prems(1) c x True k1(1) by (subst (asm) reap_loop.simps) simp
    from Cons.IH [OF this k1(2)] show ?thesis unfolding k1(3-6) c(1) by auto
  next
    case False
    then obtain k1 k2 where k2: "sched_orphan_children (pid x) k = Some k1" "sched_free_task c k1 = Some k2"
      "reap_loop prev (tnext x) k2 = Some k'"
      using Cons.prems(1) c x by (subst (asm) reap_loop.simps) (auto split: bind_splits)
    note f = reaping_free [OF R x k2(1,2)]
    from Cons.IH [OF k2(3) f(1)] obtain ds where ds: "links (tasks k') (idle_task k) (dead_list k') q ds" "set ds \<subseteq> set S \<union> set rest"
      "idle_task k' = idle_task k" "current k' = current k"
      "\<forall>u \<in> set q \<union> set ds. map_option tstate (tasks k' u) = map_option tstate (tasks k2 u) \<and>
         map_option pid (tasks k' u) = map_option pid (tasks k2 u)"
      unfolding f(2,3) by blast
    have cn: "c \<notin> set q \<union> set ds" using R ds(2) by (auto simp: reaping_def)
    have "map_option tstate (tasks k' u) = map_option tstate (tasks k u) \<and>
        map_option pid (tasks k' u) = map_option pid (tasks k u)" if "u \<in> set q \<union> set ds" for u
      using bspec [OF ds(5) that] f(4,5) [of u] that cn by (cases "u = c") simp_all
    then show ?thesis using ds(1-4) by (intro exI [of _ ds]) auto
  qed
qed

lemma sched_reap_queues:
  assumes "queues k q ds" and "sched_reap k = Some k'"
  obtains ds' where "queues k' q ds'"
proof -
  have "reaping (k\<lparr>dead_list := 0\<rparr>) q [] 0 (dead_list k) ds"
    using assms(1) by (auto simp: reaping_def queues_def links_def)
  from reap_loop_law [OF _ this] assms(2) obtain ds' where
    d: "links (tasks k') (idle_task k) (dead_list k') q ds'" "set ds' \<subseteq> set ds" "idle_task k' = idle_task k" "current k' = current k"
    "\<And>u. u \<in> set q \<union> set ds' \<Longrightarrow> map_option tstate (tasks k' u) = map_option tstate (tasks k u)"
    "\<And>u. u \<in> set q \<union> set ds' \<Longrightarrow> map_option pid (tasks k' u) = map_option pid (tasks k u)"
    unfolding sched_reap_def by fastforce
  have st: "state_in (tasks k') u X = state_in (tasks k) u X" if "u \<in> set q \<union> set ds'" for u X
    using d(5) [OF that] by (rule state_in_cong)
  have iq: "idle_task k \<in> set q" "current k \<in> set q" using assms(1) by (auto simp: queues_def links_def)
  have "idle_alive (tasks k') (idle_task k)"
    using assms(1) idle_alive_cong [of "tasks k'" "idle_task k" "tasks k"] d(5,6) [of "idle_task k"] iq(1) by (simp add: queues_def)
  then have "queues k' q ds'"
    using assms(1) d(1-4) st iq unfolding queues_def by (auto simp: subset_iff)
  then show thesis by (rule that)
qed

section \<open>Switching\<close>

definition ready :: "'w kernel \<Rightarrow> nat \<Rightarrow> bool" where
  "ready k t \<longleftrightarrow> (\<exists>x. tasks k t = Some x \<and> tstate x = TASK_READY)"

definition eligible :: "'w kernel \<Rightarrow> nat \<Rightarrow> bool" where
  "eligible k t \<longleftrightarrow> ready k t \<and> t \<noteq> idle_task k"

text \<open>
  The search along the tasks \<open>xs\<close> after the current one stops at the first eligible task; when there
  is none, it has seen whether the idle task is ready.
\<close>

lemma pick_loop_law:
  assumes "path (tasks k) c xs prev" and "prev \<notin> set xs" and "idle_task k \<noteq> 0"
  shows "\<exists>fb'. pick_loop k prev c fb = Some (case find (eligible k) xs of Some u \<Rightarrow> u | None \<Rightarrow> prev, fb') \<and>
    (find (eligible k) xs = None \<longrightarrow>
       fb' = (if fb \<noteq> 0 then fb else if idle_task k \<in> set xs \<and> ready k (idle_task k) then idle_task k else 0))"
  using assms(1,2)
proof (induction xs arbitrary: c fb)
  case Nil
  then show ?case by (subst pick_loop.simps) simp
next
  case (Cons a xs)
  then obtain x where x: "c = a" "tasks k a = Some x" "path (tasks k) (tnext x) xs prev" "prev \<noteq> a" "prev \<notin> set xs" by auto
  note IH = Cons.IH [OF x(3,5)]
  show ?case
  proof (cases "eligible k a")
    case True
    then have "tstate x = TASK_READY" "a \<noteq> idle_task k" using x(2) by (auto simp: eligible_def ready_def)
    then show ?thesis using True x by (subst pick_loop.simps) simp
  next
    case False
    define fb1 where "fb1 = (if tstate x = TASK_READY \<and> fb = 0 then a else fb)"
    have step: "pick_loop k prev c fb = pick_loop k prev (tnext x) fb1"
      using False x by (subst pick_loop.simps) (auto simp: eligible_def ready_def fb1_def)
    have fb1: "(if fb1 \<noteq> 0 then fb1 else if idle_task k \<in> set xs \<and> ready k (idle_task k) then idle_task k else 0) =
        (if fb \<noteq> 0 then fb else if idle_task k \<in> set (a # xs) \<and> ready k (idle_task k) then idle_task k else 0)"
      using False x(2) assms(3) by (auto simp: fb1_def eligible_def ready_def)
    have "find (eligible k) (a # xs) = find (eligible k) xs" using False by simp
    with IH [of fb1] show ?thesis unfolding step fb1 by simp
  qed
qed

lemma upd_task_Some: "tasks k t = Some x \<Longrightarrow> upd_task t f k = Some (k\<lparr>tasks := (tasks k)(t := Some (f x))\<rparr>)"
  by (simp add: upd_task_def)

lemma context_switch_law:
  assumes "tasks k prev = Some p" and "tasks k nxt = Some y"
  obtains k' where "context_switch prev nxt k = Some k'"
    and "qstate k' = ((tasks k)(prev := Some (p\<lparr>tpidr_el0 := tpidr k\<rparr>)), idle_task k, current k, dead_list k)"
proof -
  have "\<exists>z. ((tasks k)(prev := Some (p\<lparr>tpidr_el0 := tpidr k\<rparr>))) nxt = Some z" using assms(2) by simp
  then obtain z where z: "((tasks k)(prev := Some (p\<lparr>tpidr_el0 := tpidr k\<rparr>))) nxt = Some z" by blast
  define k1 where "k1 = k\<lparr>tasks := (tasks k)(prev := Some (p\<lparr>tpidr_el0 := tpidr k\<rparr>))\<rparr>"
  define k' where "k' = (if ttbr0 z = 0 then k1 else k1\<lparr>mm := (mm k1)\<lparr>regs := (regs (mm k1))\<lparr>ttbr0_el1 := ttbr0 z\<rparr>\<rparr>, tpidr := tpidr_el0 z\<rparr>)"
  have "tasks k1 nxt = Some z" using z by (simp add: k1_def)
  then have "context_switch prev nxt k = Some k'"
    using assms(1) by (simp add: context_switch_def upd_task_Some k1_def [symmetric] k'_def)
  moreover have "qstate k' = qstate k1" by (simp add: k'_def qstate_def)
  ultimately show thesis using that by (simp add: k1_def qstate_def)
qed

text \<open>The ring after the old task has been put back or taken out, with nobody running.\<close>

definition idle_queues :: "'w kernel \<Rightarrow> nat list \<Rightarrow> nat list \<Rightarrow> bool" where
  "idle_queues k q ds \<longleftrightarrow>
     links (tasks k) (idle_task k) (dead_list k) q ds \<and>
     (\<forall>t \<in> set q. state_in (tasks k) t {TASK_READY, TASK_SLEEPING}) \<and>
     (\<forall>t \<in> set ds. state_in (tasks k) t {TASK_DEAD, TASK_ZOMBIE}) \<and> idle_alive (tasks k) (idle_task k)"

lemma start_task:
  assumes "idle_queues k q ds" and "nxt \<in> set q" and "tasks k prev = Some p"
  obtains k1 k' where "upd_task nxt (\<lambda>x. x\<lparr>tstate := TASK_RUNNING\<rparr>) k = Some k1"
    and "context_switch prev nxt (k1\<lparr>current := nxt\<rparr>) = Some k'" and "queues k' q ds"
    and "qstate k' = (tasks k', idle_task k, nxt, dead_list k)"
    and "\<And>t. t \<noteq> nxt \<Longrightarrow> map_option tstate (tasks k' t) = map_option tstate (tasks k t)"
    and "\<And>t. map_option pid (tasks k' t) = map_option pid (tasks k t)"
    and "map_option tstate (tasks k' nxt) = Some TASK_RUNNING"
proof -
  have L: "links (tasks k) (idle_task k) (dead_list k) q ds" using assms(1) by (simp add: idle_queues_def)
  obtain x where x: "tasks k nxt = Some x" using links_live [OF L] assms(2) by blast
  define k1 where "k1 = k\<lparr>tasks := (tasks k)(nxt := Some (x\<lparr>tstate := TASK_RUNNING\<rparr>))\<rparr>"
  have u: "upd_task nxt (\<lambda>x. x\<lparr>tstate := TASK_RUNNING\<rparr>) k = Some k1" using upd_task_Some [OF x] by (simp add: k1_def)
  obtain p1 where p1: "tasks (k1\<lparr>current := nxt\<rparr>) prev = Some p1" using assms(3) by (cases "prev = nxt") (simp_all add: k1_def)
  have n1: "tasks (k1\<lparr>current := nxt\<rparr>) nxt = Some (x\<lparr>tstate := TASK_RUNNING\<rparr>)" by (simp add: k1_def)
  obtain k' where k': "context_switch prev nxt (k1\<lparr>current := nxt\<rparr>) = Some k'"
    "qstate k' = ((tasks k1)(prev := Some (p1\<lparr>tpidr_el0 := tpidr k\<rparr>)), idle_task k, nxt, dead_list k)"
    by (rule context_switch_law [OF p1 n1]) (simp add: k1_def)
  have t': "tasks k' = (tasks k1)(prev := Some (p1\<lparr>tpidr_el0 := tpidr k\<rparr>))" using k'(2) by (simp add: qstate_def)
  have p1k: "tasks k1 prev = Some p1" using p1 by simp
  have nx: "map_option tnext (tasks k' t) = map_option tnext (tasks k t)" for t
    using p1k x by (auto simp: t' k1_def split: if_splits)
  have st: "map_option tstate (tasks k' t) = (if t = nxt then Some TASK_RUNNING else map_option tstate (tasks k t))" for t
    using p1k x by (auto simp: t' k1_def split: if_splits)
  have pd: "map_option pid (tasks k' t) = map_option pid (tasks k t)" for t
    using p1k x by (auto simp: t' k1_def split: if_splits)
  have si: "state_in (tasks k') t X = state_in (tasks k) t X" if "t \<noteq> nxt" for t X
    using st [of t] that by (intro state_in_cong) simp
  have run: "state_in (tasks k') nxt (- {TASK_ZOMBIE})" using st [of nxt] by (auto simp: state_in_def)
  have nd: "nxt \<notin> set ds" using L assms(2) by (auto simp: links_def)
  have "idle_alive (tasks k') (idle_task k)"
  proof (cases "nxt = idle_task k")
    case True
    then show ?thesis
      using assms(1) x st [of nxt] pd [of nxt] by (auto simp: idle_queues_def idle_alive_def)
  next
    case False
    then show ?thesis
      using assms(1) idle_alive_cong [of "tasks k'" "idle_task k" "tasks k"] st [of "idle_task k"] pd by (simp add: idle_queues_def)
  qed
  moreover have "links (tasks k') (idle_task k) (dead_list k) q ds" using links_cong [OF nx] L by simp
  moreover have "state_in (tasks k') t {TASK_READY, TASK_SLEEPING}" if "t \<in> set q - {nxt}" for t
    using that si assms(1) by (simp add: idle_queues_def)
  moreover have "state_in (tasks k') t {TASK_DEAD, TASK_ZOMBIE}" if "t \<in> set ds" for t
    using that si nd assms(1) by (cases "t = nxt") (simp_all add: idle_queues_def)
  ultimately have "queues k' q ds"
    using assms(2) k'(2) run unfolding queues_def qstate_def by simp
  then show thesis using that [OF u k'(1)] k'(2) st pd by (simp add: qstate_def)
qed

text \<open>Putting the current task back, or moving it to the dead list.\<close>

lemma stop_task:
  assumes "queues k q ds" and "tasks k (current k) = Some p"
  obtains k1 q1 ds1 where
      "(if tstate p = TASK_RUNNING then upd_task (current k) (\<lambda>x. x\<lparr>tstate := TASK_READY\<rparr>) k
        else if tstate p = TASK_DEAD then unlink_dead (current k) id k else Some k) = Some k1"
    and "idle_queues k1 q1 ds1" and "idle_task k1 = idle_task k"
    and "set q1 = (if tstate p = TASK_DEAD then set q - {current k} else set q)"
    and "\<exists>p1. tasks k1 (current k) = Some p1"
    and "\<And>t. t \<noteq> current k \<Longrightarrow> map_option tstate (tasks k1 t) = map_option tstate (tasks k t)"
    and "\<And>t. map_option pid (tasks k1 t) = map_option pid (tasks k t)"
    and "tstate p \<noteq> TASK_DEAD \<Longrightarrow> q1 = q \<and> ds1 = ds"
proof -
  have Q: "links (tasks k) (idle_task k) (dead_list k) q ds" "current k \<in> set q" "tstate p \<noteq> TASK_ZOMBIE"
    "idle_alive (tasks k) (idle_task k)"
    "\<And>t. t \<in> set q \<Longrightarrow> t \<noteq> current k \<Longrightarrow> state_in (tasks k) t {TASK_READY, TASK_SLEEPING}"
    "\<And>t. t \<in> set ds \<Longrightarrow> state_in (tasks k) t {TASK_DEAD, TASK_ZOMBIE}"
    using assms unfolding queues_def state_in_def by auto
  have cd: "current k \<notin> set ds" using Q(1,2) by (auto simp: links_def)
  consider (run) "tstate p = TASK_RUNNING" | (dead) "tstate p = TASK_DEAD" | (other) "tstate p \<in> {TASK_READY, TASK_SLEEPING}"
    using Q(3) by (cases "tstate p") auto
  then show thesis
  proof cases
    case run
    define k1 where "k1 = k\<lparr>tasks := (tasks k)(current k := Some (p\<lparr>tstate := TASK_READY\<rparr>))\<rparr>"
    have "links (tasks k1) (idle_task k) (dead_list k) q ds"
      using links_update [of "tasks k" "current k" p] assms(2) Q(1) by (simp add: k1_def)
    moreover have "state_in (tasks k1) t {TASK_READY, TASK_SLEEPING}" if "t \<in> set q" for t
      using Q(5) [OF that] by (cases "t = current k") (simp_all add: k1_def state_in_def)
    moreover have "state_in (tasks k1) t {TASK_DEAD, TASK_ZOMBIE}" if "t \<in> set ds" for t
      using Q(6) [OF that] cd that by (auto simp: k1_def state_in_def)
    moreover have "idle_alive (tasks k1) (idle_task k)" using Q(4) assms(2) by (auto simp: k1_def idle_alive_def)
    ultimately have "idle_queues k1 q ds" by (simp add: idle_queues_def k1_def)
    then show thesis
      by (rule that [rotated]) (use run assms(2) upd_task_Some [OF assms(2)] in \<open>simp_all add: k1_def\<close>)
  next
    case other
    then have "state_in (tasks k) (current k) {TASK_READY, TASK_SLEEPING}" using assms(2) by (simp add: state_in_def)
    then have "state_in (tasks k) t {TASK_READY, TASK_SLEEPING}" if "t \<in> set q" for t
      using Q(5) [OF that] by (cases "t = current k") simp_all
    then have "idle_queues k q ds" using Q by (simp add: idle_queues_def)
    then show thesis by (rule that [rotated]) (use other assms(2) in auto)
  next
    case dead
    then have ni: "current k \<noteq> idle_task k" using Q(4) assms(2) by (auto simp: idle_alive_def)
    obtain k1 r where k1: "unlink_dead (current k) id k = Some k1" "links (tasks k1) (idle_task k) (current k) r (current k # ds)"
      "set r = set q - {current k}" "qstate k1 = (tasks k1, idle_task k, current k, current k)"
      "tasks k1 (current k) = Some (id (p\<lparr>tstate := if ppid p \<noteq> 0 then TASK_ZOMBIE else TASK_DEAD, tnext := dead_list k\<rparr>))"
      "\<And>u. u \<noteq> current k \<Longrightarrow> map_option (\<lambda>y. y\<lparr>tnext := 0\<rparr>) (tasks k1 u) = map_option (\<lambda>y. y\<lparr>tnext := 0\<rparr>) (tasks k u)"
      using unlink_links [OF Q(1,2) ni assms(2), of id] by auto
    have st: "map_option tstate (tasks k1 u) = map_option tstate (tasks k u)" if "u \<noteq> current k" for u
      by (rule unlinked_field [OF k1(6) [OF that]]) simp
    have pd: "map_option pid (tasks k1 u) = map_option pid (tasks k u)" for u
      using unlinked_field [OF k1(6) [of u], of pid] k1(5) assms(2) by (cases "u = current k") simp_all
    have "state_in (tasks k1) t {TASK_READY, TASK_SLEEPING}" if "t \<in> set r" for t
      using that k1(3) Q(5) [of t] state_in_cong [of "tasks k1" t "tasks k"] st [of t] by simp
    moreover have "state_in (tasks k1) t {TASK_DEAD, TASK_ZOMBIE}" if "t \<in> set (current k # ds)" for t
    proof (cases "t = current k")
      case True
      then show ?thesis using k1(5) by (simp add: state_in_def)
    next
      case False
      then show ?thesis using that Q(6) [of t] state_in_cong [of "tasks k1" t "tasks k"] st [of t] by simp
    qed
    moreover have "idle_alive (tasks k1) (idle_task k)"
      using Q(4) idle_alive_cong [of "tasks k1" "idle_task k" "tasks k"] st [of "idle_task k"] pd ni by simp
    ultimately have "idle_queues k1 r (current k # ds)" using k1(2,4) by (simp add: idle_queues_def qstate_def)
    then show thesis
      by (rule that [rotated]) (use k1(1,3-5) st pd dead in \<open>auto simp: qstate_def\<close>)
  qed
qed

text \<open>The task a round of scheduling runs next, given the tasks \<open>r\<close> that follow the current one.\<close>

definition choice :: "'w kernel \<Rightarrow> task \<Rightarrow> nat list \<Rightarrow> nat" where
  "choice k p r =
     (case find (eligible k) r of
        Some u \<Rightarrow> u
      | None \<Rightarrow> if tstate p = TASK_RUNNING \<or> idle_task k \<notin> set r \<or> \<not> ready k (idle_task k) then current k else idle_task k)"

lemma queues_start:
  assumes "queues k q ds"
  obtains r where "queues k (current k # r) ds" and "set (current k # r) = set q"
proof -
  obtain r where r: "links (tasks k) (idle_task k) (dead_list k) (current k # r) ds" "set (current k # r) = set q"
    using links_start assms by (metis queues_def)
  then have "queues k (current k # r) ds" using assms unfolding queues_def by metis
  then show thesis using that r(2) by blast
qed

lemma schedule_law:
  assumes "sched_reap k0 = Some k" and "queues k (current k # r) ds" and "tasks k (current k) = Some p"
  obtains k' q' ds' where "schedule k0 = Some k'" and "queues k' q' ds'" and "current k' = choice k p r"
    and "idle_task k' = idle_task k"
    and "choice k p r = current k \<Longrightarrow> k' = k"
    and "choice k p r \<noteq> current k \<Longrightarrow> map_option tstate (tasks k' (choice k p r)) = Some TASK_RUNNING \<and>
      set q' = (if tstate p = TASK_DEAD then set r else set (current k # r))"
    and "\<And>t. t \<noteq> current k \<Longrightarrow> t \<noteq> choice k p r \<Longrightarrow> map_option tstate (tasks k' t) = map_option tstate (tasks k t)"
    and "tstate p \<noteq> TASK_DEAD \<Longrightarrow> q' = current k # r \<and> ds' = ds"
proof -
  have L: "links (tasks k) (idle_task k) (dead_list k) (current k # r) ds" using assms(2) by (simp add: queues_def)
  have R: "path (tasks k) (tnext p) r (current k)" "current k \<notin> set r" "idle_task k \<noteq> 0" "current k \<noteq> 0"
    using L assms(3) by (auto simp: links_def ring_def)
  obtain fb where fb: "pick_loop k (current k) (tnext p) 0 = Some (case find (eligible k) r of Some u \<Rightarrow> u | None \<Rightarrow> current k, fb)"
    "find (eligible k) r = None \<Longrightarrow> fb = (if idle_task k \<in> set r \<and> ready k (idle_task k) then idle_task k else 0)"
    using pick_loop_law [OF R(1-3), of 0] by auto
  define nxt where "nxt = choice k p r"
  have "nxt = current k \<or> nxt \<in> set r"
    by (auto simp: nxt_def choice_def find_Some_iff split: option.splits)
  have run: "schedule k0 = (if nxt = current k then Some k else switch_to (current k) nxt k)"
  proof (cases "find (eligible k) r")
    case None
    then show ?thesis using assms(1,3) fb R(2-4) by (auto simp: schedule_def nxt_def choice_def)
  next
    case (Some u)
    then have "u \<in> set r" by (auto simp: find_Some_iff)
    then have "u \<noteq> current k" using R(2) by metis
    then show ?thesis using Some assms(1,3) fb by (simp add: schedule_def nxt_def choice_def)
  qed
  show thesis
  proof (cases "nxt = current k")
    case True
    then show thesis by (intro that [of k "current k # r" ds]) (use run assms(2) in \<open>simp_all add: nxt_def\<close>)
  next
    case False
    then have nr: "nxt \<in> set r" using \<open>nxt = current k \<or> nxt \<in> set r\<close> by simp
    obtain k1 q1 ds1 where k1: "(if tstate p = TASK_RUNNING then upd_task (current k) (\<lambda>x. x\<lparr>tstate := TASK_READY\<rparr>) k
        else if tstate p = TASK_DEAD then unlink_dead (current k) id k else Some k) = Some k1"
      "idle_queues k1 q1 ds1" "idle_task k1 = idle_task k"
      "set q1 = (if tstate p = TASK_DEAD then set (current k # r) - {current k} else set (current k # r))"
      "\<exists>p1. tasks k1 (current k) = Some p1"
      "\<And>t. t \<noteq> current k \<Longrightarrow> map_option tstate (tasks k1 t) = map_option tstate (tasks k t)"
      "tstate p \<noteq> TASK_DEAD \<Longrightarrow> q1 = current k # r \<and> ds1 = ds"
      by (rule stop_task [OF assms(2,3)]) blast
    obtain p1 where p1: "tasks k1 (current k) = Some p1" using k1(5) by blast
    have "nxt \<in> set q1" using nr False k1(4) by auto
    from k1(2) this p1 obtain k2 k' where k': "upd_task nxt (\<lambda>x. x\<lparr>tstate := TASK_RUNNING\<rparr>) k1 = Some k2"
      "context_switch (current k) nxt (k2\<lparr>current := nxt\<rparr>) = Some k'" "queues k' q1 ds1"
      "qstate k' = (tasks k', idle_task k1, nxt, dead_list k1)"
      "\<And>t. t \<noteq> nxt \<Longrightarrow> map_option tstate (tasks k' t) = map_option tstate (tasks k1 t)"
      "map_option tstate (tasks k' nxt) = Some TASK_RUNNING"
      by (rule start_task) blast
    have "switch_to (current k) nxt k = Some k'"
      using assms(3) k1(1) k'(1,2) by (simp add: switch_to_def)
    moreover have "set q1 = (if tstate p = TASK_DEAD then set r else set (current k # r))" using k1(4) R(2) by auto
    ultimately show thesis
      by (intro that [of k' q1 ds1]) (use run False k'(3-6) k1(3,6,7) in \<open>simp_all add: nxt_def [symmetric] qstate_def\<close>)
  qed
qed

lemma schedule_ok:
  assumes "queue_ok k" and "schedule k = Some k'"
  shows "queue_ok k'"
proof -
  obtain q ds where q: "queues k q ds" using assms(1) by (auto simp: queue_ok_def)
  obtain k1 where k1: "sched_reap k = Some k1" using assms(2) by (auto simp: schedule_def split: bind_splits)
  obtain ds1 where "queues k1 q ds1" using sched_reap_queues [OF q k1] by blast
  then obtain r where r: "queues k1 (current k1 # r) ds1" by (rule queues_start)
  then obtain p where "tasks k1 (current k1) = Some p" using links_live by (fastforce simp: queues_def)
  from schedule_law [OF k1 r this] assms(2) show ?thesis unfolding queue_ok_def by (metis option.inject)
qed

section \<open>Exit, kill, sleep and wake-up\<close>

lemma queues_current:
  assumes "queues k q ds" and "tasks k (current k) = Some p" and "tnext p' = tnext p" and "pid p' = pid p"
    and "tstate p' \<noteq> TASK_ZOMBIE" and "current k = idle_task k \<Longrightarrow> tstate p' \<noteq> TASK_DEAD"
  shows "queues (k\<lparr>tasks := (tasks k)(current k := Some p')\<rparr>) q ds"
proof -
  have Q: "links (tasks k) (idle_task k) (dead_list k) q ds" "current k \<in> set q" "idle_alive (tasks k) (idle_task k)"
    using assms(1) by (simp_all add: queues_def)
  have "current k \<notin> set ds" using Q(1,2) by (auto simp: links_def)
  moreover have "links ((tasks k)(current k := Some p')) (idle_task k) (dead_list k) q ds"
    using links_update [of "tasks k" "current k" p p'] assms(2,3) Q(1) by simp
  moreover have "idle_alive ((tasks k)(current k := Some p')) (idle_task k)"
    using Q(3) assms(2,4-6) by (auto simp: idle_alive_def)
  ultimately show ?thesis
    using assms(1,5) by (auto simp: queues_def state_in_def)
qed

lemma queue_ok_current:
  assumes "queue_ok k" and "tasks k (current k) = Some p" and "tnext p' = tnext p" and "pid p' = pid p"
    and "tstate p' \<noteq> TASK_ZOMBIE" and "current k = idle_task k \<Longrightarrow> tstate p' \<noteq> TASK_DEAD"
  shows "queue_ok (k\<lparr>tasks := (tasks k)(current k := Some p')\<rparr>)"
proof -
  obtain q ds where "queues k q ds" using assms(1) by (auto simp: queue_ok_def)
  from queues_current [OF this assms(2-6)] show ?thesis unfolding queue_ok_def by blast
qed

lemma current_task:
  assumes "queue_ok k"
  obtains p where "tasks k (current k) = Some p" and "tstate p \<noteq> TASK_ZOMBIE"
proof -
  obtain q ds where q: "queues k q ds" using assms by (auto simp: queue_ok_def)
  then obtain p where "tasks k (current k) = Some p" using links_live by (fastforce simp: queues_def)
  then show thesis using that q by (auto simp: queues_def state_in_def)
qed

lemma task_exit_ok:
  assumes "queue_ok k" and "current k \<noteq> idle_task k" and "task_exit code k = Some k'"
  shows "queue_ok k'"
proof -
  obtain p where p: "tasks k (current k) = Some p" "tstate p \<noteq> TASK_ZOMBIE" by (rule current_task [OF assms(1)])
  define k1 where "k1 = k\<lparr>tasks := (tasks k)(current k := Some (p\<lparr>exit_code := code, tstate := TASK_DEAD\<rparr>))\<rparr>"
  have "queue_ok k1"
    unfolding k1_def by (rule queue_ok_current [OF assms(1) p(1)]) (use assms(2) in simp_all)
  moreover have "schedule k1 = Some k'" using assms(3) upd_task_Some [OF p(1)] by (simp add: task_exit_def k1_def)
  ultimately show ?thesis by (rule schedule_ok)
qed

lemma sleep_ms_ok:
  assumes "queue_ok k" and "sleep_ms ms k = Some k'"
  shows "queue_ok k'"
proof -
  obtain p where p: "tasks k (current k) = Some p" "tstate p \<noteq> TASK_ZOMBIE" by (rule current_task [OF assms(1)])
  define p' where "p' = p\<lparr>sleep_until := u64 (ticks k + (if ms div TIMER_INTERVAL_MS = 0 then 1 else ms div TIMER_INTERVAL_MS)),
    tstate := TASK_SLEEPING\<rparr>"
  define k1 where "k1 = k\<lparr>tasks := (tasks k)(current k := Some p')\<rparr>"
  have "queue_ok k1"
    unfolding k1_def by (rule queue_ok_current [OF assms(1) p(1)]) (simp_all add: p'_def)
  moreover have "schedule k1 = Some k'"
    using assms(2) upd_task_Some [OF p(1)] by (simp add: sleep_ms_def Let_def k1_def p'_def)
  ultimately show ?thesis by (rule schedule_ok)
qed

lemma find_SomeD: "find P xs = Some u \<Longrightarrow> u \<in> set xs \<and> P u"
  by (auto simp: find_Some_iff)

lemma kill_find_law:
  assumes "path (tasks k) t xs head" and "xs \<noteq> []" and "head \<notin> set (tl xs)"
  shows "kill_find k p head t =
    Some (case find (\<lambda>u. map_option pid (tasks k u) = Some p) xs of Some u \<Rightarrow> u | None \<Rightarrow> 0)"
  using assms
proof (induction xs arbitrary: t)
  case (Cons a xs)
  then obtain x where x: "t = a" "tasks k a = Some x" "path (tasks k) (tnext x) xs head" by auto
  show ?case
  proof (cases xs)
    case Nil
    then show ?thesis using x by (subst kill_find.simps) auto
  next
    case (Cons b ys)
    then have "tnext x = b" "b \<noteq> head" using x(3) Cons.prems(3) by auto
    then show ?thesis using x Cons Cons.IH [OF x(3)] Cons.prems(3) by (subst kill_find.simps) auto
  qed
qed simp

lemma sched_kill_ok:
  assumes "queue_ok k" and "sched_kill_task p k = Some (k', r)"
  shows "queue_ok k'"
proof (cases "p = 0")
  case True
  then show ?thesis using assms by (simp add: sched_kill_task_def)
next
  case False
  obtain q ds where Q: "queues k q ds" using assms(1) by (auto simp: queue_ok_def)
  then have L: "links (tasks k) (idle_task k) (dead_list k) q ds" by (simp add: queues_def)
  then obtain rs where rs: "links (tasks k) (idle_task k) (dead_list k) (idle_task k # rs) ds" "set (idle_task k # rs) = set q"
    using links_start by (metis links_def)
  define t where "t = (case find (\<lambda>u. map_option pid (tasks k u) = Some p) (idle_task k # rs) of Some u \<Rightarrow> u | None \<Rightarrow> 0)"
  have find: "kill_find k p (idle_task k) (idle_task k) = Some t"
    unfolding t_def by (rule kill_find_law) (use rs(1) in \<open>auto simp: links_def ring_def\<close>)
  show ?thesis
  proof (cases "t = 0")
    case True
    then show ?thesis using assms False find by (simp add: sched_kill_task_def)
  next
    case t0: False
    then have "find (\<lambda>u. map_option pid (tasks k u) = Some p) (idle_task k # rs) = Some t"
      by (simp add: t_def del: find.simps split: option.splits)
    from find_SomeD [OF this] have t: "t \<in> set q" "map_option pid (tasks k t) = Some p" using rs(2) by auto
    then obtain x where x: "tasks k t = Some x" "pid x = p" by auto
    then have ni: "t \<noteq> idle_task k" using Q False by (auto simp: queues_def idle_alive_def)
    consider (dead) "tstate x = TASK_DEAD" | (self) "tstate x \<noteq> TASK_DEAD" "t = current k" | (other) "tstate x \<noteq> TASK_DEAD" "t \<noteq> current k"
      by blast
    then show ?thesis
    proof cases
      case dead
      then show ?thesis using assms False find t0 x by (simp add: sched_kill_task_def)
    next
      case self
      then have "task_exit 0 k = Some k'"
        using assms(2) False find t0 x by (auto simp: sched_kill_task_def split: bind_splits)
      then show ?thesis using task_exit_ok assms(1) self(2) ni by blast
    next
      case other
      then have un: "unlink_dead t (\<lambda>x. x\<lparr>exit_code := -1\<rparr>) k = Some k'"
        using assms(2) False find t0 x by (auto simp: sched_kill_task_def split: bind_splits)
      obtain k1 r1 where k1: "unlink_dead t (\<lambda>x. x\<lparr>exit_code := -1\<rparr>) k = Some k1" "links (tasks k1) (idle_task k) t r1 (t # ds)"
        "set r1 = set q - {t}" "qstate k1 = (tasks k1, idle_task k, current k, t)"
        "tasks k1 t = Some (x\<lparr>tstate := if ppid x \<noteq> 0 then TASK_ZOMBIE else TASK_DEAD, tnext := dead_list k, exit_code := -1\<rparr>)"
        "\<And>u. u \<noteq> t \<Longrightarrow> map_option (\<lambda>y. y\<lparr>tnext := 0\<rparr>) (tasks k1 u) = map_option (\<lambda>y. y\<lparr>tnext := 0\<rparr>) (tasks k u)"
        using unlink_links [OF L t(1) ni x(1), of "\<lambda>x. x\<lparr>exit_code := -1\<rparr>"] by auto
      have st: "state_in (tasks k1) u X = state_in (tasks k) u X" if "u \<noteq> t" for u X
        using unlinked_field [OF k1(6) [OF that], of tstate] by (intro state_in_cong) simp
      have tds: "t \<notin> set ds" using L t(1) by (auto simp: links_def)
      have "idle_alive (tasks k1) (idle_task k)"
        using Q ni unlinked_field [OF k1(6), of "idle_task k" tstate] unlinked_field [OF k1(6), of "idle_task k" pid]
          idle_alive_cong [of "tasks k1" "idle_task k" "tasks k"] by (simp add: queues_def)
      moreover have "state_in (tasks k1) u {TASK_DEAD, TASK_ZOMBIE}" if "u \<in> set (t # ds)" for u
      proof (cases "u = t")
        case True
        then show ?thesis using k1(5) by (simp add: state_in_def)
      qed (use that st [of u] Q in \<open>simp add: queues_def\<close>)
      moreover have "state_in (tasks k1) u {TASK_READY, TASK_SLEEPING}" if "u \<in> set r1 - {current k}" for u
        using that k1(3) st [of u] Q by (auto simp: queues_def)
      moreover have "state_in (tasks k1) (current k) (- {TASK_ZOMBIE})" "current k \<in> set r1"
        using st other(2) k1(3) Q by (auto simp: queues_def)
      ultimately have "queues k1 r1 (t # ds)" using k1(2,4) by (simp add: queues_def qstate_def)
      then show ?thesis using un k1(1) by (auto simp: queue_ok_def)
    qed
  qed
qed

end
