(* ===== verification/Sched_Steps.thy ===== *)
theory Sched_Steps
  imports Sched_Laws
begin

text \<open>
  The scheduler as a state machine: every entry point is one step, and the queues stay well-formed along
  all runs. Tasks are created in memory the heap hands out; that no task lives there already is the
  condition \<open>fresh_alloc\<close> on the creating steps.
\<close>

section \<open>Waking sleepers\<close>

definition wakes :: "'w kernel \<Rightarrow> 'w kernel \<Rightarrow> bool" where
  "wakes k k' \<longleftrightarrow>
     (\<forall>u. map_option tnext (tasks k' u) = map_option tnext (tasks k u) \<and> map_option pid (tasks k' u) = map_option pid (tasks k u) \<and>
        (map_option tstate (tasks k' u) = map_option tstate (tasks k u) \<or>
         map_option tstate (tasks k u) = Some TASK_SLEEPING \<and> map_option tstate (tasks k' u) = Some TASK_READY)) \<and>
     idle_task k' = idle_task k \<and> current k' = current k \<and> dead_list k' = dead_list k"

lemma wakes_refl: "wakes k k"
  by (simp add: wakes_def)

lemma wakes_trans:
  assumes "wakes k k1" and "wakes k1 k2"
  shows "wakes k k2"
proof -
  have "map_option tstate (tasks k2 u) = map_option tstate (tasks k u) \<or>
      map_option tstate (tasks k u) = Some TASK_SLEEPING \<and> map_option tstate (tasks k2 u) = Some TASK_READY" for u
    using assms unfolding wakes_def by (metis option.inject task_state.distinct(3))
  then show ?thesis using assms unfolding wakes_def by simp
qed

lemma wake_loop_wakes:
  assumes "wake_loop t k = Some k'"
  shows "wakes k k'"
proof (rule wake_loop.raw_induct [OF _ assms], goal_cases)
  case (1 rec t k k')
  show ?case
  proof (cases "t = idle_task k")
    case True
    then show ?thesis using 1(2) wakes_refl by auto
  next
    case False
    then obtain x where x: "tasks k t = Some x" using 1(2) by (auto split: option.splits)
    define k1 where "k1 = (if tstate x = TASK_SLEEPING \<and> sleep_until x \<le> ticks k
        then k\<lparr>tasks := (tasks k)(t := Some (x\<lparr>tstate := TASK_READY, sleep_until := 0\<rparr>))\<rparr> else k)"
    have "wakes k k1" using x by (simp add: wakes_def k1_def)
    moreover have "rec (tnext x) k1 = Some k'" using 1(2) x False by (simp add: k1_def)
    ultimately show ?thesis using 1(1) wakes_trans by blast
  qed
qed

lemma wakes_ok:
  assumes "queue_ok k" and "wakes k k'"
  shows "queue_ok k'"
proof -
  obtain q ds where Q: "queues k q ds" using assms(1) by (auto simp: queue_ok_def)
  have f: "idle_task k' = idle_task k" "current k' = current k" "dead_list k' = dead_list k" using assms(2) by (simp_all add: wakes_def)
  have w: "map_option tstate (tasks k' u) = map_option tstate (tasks k u) \<or>
      map_option tstate (tasks k u) = Some TASK_SLEEPING \<and> map_option tstate (tasks k' u) = Some TASK_READY" for u
    using assms(2) by (simp add: wakes_def)
  have st: "state_in (tasks k') u X" if "state_in (tasks k) u X" "TASK_READY \<in> X \<or> TASK_SLEEPING \<notin> X" for u X
    using w [of u] that by (cases "tasks k u"; cases "tasks k' u") (auto simp: state_in_def)
  have "links (tasks k') (idle_task k) (dead_list k) q ds"
    using Q links_cong [of "tasks k'" "tasks k"] assms(2) by (simp add: queues_def wakes_def)
  moreover have "idle_alive (tasks k') (idle_task k)"
  proof -
    have "map_option pid (tasks k' (idle_task k)) = map_option pid (tasks k (idle_task k))" using assms(2) by (simp add: wakes_def)
    then show ?thesis using Q w [of "idle_task k"]
      by (cases "tasks k (idle_task k)"; cases "tasks k' (idle_task k)") (auto simp: queues_def idle_alive_def)
  qed
  ultimately have "queues k' q ds" using Q st unfolding queues_def f by simp
  then show ?thesis by (auto simp: queue_ok_def)
qed

lemma sched_wake_ok:
  assumes "queue_ok k" and "sched_wake_sleepers k = Some k'"
  shows "queue_ok k'"
proof -
  obtain t where "wake_loop t k = Some k'" using assms(2) by (auto simp: sched_wake_sleepers_def split: bind_splits)
  then show ?thesis using wakes_ok [OF assms(1)] wake_loop_wakes by blast
qed

section \<open>Collecting a child\<close>

definition matches :: "'w kernel \<Rightarrow> int \<Rightarrow> nat \<Rightarrow> nat \<Rightarrow> bool" where
  "matches k pid_arg cp u \<longleftrightarrow> (\<exists>x. tasks k u = Some x \<and> wanted pid_arg cp x)"

lemma zombie_find_law:
  assumes "path (tasks k) c xs 0" and "0 \<notin> set xs"
  shows "zombie_find k pid_arg cp prev c =
    Some (last (prev # takeWhile (\<lambda>u. \<not> matches k pid_arg cp u) xs),
          case find (matches k pid_arg cp) xs of Some u \<Rightarrow> u | None \<Rightarrow> 0)"
  using assms
proof (induction xs arbitrary: c prev)
  case Nil
  then show ?case by (subst zombie_find.simps) simp
next
  case (Cons a xs)
  then obtain x where x: "c = a" "tasks k a = Some x" "path (tasks k) (tnext x) xs 0" "a \<noteq> 0" by auto
  show ?case
  proof (cases "wanted pid_arg cp x")
    case True
    then have "matches k pid_arg cp a" using x(2) by (simp add: matches_def)
    then show ?thesis using True x by (subst zombie_find.simps) simp
  next
    case False
    then have "\<not> matches k pid_arg cp a" using x(2) by (simp add: matches_def)
    then show ?thesis using False x Cons.IH [OF x(3)] Cons.prems(2) by (subst zombie_find.simps) simp
  qed
qed

text \<open>Taking one element out of the dead list and freeing it.\<close>

lemma collect_ok:
  assumes "queues k q (ys @ u # zs)" and "tasks k u = Some x"
    and "(if last (0 # ys) \<noteq> 0 then upd_task (last (0 # ys)) (\<lambda>y. y\<lparr>tnext := tnext x\<rparr>) k else Some (k\<lparr>dead_list := tnext x\<rparr>)) = Some k1"
    and "sched_free_task u k1 = Some k2"
  shows "queues k2 q (ys @ zs)" and "tasks k2 = (tasks k1)(u := None)" and "current k2 = current k"
    and "\<And>t. t \<noteq> u \<Longrightarrow> map_option (\<lambda>y. y\<lparr>tnext := 0\<rparr>) (tasks k2 t) = map_option (\<lambda>y. y\<lparr>tnext := 0\<rparr>) (tasks k t)"
proof -
  have L: "links (tasks k) (idle_task k) (dead_list k) q (ys @ u # zs)" using assms(1) by (simp add: queues_def)
  then have d: "distinct (ys @ u # zs)" "0 \<notin> set ys" "set q \<inter> set (ys @ u # zs) = {}" "path (tasks k) (dead_list k) (ys @ u # zs) 0"
    by (auto simp: links_def)
  obtain m where m: "path (tasks k) (dead_list k) ys m" "m = u" "path (tasks k) (tnext x) zs 0" using d(4) assms(2) by auto
  have k1: "path (tasks k1) (dead_list k1) (ys @ zs) 0 \<and> idle_task k1 = idle_task k \<and> current k1 = current k \<and>
    dom (tasks k1) = dom (tasks k) \<and> (\<forall>p r. path (tasks k1) p q r = path (tasks k) p q r) \<and>
    (\<forall>t. map_option (\<lambda>y. y\<lparr>tnext := 0\<rparr>) (tasks k1 t) = map_option (\<lambda>y. y\<lparr>tnext := 0\<rparr>) (tasks k t))"
  proof (cases "ys = []")
    case True
    then have "k1 = k\<lparr>dead_list := tnext x\<rparr>" using assms(3) by simp
    then show ?thesis using True m by simp
  next
    case False
    have l: "last (0 # ys) = last ys" "last ys \<in> set ys" "last ys \<noteq> 0"
      using False last_in_set [OF False] d(2) by (simp, blast, metis)
    obtain y where y: "tasks k (last ys) = Some y" using path_live [OF m(1) l(2)] by blast
    have k1: "k1 = k\<lparr>tasks := (tasks k)(last ys := Some (y\<lparr>tnext := tnext x\<rparr>))\<rparr>"
      using assms(3) l upd_task_Some [OF y, of "\<lambda>y. y\<lparr>tnext := tnext x\<rparr>"] by simp
    have "path (tasks k1) (dead_list k1) ys (tnext x)"
      using path_redirect [OF m(1) False] d(1) y by (simp add: k1)
    moreover have "last ys \<notin> set zs" "last ys \<notin> set q" using l(2) d(1,3) by auto
    moreover have "dom (tasks k1) = dom (tasks k)" using y by (simp add: k1 domI insert_absorb)
    ultimately show ?thesis using m(3) y by (auto simp: k1)
  qed
  have q2: "tasks k2 = (tasks k1)(u := None)" "idle_task k2 = idle_task k" "current k2 = current k" "dead_list k2 = dead_list k1"
    using sched_free_task_qstate [OF assms(4)] k1 by (simp_all add: qstate_def)
  show "tasks k2 = (tasks k1)(u := None)" "current k2 = current k" using q2 by simp_all
  show keep: "map_option (\<lambda>y. y\<lparr>tnext := 0\<rparr>) (tasks k2 t) = map_option (\<lambda>y. y\<lparr>tnext := 0\<rparr>) (tasks k t)" if "t \<noteq> u" for t
    using k1 that by (simp add: q2(1))
  have uq: "u \<notin> set q" "u \<notin> set (ys @ zs)" using d by auto
  have "path (tasks k2) (dead_list k1) (ys @ zs) 0" using k1 uq(2) by (simp add: q2(1) del: path_append)
  moreover have "ring (tasks k2) q" using L k1 uq(1) by (simp add: q2(1) links_def ring_def)
  moreover have "dom (tasks k2) = dom (tasks k) - {u}" using k1 by (simp add: q2(1))
  ultimately have L2: "links (tasks k2) (idle_task k) (dead_list k1) q (ys @ zs)" using L d(1) uq(1) by (auto simp: links_def)
  have st: "state_in (tasks k2) t X = state_in (tasks k) t X" if "t \<in> set q \<union> set (ys @ zs)" for t X
    using unlinked_field [OF keep, of t tstate] that uq by (intro state_in_cong) auto
  have iq: "idle_task k \<in> set q" "current k \<in> set q" using assms(1) L by (auto simp: queues_def links_def)
  then have "idle_task k \<noteq> u" using uq(1) by auto
  then have "idle_alive (tasks k2) (idle_task k)"
    using assms(1) unlinked_field [OF keep, of "idle_task k" tstate] unlinked_field [OF keep, of "idle_task k" pid]
      idle_alive_cong [of "tasks k2" "idle_task k" "tasks k"] by (simp add: queues_def)
  then show "queues k2 q (ys @ zs)" using assms(1) L2 st iq unfolding queues_def q2(2-4) by auto
qed

lemma find_split:
  assumes "find P xs = Some u"
  shows "xs = takeWhile (\<lambda>x. \<not> P x) xs @ u # tl (dropWhile (\<lambda>x. \<not> P x) xs)"
  using assms by (induction xs) (auto split: if_splits)

text \<open>The two outcomes of the search for a corpse.\<close>

lemma waitpid_found:
  assumes "queues k q ds" and "tasks k (current k) = Some cur" and "find (matches k pid_arg (pid cur)) ds = Some u"
  obtains ys zs x k1 where "ds = ys @ u # zs" and "tasks k u = Some x" and "wanted pid_arg (pid cur) x"
    and "(if last (0 # ys) \<noteq> 0 then upd_task (last (0 # ys)) (\<lambda>y. y\<lparr>tnext := tnext x\<rparr>) k else Some (k\<lparr>dead_list := tnext x\<rparr>)) = Some k1"
    and "waitpid_round pid_arg options k =
      do { k2 \<leftarrow> sched_free_task u k1; Some (k2, Some (int (pid x), Some (wait_status (exit_code x)))) }"
    and "\<exists>T d. k1 = k\<lparr>tasks := T, dead_list := d\<rparr> \<and> T u = Some x"
proof -
  have d: "path (tasks k) (dead_list k) ds 0" "0 \<notin> set ds" "distinct ds" using assms(1) by (auto simp: queues_def links_def)
  define ys where "ys = takeWhile (\<lambda>v. \<not> matches k pid_arg (pid cur) v) ds"
  define zs where "zs = tl (dropWhile (\<lambda>v. \<not> matches k pid_arg (pid cur) v) ds)"
  have ds: "ds = ys @ u # zs" unfolding ys_def zs_def by (rule find_split [OF assms(3)])
  have u: "u \<in> set ds" "matches k pid_arg (pid cur) u" using find_SomeD [OF assms(3)] by auto
  then obtain x where x: "tasks k u = Some x" "wanted pid_arg (pid cur) x" by (auto simp: matches_def)
  have u0: "u \<noteq> 0" "u \<notin> set ys" using u(1) d ds by auto
  have find: "zombie_find k pid_arg (pid cur) 0 (dead_list k) = Some (last (0 # ys), u)"
    using zombie_find_law [OF d(1,2), of pid_arg "pid cur" 0] assms(3) by (simp add: ys_def)
  define k1 where "k1 = (if last (0 # ys) \<noteq> 0
    then k\<lparr>tasks := (tasks k)(last ys := map_option (\<lambda>y. y\<lparr>tnext := tnext x\<rparr>) (tasks k (last ys)))\<rparr> else k\<lparr>dead_list := tnext x\<rparr>)"
  have step: "(if last (0 # ys) \<noteq> 0 then upd_task (last (0 # ys)) (\<lambda>y. y\<lparr>tnext := tnext x\<rparr>) k else Some (k\<lparr>dead_list := tnext x\<rparr>)) = Some k1"
  proof (cases "ys = []")
    case False
    then have "last ys \<in> set ds" unfolding ds by simp
    then obtain y where "tasks k (last ys) = Some y" using path_live [OF d(1)] by blast
    then show ?thesis using False by (simp add: k1_def upd_task_def)
  qed (simp add: k1_def)
  have "\<exists>T d. k1 = k\<lparr>tasks := T, dead_list := d\<rparr> \<and> T u = Some x"
  proof (cases "last (0 # ys) \<noteq> 0")
    case True
    then have "ys \<noteq> []" by auto
    then have "last ys \<noteq> u" using u0(2) by (metis last_in_set)
    then have "k1 = k\<lparr>tasks := (tasks k)(last ys := map_option (\<lambda>y. y\<lparr>tnext := tnext x\<rparr>) (tasks k (last ys))), dead_list := dead_list k\<rparr>"
      "((tasks k)(last ys := map_option (\<lambda>y. y\<lparr>tnext := tnext x\<rparr>) (tasks k (last ys)))) u = Some x"
      using True x(1) by (simp_all add: k1_def)
    then show ?thesis by blast
  next
    case False
    then have "k1 = k\<lparr>tasks := tasks k, dead_list := tnext x\<rparr>" by (simp add: k1_def)
    then show ?thesis using x(1) by blast
  qed
  moreover have "waitpid_round pid_arg options k =
      do { k2 \<leftarrow> sched_free_task u k1; Some (k2, Some (int (pid x), Some (wait_status (exit_code x)))) }"
    unfolding waitpid_round_def
    by (simp only: assms(2) find bind.bind_lunit prod.case u0(1) not_False_eq_True if_True x(1) step)
  ultimately show thesis using that [OF ds x step] by blast
qed

lemma waitpid_not_found:
  assumes "queues k q ds" and "tasks k (current k) = Some cur" and "find (matches k pid_arg (pid cur)) ds = None"
  shows "waitpid_round pid_arg options k =
    do { child \<leftarrow> has_matching_child k (current k) pid_arg;
         Some (k, if \<not> child then Some (-1, None) else if options AND WNOHANG \<noteq> 0 then Some (0, None) else None) }"
proof -
  have d: "path (tasks k) (dead_list k) ds 0" "0 \<notin> set ds" using assms(1) by (auto simp: queues_def links_def)
  have "zombie_find k pid_arg (pid cur) 0 (dead_list k) = Some (last (0 # takeWhile (\<lambda>v. \<not> matches k pid_arg (pid cur) v) ds), 0)"
    using zombie_find_law [OF d, of pid_arg "pid cur" 0] assms(3) by simp
  then show ?thesis using assms(2) by (cases "has_matching_child k (current k) pid_arg") (simp_all add: waitpid_round_def)
qed

lemma waitpid_round_ok:
  assumes "queue_ok k" and "waitpid_round pid_arg options k = Some (k', r)"
  shows "queue_ok k'"
proof -
  obtain q ds where Q: "queues k q ds" using assms(1) by (auto simp: queue_ok_def)
  obtain cur where cur: "tasks k (current k) = Some cur" by (rule current_task [OF assms(1)])
  show ?thesis
  proof (cases "find (matches k pid_arg (pid cur)) ds")
    case None
    then have "k' = k"
      using assms(2) by (cases "has_matching_child k (current k) pid_arg") (simp_all add: waitpid_not_found [OF Q cur None])
    then show ?thesis using assms(1) by simp
  next
    case (Some u)
    obtain ys zs x k1 where f: "ds = ys @ u # zs" "tasks k u = Some x"
      "(if last (0 # ys) \<noteq> 0 then upd_task (last (0 # ys)) (\<lambda>y. y\<lparr>tnext := tnext x\<rparr>) k else Some (k\<lparr>dead_list := tnext x\<rparr>)) = Some k1"
      "waitpid_round pid_arg options k =
        do { k2 \<leftarrow> sched_free_task u k1; Some (k2, Some (int (pid x), Some (wait_status (exit_code x)))) }"
      by (rule waitpid_found [OF Q cur Some, where options = options]) blast
    then have "sched_free_task u k1 = Some k'" using assms(2) by (cases "sched_free_task u k1") simp_all
    from collect_ok(1) [OF Q [unfolded f(1)] f(2,3) this] show ?thesis by (auto simp: queue_ok_def)
  qed
qed

section \<open>New tasks\<close>

definition fresh_alloc :: "'w kernel \<Rightarrow> bool" where
  "fresh_alloc k \<longleftrightarrow> (\<forall>k1 t. alloc_task k = Some (k1, t) \<longrightarrow> t \<noteq> 0 \<longrightarrow> tasks k t = None)"

definition with_task :: "nat \<Rightarrow> task \<Rightarrow> 'w kernel \<Rightarrow> 'w kernel \<Rightarrow> bool" where
  "with_task t x k k1 \<longleftrightarrow> qstate k1 = ((tasks k)(t := Some x), idle_task k, current k, dead_list k)"

definition spawned :: "'w kernel \<Rightarrow> 'w kernel \<Rightarrow> bool" where
  "spawned k k' \<longleftrightarrow> qstate k' = qstate k \<or>
     (\<exists>t x k1. t \<noteq> 0 \<and> tasks k t = None \<and> tstate x = TASK_READY \<and> with_task t x k k1 \<and> enqueue t k1 = Some k')"

lemma spawned_ok:
  assumes "queue_ok k" and "spawned k k'"
  shows "queue_ok k'"
proof (cases "qstate k' = qstate k")
  case True
  then show ?thesis using assms(1) queue_ok_cong by blast
next
  case False
  then obtain t x k1 where n: "t \<noteq> 0" "tasks k t = None" "tstate x = TASK_READY"
    "tasks k1 = (tasks k)(t := Some x)" "idle_task k1 = idle_task k" "current k1 = current k" "dead_list k1 = dead_list k"
    "enqueue t k1 = Some k'"
    using assms(2) by (auto simp: spawned_def with_task_def qstate_def)
  obtain q ds where Q: "queues k q ds" using assms(1) by (auto simp: queue_ok_def)
  then have L: "links (tasks k) (idle_task k1) (dead_list k1) q ds" "current k1 \<in> set q" by (simp_all add: queues_def n)
  obtain k2 q' where e: "enqueue t k1 = Some k2" "links (tasks k2) (idle_task k1) (dead_list k1) q' ds" "set q' = insert t (set q)"
    "qstate k2 = (tasks k2, idle_task k1, current k1, dead_list k1)"
    "\<And>u. map_option tstate (tasks k2 u) = map_option tstate (tasks k1 u)"
    "\<And>u. map_option pid (tasks k2 u) = map_option pid (tasks k1 u)"
    by (rule enqueue_links [OF L n(2,1,4)]) blast
  have st: "state_in (tasks k2) u X = state_in (tasks k1) u X" for u X by (rule state_in_cong) (rule e(5))
  have old: "u \<noteq> t" if "u \<in> set q \<union> set ds" for u
    using that Q links_live [of "tasks k"] n(2) by (fastforce simp: queues_def)
  have sk: "state_in (tasks k2) u X = state_in (tasks k) u X" if "u \<in> set q \<union> set ds" for u X
    using old [OF that] unfolding st by (simp add: n(4) state_in_def)
  have iq: "idle_task k \<in> set q" "current k \<in> set q" using Q by (auto simp: queues_def links_def)
  have "idle_alive (tasks k1) (idle_task k)" using Q old [of "idle_task k"] iq(1) by (simp add: queues_def idle_alive_def n(4))
  then have "idle_alive (tasks k2) (idle_task k)" using idle_alive_cong [of "tasks k2" "idle_task k" "tasks k1"] e(5,6) by simp
  moreover have "state_in (tasks k2) (current k) (- {TASK_ZOMBIE})" using Q sk iq(2) by (simp add: queues_def)
  moreover have "state_in (tasks k2) u {TASK_READY, TASK_SLEEPING}" if "u \<in> set q' - {current k}" for u
  proof (cases "u = t")
    case True
    then show ?thesis unfolding st using n(3) by (simp add: n(4) state_in_def)
  qed (use that e(3) Q sk in \<open>simp add: queues_def\<close>)
  moreover have "state_in (tasks k2) u {TASK_DEAD, TASK_ZOMBIE}" if "u \<in> set ds" for u
    using that Q sk by (simp add: queues_def)
  moreover have "current k \<in> set q'" using e(3) Q by (simp add: queues_def)
  ultimately have "queues k2 q' ds" using e(2,4) by (simp add: queues_def qstate_def n)
  then show ?thesis using e(1) n(8) by (auto simp: queue_ok_def)
qed

lemma alloc_task_cases:
  assumes "fresh_alloc k" and "alloc_task k = Some (k1, t)"
  shows "t = 0 \<Longrightarrow> qstate k1 = qstate k" and "t \<noteq> 0 \<Longrightarrow> tasks k t = None" and "t \<noteq> 0 \<Longrightarrow> with_task t zero_task k k1"
proof -
  show "t \<noteq> 0 \<Longrightarrow> tasks k t = None" using assms by (simp add: fresh_alloc_def)
  obtain k0 where k0: "k_kmalloc k TASK_T_SIZE = Some (k0, t)" "k1 = (if t = 0 then k0 else k0\<lparr>tasks := (tasks k0)(t := Some zero_task)\<rparr>)"
    using assms(2) by (auto simp: alloc_task_def split: bind_splits)
  have "qstate k0 = qstate k" by (rule call_result_qstate(4) [OF k0(1)])
  then show "t = 0 \<Longrightarrow> qstate k1 = qstate k" "t \<noteq> 0 \<Longrightarrow> with_task t zero_task k k1"
    using k0(2) by (simp_all add: with_task_def qstate_def)
qed

lemma drop_struct:
  assumes "with_task t x k k1" and "tasks k t = None" and "free_task_struct t k2 = Some k3" and "qstate k2 = qstate k1"
  shows "qstate k3 = qstate k"
  using free_task_struct_qstate [OF assms(3)] assms(1,2,4) by (simp add: with_task_def qstate_def fun_upd_idem)

lemma drop_task_qstate:
  assumes "with_task t x k k1" and "tasks k t = None" and "drop_task a t k2 = Some (k3, r)" and "qstate k2 = qstate k1"
  shows "qstate k3 = qstate k"
proof -
  have "free_task_struct t (k_free_pages a TASK_STACK_PAGES k2) = Some k3"
    using assms(3) by (auto simp: drop_task_def split: bind_splits)
  then show ?thesis by (rule drop_struct [OF assms(1,2)]) (use assms(4) in simp)
qed

lemma publish_task:
  assumes "with_task t x k k1" and "t \<noteq> 0" and "tasks k t = None" and "upd_task t f k2 = Some k3" and "enqueue t k4 = Some k5"
    and "qstate k2 = qstate k1" and "qstate k4 = qstate k3" and "tstate (f x) = TASK_READY"
  shows "spawned k k5"
proof -
  have "with_task t (f x) k k4"
    using assms(1,4,6,7) by (auto simp: with_task_def qstate_def upd_task_def)
  then show ?thesis using assms(2,3,5,8) unfolding spawned_def by blast
qed

lemma create_kernel_task_spawned:
  assumes "fresh_alloc k" and "sched_create_kernel_task L name entry k = Some (k', r)"
  shows "spawned k k'"
proof -
  obtain k1 t where a: "alloc_task k = Some (k1, t)" using assms(2) by (auto simp: sched_create_kernel_task_def split: bind_splits)
  note A = alloc_task_cases [OF assms(1) a]
  show ?thesis
  proof (cases "t = 0")
    case True
    then show ?thesis using assms(2) a A(1) by (simp add: sched_create_kernel_task_def spawned_def)
  next
    case False
    obtain k2 st where s: "k_alloc_pages k1 TASK_STACK_PAGES = (k2, st)" by fastforce
    have q2: "qstate k2 = qstate k1" by (rule call_result_qstate(2) [OF s])
    show ?thesis
    proof (cases "st = 0")
      case True
      then show ?thesis using assms(2) a s False drop_struct [OF A(3) [OF False] A(2) [OF False] _ q2]
        by (auto simp: sched_create_kernel_task_def spawned_def split: bind_splits)
    next
      case st: False
      then show ?thesis
        using assms(2) a s False q2
        by (clarsimp simp: sched_create_kernel_task_def Let_def split: bind_splits)
          (rule publish_task [OF A(3) [OF False] False A(2) [OF False]], assumption, assumption, simp_all)
    qed
  qed
qed

lemma create_task_spawned:
  assumes "fresh_alloc k" and "sched_create_task D L name entry k = Some (k', r)"
  shows "spawned k k'"
proof -
  obtain k1 t where a: "alloc_task k = Some (k1, t)" using assms(2) by (auto simp: sched_create_task_def split: bind_splits)
  note A = alloc_task_cases [OF assms(1) a]
  show ?thesis
  proof (cases "t = 0")
    case True
    then show ?thesis using assms(2) a A(1) by (simp add: sched_create_task_def spawned_def)
  next
    case False
    note drop = drop_struct [OF A(3) [OF False] A(2) [OF False]] drop_task_qstate [OF A(3) [OF False] A(2) [OF False]]
    obtain k2 st where s: "k_alloc_pages k1 TASK_STACK_PAGES = (k2, st)" by fastforce
    obtain k3 l0 where l: "k_create_tables (k_zero st (TASK_STACK_PAGES * PAGE_SIZE) k2) = (k3, l0)" by fastforce
    obtain k5 us where u: "k_alloc_pages (map_text L l0 k3) USER_STACK_PAGES = (k5, us)" by fastforce
    obtain k6 tls where t: "k_alloc_page (map_stack l0 us (k_zero us (USER_STACK_PAGES * PAGE_SIZE) k5)) = (k6, tls)" by fastforce
    have q: "qstate k2 = qstate k1" "qstate k3 = qstate k1" "qstate k5 = qstate k1" "qstate k6 = qstate k1"
      using call_result_qstate(2) [OF s] call_result_qstate(3) [OF l] call_result_qstate(2) [OF u] call_result_qstate(1) [OF t] by simp_all
    note run = assms(2) [unfolded sched_create_task_def a bind.bind_lunit prod.case Let_def s l u t]
    let ?out = "virt_to_phys entry < virt_to_phys (text_start L) \<or> virt_to_phys (user_text_end L) \<le> virt_to_phys entry"
    have none: "qstate k' = qstate k" if "st = 0 \<or> l0 = 0 \<or> ?out \<or> us = 0 \<or> tls = 0"
      using run False q that by (auto split: if_splits bind_splits dest!: drop)
    show ?thesis
    proof (cases "st = 0 \<or> l0 = 0 \<or> ?out \<or> us = 0 \<or> tls = 0")
      case True
      then show ?thesis using none by (simp add: spawned_def)
    next
      case go: False
      define k7 where "k7 = k_map l0 USER_TLS_BASE tls 1 STACK_FLAGS (k_zero tls PAGE_SIZE k6)"
      have q7: "qstate k7 = qstate k1" using q by (simp add: k7_def)
      show ?thesis
        using run False go q7 unfolding k7_def [symmetric]
        by (clarsimp split: bind_splits prod.splits dest!: call_result_qstate(7))
          (rule publish_task [OF A(3) [OF False] False A(2) [OF False]], assumption, assumption, simp_all)
    qed
  qed
qed

text \<open>The copies a fork makes change memory and page tables only.\<close>

lemma fork_regions_qstate: "qstate (fst (fork_regions l0 rs k acc)) = qstate k"
proof (induction rs arbitrary: k acc)
  case (Cons r rs)
  obtain k1 dst where a: "k_alloc_pages k (er_pages r) = (k1, dst)" by fastforce
  have "qstate (fold (\<lambda>r. k_free_pages (er_phys r) (er_pages r)) acc k1) = qstate k1" by (rule fold_qstate) simp
  then show ?case using Cons.IH call_result_qstate(2) [OF a] by (simp add: a)
qed simp

lemma fork_grown_qstate: "qstate (fst (fork_grown l0 gs k acc)) = qstate k"
proof (induction gs arbitrary: k acc)
  case (Cons g gs)
  obtain k1 dst where a: "k_alloc_page k = (k1, dst)" by fastforce
  show ?case using Cons.IH call_result_qstate(1) [OF a] by (cases g) (simp add: a)
qed simp

lemma privatize_pages_qstate: "qstate (fst (privatize_pages l0 cv flags pis k)) = qstate k"
proof (induction pis arbitrary: k)
  case (Cons pi pis)
  obtain k1 dst where a: "k_alloc_page k = (k1, dst)" by fastforce
  show ?case using Cons.IH call_result_qstate(1) [OF a] by (simp add: a Let_def)
qed simp

lemma fork_image_qstate:
  assumes "fork_image L l0 img k = (k', img', ok)"
  shows "qstate k' = qstate k"
proof (cases "ei_regions img = []")
  case True
  then show ?thesis using assms by (auto simp: fork_image_def)
next
  case False
  obtain k1 rs b where a: "fork_regions l0 (ei_regions img) k [] = (k1, rs, b)" by (metis prod_cases3)
  show ?thesis using fork_regions_qstate [of l0 "ei_regions img" k "[]"] assms False by (simp add: fork_image_def a)
qed

lemma privatize_vmas_qstate:
  assumes "privatize_vmas l0 vi k vs = Some (k', vs')"
  shows "qstate k' = qstate k"
proof -
  have "qstate (fst r) = qstate k" if "privatize_vmas l0 vi k vs = Some r" for r
  proof (rule privatize_vmas.raw_induct [OF _ that], goal_cases)
    case (1 rec l0 vi k vs r)
    obtain k1 ok where p: "privatize_pages l0 (vs ! vi) (mmu_prot_to_flags (of_nat (vprot (vs ! vi)))) [0..<vma_npages (vs ! vi)] k = (k1, ok)"
      by fastforce
    have q1: "qstate k1 = qstate k"
      using privatize_pages_qstate [of l0 "vs ! vi" "mmu_prot_to_flags (of_nat (vprot (vs ! vi)))" "[0..<vma_npages (vs ! vi)]" k] by (simp add: p)
    show ?case
    proof (cases "vi < length vs \<and> \<not> ok")
      case True
      then obtain k2 v vs1 n where b: "k_unmap l0 (vstart (vs ! vi)) (vma_npages (vs ! vi)) k1 = Some k2"
        "rec l0 vi (set_vm v k2) vs1 = Some r"
        using 1(2) p by (auto simp: Let_def split: bind_splits)
      show ?thesis using 1(1) [OF b(2)] call_result_qstate(6) [OF b(1)] q1 by simp
    next
      case False
      then show ?thesis using 1 p q1 by (auto simp: Let_def split: if_splits)
    qed
  qed
  from this [OF assms] show ?thesis by simp
qed

lemma fork_vmas_qstate:
  assumes "fork_vmas l0 src k = Some (k', vs)"
  shows "qstate k' = qstate k"
  using assms by (auto simp: fork_vmas_def split: if_splits bind_splits dest!: privatize_vmas_qstate)

lemma fork_spawned:
  assumes "fresh_alloc k" and "sched_fork L parent frame k = Some (k', r)"
  shows "spawned k k'"
proof (cases "parent = 0 \<or> frame = 0")
  case True
  then show ?thesis using assms(2) by (auto simp: sched_fork_def spawned_def)
next
  case nz: False
  then obtain k1 t where a: "alloc_task k = Some (k1, t)" using assms(2) by (auto simp: sched_fork_def split: bind_splits)
  note A = alloc_task_cases [OF assms(1) a]
  show ?thesis
  proof (cases "t = 0")
    case True
    then show ?thesis using assms(2) a A(1) nz by (simp add: sched_fork_def spawned_def)
  next
    case False
    note drop = drop_struct [OF A(3) [OF False] A(2) [OF False]] drop_task_qstate [OF A(3) [OF False] A(2) [OF False]]
    obtain k2 st where s: "k_alloc_pages k1 TASK_STACK_PAGES = (k2, st)" by fastforce
    obtain k3 l0 where l: "k_create_tables (k_zero st (TASK_STACK_PAGES * PAGE_SIZE) k2) = (k3, l0)" by fastforce
    have q: "qstate k2 = qstate k1" "qstate k3 = qstate k1"
      using call_result_qstate(2) [OF s] call_result_qstate(3) [OF l] by simp_all
    note run = assms(2) [unfolded sched_fork_def a bind.bind_lunit prod.case Let_def s l]
    have none: "qstate k' = qstate k" if "st = 0 \<or> l0 = 0"
      using run False nz q that by (auto split: if_splits bind_splits dest!: drop)
    show ?thesis
    proof (cases "st = 0 \<or> l0 = 0")
      case True
      then show ?thesis using none by (simp add: spawned_def)
    next
      case go: False
      then obtain p where p: "tasks k3 parent = Some p" using run nz False by (auto split: bind_splits)
      obtain k4 img ok where i: "fork_image L l0 (exec_image p) k3 = (k4, img, ok)" by (metis prod_cases3)
      obtain k5 us where u: "k_alloc_pages k4 USER_STACK_PAGES = (k5, us)" by fastforce
      obtain k7 gs where g: "fork_grown l0 (stack_grown p) (map_stack l0 us (k_copy us (ustack_phys p) (USER_STACK_PAGES * PAGE_SIZE) k5)) [] = (k7, gs)"
        by fastforce
      obtain k8 tls where t: "k_alloc_page k7 = (k8, tls)" by fastforce
      have q8: "qstate k4 = qstate k1" "qstate k5 = qstate k1" "qstate k8 = qstate k1"
        using q fork_image_qstate [OF i] call_result_qstate(2) [OF u] call_result_qstate(1) [OF t]
          fork_grown_qstate [of l0 "stack_grown p" "map_stack l0 us (k_copy us (ustack_phys p) (USER_STACK_PAGES * PAGE_SIZE) k5)" "[]"]
        by (simp_all add: g)
      note run = run [unfolded p bind.bind_lunit i prod.case u g t]
      have gone: "spawned k k'" if "drop_task st t k0 = Some (k', r)" "qstate k0 = qstate k1" for k0
        using drop(2) [OF that] by (simp add: spawned_def)
      have "spawned k k'" if "\<not> ok \<or> us = 0 \<or> tls = 0"
        using run False go nz q8 that by (auto simp: spawned_def split: if_splits bind_splits dest!: drop)
      moreover have "spawned k k'" if "ok" "us \<noteq> 0" "tls \<noteq> 0"
        using run False go nz q8 that
        apply (clarsimp split: bind_splits prod.splits if_splits dest!: call_result_qstate(7) fork_vmas_qstate)
           apply (erule gone, simp)
          apply (erule gone, simp)
         apply (erule gone, simp)
        apply (rule publish_task [OF A(3) [OF False] False A(2) [OF False]], assumption, assumption, simp_all)
        done
      ultimately show ?thesis by blast
    qed
  qed
qed

end
