(* ===== verification/Sched_Run.thy ===== *)
theory Sched_Run
  imports Sched_Steps
begin

text \<open>
  Runs of the scheduler: the states that its entry points reach from \<^verbatim>\<open>sched_init\<close>, the invariant
  of the run queue and the dead list along every run, and the order in which ready tasks get the
  processor.
\<close>

section \<open>Entry points that leave the queues alone\<close>

lemma queue_ok_same:
  assumes "\<And>u. map_option tnext (tasks k' u) = map_option tnext (tasks k u)"
    and "\<And>u. map_option tstate (tasks k' u) = map_option tstate (tasks k u)"
    and "\<And>u. map_option pid (tasks k' u) = map_option pid (tasks k u)"
    and "idle_task k' = idle_task k" "current k' = current k" "dead_list k' = dead_list k"
  shows "queue_ok k' = queue_ok k"
proof -
  have l: "links (tasks k') i d q ds = links (tasks k) i d q ds" for i d q ds by (rule links_cong) (rule assms(1))
  have s: "state_in (tasks k') u X = state_in (tasks k) u X" for u X by (rule state_in_cong) (rule assms(2))
  have a: "idle_alive (tasks k') (idle_task k) = idle_alive (tasks k) (idle_task k)"
    by (rule idle_alive_cong) (rule assms(2,3))+
  show ?thesis by (simp add: queue_ok_def queues_def assms(4-6) l s a)
qed

lemma upd_task_ok:
  assumes "upd_task t f k3 = Some k'" and "queue_ok k" and "qstate k3 = qstate k"
    and "\<And>x. tnext (f x) = tnext x \<and> tstate (f x) = tstate x \<and> pid (f x) = pid x"
  shows "queue_ok k'"
proof -
  have "queue_ok k' = queue_ok k3"
    using assms(1,4) by (intro queue_ok_same) (auto simp: upd_task_def split: option.splits)
  then show ?thesis using assms(2,3) queue_ok_cong by blast
qed

lemma grow_stack_ok:
  assumes "queue_ok k" and "sched_try_grow_stack t far k = Some (k', r)"
  shows "queue_ok k'"
proof -
  obtain k1 pa where a: "k_alloc_page k = (k1, pa)" by fastforce
  have q1: "qstate k1 = qstate k" by (rule call_result_qstate(1) [OF a])
  then have "queue_ok k1" using assms(1) queue_ok_cong by blast
  then show ?thesis
    using assms q1 a unfolding sched_try_grow_stack_def Let_def
    by (auto split: if_splits option.splits bind_splits elim!: upd_task_ok)
qed

lemma vma_fault_ok:
  assumes "queue_ok k" and "sched_try_handle_vma_fault t far w e k = Some (k', r)"
  shows "queue_ok k'"
proof -
  obtain k1 pa where a: "k_alloc_page k = (k1, pa)" by fastforce
  have "qstate k' = qstate k"
    using assms(2) call_result_qstate(1) [OF a] a unfolding sched_try_handle_vma_fault_def Let_def
    by (auto split: if_splits option.splits)
  then show ?thesis using assms(1) queue_ok_cong by blast
qed

section \<open>Reachable states\<close>

text \<open>
  At boot no task lives, the dead list is empty and the idle task has an address of its own.
\<close>

definition sched_boot :: "'w kernel \<Rightarrow> bool" where
  "sched_boot k \<longleftrightarrow> tasks k = Map.empty \<and> dead_list k = 0 \<and> next_pid k = 0 \<and> idle_task k \<noteq> 0"

lemma sched_init_queues: "sched_boot k \<Longrightarrow> queues (sched_init k) [idle_task k] []"
  by (auto simp: sched_boot_def sched_init_def queues_def links_def ring_def state_in_def idle_alive_def)

text \<open>
  One step is one call of an entry point by the current task or by an interrupt handler. Creation and
  fork need the allocator to hand out storage that no live task occupies, and the idle task never
  exits. The last rule stands for everything the rest of the kernel does between two calls.
\<close>

inductive sched_step :: "'w drivers \<Rightarrow> linkage \<Rightarrow> 'w kernel \<Rightarrow> 'w kernel \<Rightarrow> bool" for D L where
  create_kernel: "fresh_alloc k \<Longrightarrow> sched_create_kernel_task L name entry k = Some (k', r) \<Longrightarrow> sched_step D L k k'"
| create: "fresh_alloc k \<Longrightarrow> sched_create_task D L name entry k = Some (k', r) \<Longrightarrow> sched_step D L k k'"
| fork: "fresh_alloc k \<Longrightarrow> sched_fork L (current k) frame k = Some (k', r) \<Longrightarrow> sched_step D L k k'"
| switch: "schedule k = Some k' \<Longrightarrow> sched_step D L k k'"
| exit: "current k \<noteq> idle_task k \<Longrightarrow> task_exit code k = Some k' \<Longrightarrow> sched_step D L k k'"
| kill: "sched_kill_task p k = Some (k', r) \<Longrightarrow> sched_step D L k k'"
| sleep: "sleep_ms ms k = Some k' \<Longrightarrow> sched_step D L k k'"
| wake: "sched_wake_sleepers k = Some k' \<Longrightarrow> sched_step D L k k'"
| wait: "waitpid_round p options k = Some (k', res) \<Longrightarrow> sched_step D L k k'"
| grow: "sched_try_grow_stack (current k) far k = Some (k', b) \<Longrightarrow> sched_step D L k k'"
| fault: "sched_try_handle_vma_fault (current k) far w e k = Some (k', b) \<Longrightarrow> sched_step D L k k'"
| other: "qstate k' = qstate k \<Longrightarrow> sched_step D L k k'"

inductive sched_reach :: "'w drivers \<Rightarrow> linkage \<Rightarrow> 'w kernel \<Rightarrow> bool" for D L where
  boot: "sched_boot k \<Longrightarrow> sched_reach D L (sched_init k)"
| step: "sched_reach D L k \<Longrightarrow> sched_step D L k k' \<Longrightarrow> sched_reach D L k'"

lemma sched_step_ok:
  assumes "sched_step D L k k'" and "queue_ok k"
  shows "queue_ok k'"
  using assms(1)
proof cases
  case create_kernel
  then show ?thesis by (intro spawned_ok [OF assms(2)] create_kernel_task_spawned)
next
  case create
  then show ?thesis by (intro spawned_ok [OF assms(2)] create_task_spawned)
next
  case fork
  then show ?thesis by (intro spawned_ok [OF assms(2)] fork_spawned)
next
  case switch
  then show ?thesis by (rule schedule_ok [OF assms(2)])
next
  case exit
  then show ?thesis by (rule task_exit_ok [OF assms(2)])
next
  case kill
  then show ?thesis by (rule sched_kill_ok [OF assms(2)])
next
  case sleep
  then show ?thesis by (rule sleep_ms_ok [OF assms(2)])
next
  case wake
  then show ?thesis by (rule sched_wake_ok [OF assms(2)])
next
  case wait
  then show ?thesis by (rule waitpid_round_ok [OF assms(2)])
next
  case grow
  then show ?thesis by (rule grow_stack_ok [OF assms(2)])
next
  case fault
  then show ?thesis by (rule vma_fault_ok [OF assms(2)])
next
  case other
  then show ?thesis using assms(2) queue_ok_cong by blast
qed

lemma sched_reach_ok: "sched_reach D L k \<Longrightarrow> queue_ok k"
proof (induction rule: sched_reach.induct)
  case (boot k)
  then show ?case using sched_init_queues unfolding queue_ok_def by blast
qed (rule sched_step_ok)

section \<open>The order of the ready tasks\<close>

primrec schedules :: "nat \<Rightarrow> 'w kernel \<Rightarrow> 'w kernel option" where
  "schedules 0 k = Some k"
| "schedules (Suc n) k = Option.bind (schedule k) (schedules n)"

lemma find_append: "find P (xs @ ys) = (case find P xs of None \<Rightarrow> find P ys | Some x \<Rightarrow> Some x)"
  by (induction xs) auto

lemma queues_rotate: "queues k (xs @ ys) ds \<Longrightarrow> queues k (ys @ xs) ds"
  unfolding queues_def links_def using ring_rotate [of "tasks k" xs ys] by auto

lemma sched_reap_none: "dead_list k = 0 \<Longrightarrow> sched_reap k = Some k"
  by (simp add: sched_reap_def reap_loop.simps)

lemma schedule_next:
  assumes "queues k (current k # xs @ u # ys) []" and "tasks k (current k) = Some p" and "tstate p \<noteq> TASK_DEAD"
    and "find (eligible k) (xs @ u # ys) = Some u"
  obtains k' p' where "schedule k = Some k'" and "queues k' (current k' # ys @ current k # xs) []" and "current k' = u"
    and "tasks k' u = Some p'" and "tstate p' = TASK_RUNNING"
    and "\<And>t. t \<noteq> current k \<Longrightarrow> t \<noteq> u \<Longrightarrow> eligible k' t = eligible k t"
proof -
  have d: "dead_list k = 0" using assms(1) by (simp add: queues_def links_def)
  have c: "choice k p (xs @ u # ys) = u" using assms(4) by (simp add: choice_def)
  have u: "u \<noteq> current k" using assms(1) by (auto simp: queues_def links_def)
  obtain k' q' ds' where s: "schedule k = Some k'" "queues k' q' ds'" "current k' = u" "idle_task k' = idle_task k"
    "map_option tstate (tasks k' u) = Some TASK_RUNNING" "q' = current k # xs @ u # ys" "ds' = []"
    "\<And>t. t \<noteq> current k \<Longrightarrow> t \<noteq> u \<Longrightarrow> map_option tstate (tasks k' t) = map_option tstate (tasks k t)"
    by (rule schedule_law [OF sched_reap_none [OF d] assms(1,2)]) (use c u assms(3) in auto)
  have "queues k' (u # ys @ current k # xs) []"
    using s(2,6,7) queues_rotate [of k' "current k # xs" "u # ys" "[]"] by simp
  moreover have "eligible k' t = eligible k t" if "t \<noteq> current k" "t \<noteq> u" for t
    using s(8) [OF that] by (cases "tasks k t"; cases "tasks k' t") (auto simp: eligible_def ready_def s(4))
  ultimately show thesis using that s(1,3,5) by (auto simp: map_option_eq_Some)
qed

lemma schedules_reach:
  assumes "queues k (current k # xs @ t # ys) []" and "tasks k (current k) = Some p" and "tstate p \<noteq> TASK_DEAD"
    and "eligible k t"
  shows "\<exists>n k'. n \<le> Suc (length xs) \<and> schedules n k = Some k' \<and> current k' = t \<and>
    map_option tstate (tasks k' t) = Some TASK_RUNNING"
  using assms
proof (induction xs arbitrary: k p ys rule: length_induct)
  case (1 xs)
  have "find (eligible k) (xs @ t # ys) \<noteq> None" using 1(5) by (auto simp: find_None_iff)
  then obtain u where u: "find (eligible k) (xs @ t # ys) = Some u" by blast
  show ?case
  proof (cases "find (eligible k) xs")
    case None
    then have "u = t" using u 1(5) by (simp add: find_append)
    obtain k' p' where "schedule k = Some k'" "current k' = t" "tasks k' t = Some p'" "tstate p' = TASK_RUNNING"
      using schedule_next [OF 1(2) 1(3) 1(4)] u \<open>u = t\<close> by metis
    then show ?thesis by (intro exI [of _ 1]) simp
  next
    case (Some v)
    then have "u \<in> set xs" using u by (simp add: find_append find_SomeD)
    then obtain as bs where xs: "xs = as @ u # bs" by (metis split_list)
    have q: "queues k (current k # as @ u # (bs @ t # ys)) []" using 1(2) by (simp add: xs)
    have ne: "t \<noteq> current k" "t \<noteq> u" using 1(2) by (auto simp: xs queues_def links_def)
    obtain k' p' where k': "schedule k = Some k'" "queues k' (current k' # bs @ t # (ys @ current k # as)) []" "current k' = u"
      "tasks k' (current k') = Some p'" "tstate p' \<noteq> TASK_DEAD" "eligible k' t"
      by (rule schedule_next [OF q 1(3,4)]) (use u xs ne 1(5) in auto)
    obtain n k2 where "n \<le> Suc (length bs)" "schedules n k' = Some k2" "current k2 = t"
      "map_option tstate (tasks k2 t) = Some TASK_RUNNING"
      using 1(1) [rule_format, OF _ k'(2,4-6)] xs by auto
    then show ?thesis using k'(1) xs by (intro exI [of _ "Suc n"] exI [of _ k2]) auto
  qed
qed

section \<open>Properties\<close>

definition demo_linkage :: linkage where
  "demo_linkage = \<lparr>text_start = 0xFFFF000040000000, user_text_end = 0xFFFF000040002000, task_trampoline = 0xFFFF000040000100,
     kernel_task_trampoline = 0xFFFF000040000200, fork_return = 0xFFFF000040000300\<rparr>"

definition demo_boot :: "unit kernel" where
  "demo_boot = \<lparr>fs = demo_vfs, mm = demo_mmu, page_cells = (\<lambda>_. 0), ram = (\<lambda>_. 0), tlb_log = [], tasks = Map.empty,
     idle_task = 0xFFFF000040001000, current = 0, next_pid = 0, dead_list = 0, next_asid = 1, ticks = 0, tpidr = 0\<rparr>"

definition demo_heap2 :: heap where
  "demo_heap2 = demo_heap\<lparr>hmem := kmalloc_take (hmem demo_heap) 0xFFFF000040004000 2576\<rparr>"

lemma demo_task_alloc:
  "kmalloc demo_heap TASK_T_SIZE = Some (demo_heap2, 0xFFFF000040004020)"
  by (simp add: kmalloc_def kmalloc_attempts_two heap_align_up_def u64_def demo_heap2_def demo_heap_eq TASK_T_SIZE_def
      kmalloc_fit.simps [of _ _ "0xFFFF000040004000"])

lemma demo_stack_alloc: "snd (pmm_allocate_pages (pool demo_heap) TASK_STACK_PAGES) \<noteq> 0"
proof -
  have inv: "pmm_inv (pool demo_heap)" using demo_heap_inv(1) by (simp add: heap_inv_def heap_regions_ok_def)
  have pool: "pool demo_heap = pmm_take_run demo_pmm 4 256"
    by (simp add: demo_heap_def heap_init_def demo_pmm_run register_region_def phys_to_virt_def u64_def KERNEL_VA_OFFSET_def Let_def)
  have free: "run_free (pool demo_heap) 260 TASK_STACK_PAGES" "reserved_pages (pool demo_heap) \<le> 260"
    "260 + TASK_STACK_PAGES \<le> total_pages (pool demo_heap)"
    unfolding pool by (simp_all add: run_free_def TASK_STACK_PAGES_def demo_pmm_test demo_pmm_fields frame_simps)
  have pos: "0 < TASK_STACK_PAGES" by (simp add: TASK_STACK_PAGES_def)
  from inv pos show ?thesis
  proof (rule pmm_allocate_pages_cases)
    assume "\<forall>s. reserved_pages (pool demo_heap) \<le> s \<and> s + TASK_STACK_PAGES \<le> total_pages (pool demo_heap) \<longrightarrow>
      \<not> run_free (pool demo_heap) s TASK_STACK_PAGES"
    with free show ?thesis by blast
  next
    fix s assume "s + TASK_STACK_PAGES \<le> total_pages (pool demo_heap)"
      "pmm_allocate_pages (pool demo_heap) TASK_STACK_PAGES = (pmm_take_run (pool demo_heap) s TASK_STACK_PAGES, frame_addr (pool demo_heap) s)"
    with pos frame_addr_bounds(3) [OF inv, of s] show ?thesis by simp
  qed
qed

lemma sched_reach_schedules: "sched_reach D L k \<Longrightarrow> schedules n k = Some k' \<Longrightarrow> sched_reach D L k'"
  by (induction n arbitrary: k) (auto split: bind_splits intro: sched_reach.step sched_step.switch)

lemma demo_boot_ok: "sched_boot demo_boot"
  by (simp add: sched_boot_def demo_boot_def)

definition demo_idle :: task where
  "demo_idle = zero_task\<lparr>tnext := 0xFFFF000040001000, tname := ''idle''\<rparr>"

lemma demo_init:
  "tasks (sched_init demo_boot) = [0xFFFF000040001000 \<mapsto> demo_idle]" "current (sched_init demo_boot) = 0xFFFF000040001000"
  "idle_task (sched_init demo_boot) = 0xFFFF000040001000" "dead_list (sched_init demo_boot) = 0"
  "k_heap (sched_init demo_boot) = demo_heap"
  by (simp_all add: sched_init_def demo_boot_def demo_idle_def copy_name_def zero_task_def k_heap_def demo_vfs_eq)

text \<open>The first kernel task of the demo kernel.\<close>

lemma demo_created:
  obtains k r where "sched_create_kernel_task demo_linkage ''init'' 0xFFFF000040000400 (sched_init demo_boot) = Some (k, r)"
    and "map_option tstate (tasks k 0xFFFF000040001000) = Some TASK_READY"
    and "map_option tstate (tasks k 0xFFFF000040004020) = Some TASK_READY"
    and "current k = 0xFFFF000040001000" and "idle_task k = 0xFFFF000040001000" and "dead_list k = 0"
proof -
  let ?k = "sched_init demo_boot"
  define k1 where "k1 = set_heap demo_heap2 ?k"
  define k2 where "k2 = k1\<lparr>tasks := (tasks k1)(0xFFFF000040004020 \<mapsto> zero_task)\<rparr>"
  have a: "alloc_task ?k = Some (k2, 0xFFFF000040004020)"
    by (simp add: alloc_task_def k_kmalloc_def demo_init demo_task_alloc k2_def k1_def)
  have t2: "tasks k2 = [0xFFFF000040001000 \<mapsto> demo_idle, 0xFFFF000040004020 \<mapsto> zero_task]"
    "current k2 = 0xFFFF000040001000" "idle_task k2 = 0xFFFF000040001000" "dead_list k2 = 0"
    by (simp_all add: k2_def k1_def set_heap_def demo_init)
  have "k_pool k2 = pool demo_heap" by (simp add: k_pool_def k_heap_def k2_def k1_def set_heap_def demo_heap2_def)
  then obtain k3 st where s: "k_alloc_pages k2 TASK_STACK_PAGES = (k3, st)" "st \<noteq> 0"
    using demo_stack_alloc by (cases "pmm_allocate_pages (pool demo_heap) TASK_STACK_PAGES") (simp add: k_alloc_pages_def)
  have "qstate k3 = qstate k2" by (rule call_result_qstate(2) [OF s(1)])
  then have t3: "tasks k3 = tasks k2" "current k3 = current k2" "idle_task k3 = idle_task k2" "dead_list k3 = dead_list k2"
    by (simp_all add: qstate_def)
  note run = sched_create_kernel_task_def Let_def upd_task_def enqueue_def ring_pred.simps k_zero_def a s t2 t3
  obtain k r where c: "sched_create_kernel_task demo_linkage ''init'' 0xFFFF000040000400 ?k = Some (k, r)"
    by (simp add: run demo_idle_def)
  then have "map_option tstate (tasks k 0xFFFF000040001000) = Some TASK_READY"
    "map_option tstate (tasks k 0xFFFF000040004020) = Some TASK_READY"
    "current k = 0xFFFF000040001000" "idle_task k = 0xFFFF000040001000" "dead_list k = 0"
    by (auto simp: run demo_idle_def zero_task_def)
  then show thesis by (rule that [OF c])
qed

lemma demo_run:
  obtains k where "sched_reach no_drivers demo_linkage k" and "current k = 0xFFFF000040004020"
proof -
  obtain k r where k: "sched_create_kernel_task demo_linkage ''init'' 0xFFFF000040000400 (sched_init demo_boot) = Some (k, r)"
    "map_option tstate (tasks k 0xFFFF000040001000) = Some TASK_READY"
    "map_option tstate (tasks k 0xFFFF000040004020) = Some TASK_READY"
    "current k = 0xFFFF000040001000" "idle_task k = 0xFFFF000040001000" "dead_list k = 0"
    by (rule demo_created)
  have "fresh_alloc (sched_init demo_boot)"
    by (simp add: fresh_alloc_def alloc_task_def k_kmalloc_def demo_init demo_task_alloc)
  then have R: "sched_reach no_drivers demo_linkage k"
    using k(1) demo_boot_ok by (intro sched_reach.step [OF sched_reach.boot] sched_step.create_kernel)
  then obtain q ds where Q: "queues k q ds" using sched_reach_ok unfolding queue_ok_def by blast
  then have "ds = []" using k(6) by (cases ds) (auto simp: queues_def links_def)
  then obtain rs where rs: "queues k (current k # rs) []" "set (current k # rs) = set q" using Q queues_start by metis
  have "dom (tasks k) = set q" using Q \<open>ds = []\<close> by (simp add: queues_def links_def)
  moreover have "0xFFFF000040004020 \<in> dom (tasks k)" using k(3) by auto
  ultimately have "0xFFFF000040004020 \<in> set (current k # rs)" using rs(2) by simp
  then have "0xFFFF000040004020 \<in> set rs" using k(4) by simp
  then obtain xs ys where xs: "rs = xs @ 0xFFFF000040004020 # ys" by (metis split_list)
  obtain p where p: "tasks k (current k) = Some p" "tstate p = TASK_READY" using k(2,4) by auto
  have "eligible k 0xFFFF000040004020" using k(3,5) by (auto simp: eligible_def ready_def)
  then obtain n k' where n: "schedules n k = Some k'" "current k' = 0xFFFF000040004020"
    using schedules_reach [OF rs(1) [unfolded xs] p(1)] p(2) by auto
  have "sched_reach no_drivers demo_linkage k'" by (rule sched_reach_schedules [OF R n(1)])
  then show thesis using that n(2) by blast
qed

text \<open>
  C1. In every state the scheduler reaches from \<^verbatim>\<open>sched_init\<close>, through any sequence of task
  creations, forks, switches, exits, kills, sleeps, wake-ups, waits and page faults, the \<open>tnext\<close>
  pointers form one ring \<open>q\<close> and one list \<open>ds\<close> from \<open>dead_list\<close> to \<^verbatim>\<open>NULL\<close>. The two are
  disjoint and hold every live task, the idle and the current task are in the ring, every other
  task of the ring is ready or asleep, the dead list holds dead tasks and zombies only, and the idle
  task is alive.
\<close>
theorem sched_queues_invariant:
  assumes "sched_reach D L k"
  shows "\<exists>q ds. ring (tasks k) q \<and> path (tasks k) (dead_list k) ds 0 \<and> distinct (q @ ds) \<and> dom (tasks k) = set (q @ ds) \<and>
    idle_task k \<in> set q \<and> current k \<in> set q \<and>
    (\<forall>t \<in> set q - {current k}. state_in (tasks k) t {TASK_READY, TASK_SLEEPING}) \<and>
    (\<forall>t \<in> set ds. state_in (tasks k) t {TASK_DEAD, TASK_ZOMBIE}) \<and> idle_alive (tasks k) (idle_task k)"
  using sched_reach_ok [OF assms] by (auto simp: queue_ok_def queues_def links_def)

theorem sched_queues_invariant_witness:
  "\<exists>k q ds. sched_reach no_drivers demo_linkage k \<and> current k = 0xFFFF000040004020 \<and>
     ring (tasks k) q \<and> path (tasks k) (dead_list k) ds 0 \<and> distinct (q @ ds) \<and> current k \<in> set q"
proof -
  obtain k where k: "sched_reach no_drivers demo_linkage k" "current k = 0xFFFF000040004020" by (rule demo_run)
  from sched_queues_invariant [OF k(1)] k show ?thesis by blast
qed


definition demo_ring :: "unit kernel" where
  "demo_ring = demo_boot\<lparr>tasks := [1 \<mapsto> zero_task\<lparr>tnext := 2\<rparr>, 2 \<mapsto> zero_task\<lparr>pid := 1, tstate := TASK_RUNNING, tnext := 3\<rparr>,
     3 \<mapsto> zero_task\<lparr>pid := 2, tnext := 4\<rparr>, 4 \<mapsto> zero_task\<lparr>pid := 3, tnext := 1\<rparr>], idle_task := 1, current := 2\<rparr>"

lemma demo_ring_queues: "queues demo_ring [1, 2, 3, 4] []"
  by (auto simp: queues_def links_def ring_def demo_ring_def demo_boot_def state_in_def idle_alive_def zero_task_def)


end
