(* ===== verification/Paging.thy ===== *)
theory Paging
  imports Sched_Run
begin

text \<open>
  Demand paging: the fault handlers of \<^verbatim>\<open>sched.c\<close> over the memory areas, the translation
  tables, the frame pool and the heap together. A fault inside an area whose protection allows the
  access gets one fresh zeroed frame, recorded in the area and mapped at the faulting page; every
  other fault leaves the address space alone.
\<close>

section \<open>Frames taken from the shared pool\<close>

text \<open>The heap does not mind when somebody else takes frames.\<close>

lemma heap_pool_grow:
  assumes "heap_inv h" and "pmm_inv p" and "pmm_pinned p = pmm_pinned (pool h)"
    and "mem_region_end p = mem_region_end (pool h)" and "pmm_owned (pool h) \<subseteq> pmm_owned p"
  shows "heap_inv (h\<lparr>pool := p\<rparr>)" and "allocs (h\<lparr>pool := p\<rparr>) = allocs h"
    and "foreign (h\<lparr>pool := p\<rparr>) = foreign h \<union> (pmm_owned p - pmm_owned (pool h))"
proof -
  have same: "region_bytes (h\<lparr>pool := p\<rparr>) = region_bytes h" by (simp add: region_bytes_def)
  have regs: "heap_regions_ok h" "pmm_inv (pool h)" using assms(1) by (simp_all add: heap_inv_def heap_regions_ok_def)
  then have "heap_regions_ok (h\<lparr>pool := p\<rparr>)"
    using assms(2-5) unfolding heap_regions_ok_def same by auto
  then show "heap_inv (h\<lparr>pool := p\<rparr>)" using assms(1) unfolding heap_inv_def same by simp
  show "allocs (h\<lparr>pool := p\<rparr>) = allocs h" by (simp add: allocs_def)
  have "pmm_pinned (pool h) \<subseteq> pmm_owned (pool h)" by (rule pmm_pinned_owned [OF regs(2)])
  moreover have "page_of ` region_bytes h \<subseteq> pmm_owned (pool h)" using regs(1) by (auto simp: heap_regions_ok_def)
  ultimately show "foreign (h\<lparr>pool := p\<rparr>) = foreign h \<union> (pmm_owned p - pmm_owned (pool h))"
    using assms(3,5) unfolding foreign_def same by auto
qed

text \<open>Neither do the translation tables.\<close>

lemma pt_pool_grow:
  assumes "pt_inv m l0" and "pmm_inv p" and "pmm_pinned p = pmm_pinned (mpool m)"
    and "mem_region_end p = mem_region_end (mpool m)" and "pmm_owned (mpool m) \<subseteq> pmm_owned p"
  shows "pt_inv (m\<lparr>mpool := p\<rparr>) l0" and "table_pages (m\<lparr>mpool := p\<rparr>) l0 = table_pages m l0"
    and "pte (m\<lparr>mpool := p\<rparr>) l0 va = pte m l0 va"
proof -
  have t: "tbl (m\<lparr>mpool := p\<rparr>) t q = tbl m t q" for t q by (induction q arbitrary: t) simp_all
  then show tp: "table_pages (m\<lparr>mpool := p\<rparr>) l0 = table_pages m l0" by (simp add: table_pages_def)
  show "pt_inv (m\<lparr>mpool := p\<rparr>) l0" using assms unfolding pt_inv_def tp by (auto simp: t)
  show "pte (m\<lparr>mpool := p\<rparr>) l0 va = pte m l0 va" by (auto simp: pte_def t split: option.split)
qed

section \<open>One page of an area\<close>

lemma vm_page_split:
  assumes "i < vma_npages v"
  obtains xs ys where "vma_pages_of s v = xs @ (vstart v + 4096 * i, vprot v, vflags v, cells s (vpages v + 8 * i)) # ys"
    and "vma_pages_of (s\<lparr>cells := (cells s)(vpages v + 8 * i := pa)\<rparr>) v =
      xs @ (vstart v + 4096 * i, vprot v, vflags v, pa) # ys"
proof -
  have "[0..<vma_npages v] = [0..<i] @ i # [Suc i..<vma_npages v]"
    using assms by (metis le_add_diff_inverse less_imp_le_nat upt_add_eq_append upt_conv_Cons zero_le)
  then show thesis
    by (intro that [of "map (\<lambda>i. (vstart v + 4096 * i, vprot v, vflags v, cells s (vpages v + 8 * i))) [0..<i]"
        "map (\<lambda>i. (vstart v + 4096 * i, vprot v, vflags v, cells s (vpages v + 8 * i))) [Suc i..<vma_npages v]"])
      (auto simp: vma_pages_of_def)
qed

lemma other_area_pages:
  assumes "vma_inv s (as @ v # bs)" and "u \<in> set as \<union> set bs" and "i < vma_npages v"
  shows "vma_pages_of (s\<lparr>cells := (cells s)(vpages v + 8 * i := pa)\<rparr>) u = vma_pages_of s u"
proof -
  obtain k where k: "(vpages v, k) \<in> allocs (vm.vheap s)" "8 * vma_npages v \<le> k"
    using assms(1) by (auto simp: vma_inv_def array_ok_def)
  have "vpages v \<notin> vpages ` (set as \<union> set bs)" using assms(1) by (auto simp: vma_inv_def)
  then have au: "vpages u \<noteq> vpages v" using assms(2) by (metis image_eqI)
  have ok: "array_ok s u" using assms(1,2) by (auto simp: vma_inv_def)
  have "vpages v + 8 * i \<notin> {p..<p + j}" if "(p, j) \<in> allocs (vm.vheap s)" "p = vpages u" for p j
  proof -
    have "{vpages v..<vpages v + k} \<inter> {p..<p + j} = {}"
      using assms(1) k(1) that au by (intro kheap.live_disjoint [of "vm.vheap s"]) (auto simp: vma_inv_def)
    moreover have "vpages v + 8 * i \<in> {vpages v..<vpages v + k}" using assms(3) k(2) by auto
    ultimately show ?thesis by blast
  qed
  then show ?thesis by (intro vma_pages_of_cong [OF ok]) fastforce
qed

lemma vm_set_page:
  assumes "vma_inv s vs" and "v \<in> set vs" and "i < vma_npages v" and "cells s (vpages v + 8 * i) = 0"
    and "heap_inv h" and "allocs h = allocs (vm.vheap s)" and "pa \<noteq> 0" and "pa \<notin> foreign (vm.vheap s)"
    and "insert pa (foreign (vm.vheap s)) \<subseteq> foreign h"
  obtains xs ys where "vm_map s vs = xs @ (vstart v + 4096 * i, vprot v, vflags v, 0) # ys"
    and "vm_map \<lparr>vm.vheap = h, cells = (cells s)(vpages v + 8 * i := pa)\<rparr> vs = xs @ (vstart v + 4096 * i, vprot v, vflags v, pa) # ys"
    and "vma_inv \<lparr>vm.vheap = h, cells = (cells s)(vpages v + 8 * i := pa)\<rparr> vs"
proof -
  define s' where "s' = \<lparr>vm.vheap = h, cells = (cells s)(vpages v + 8 * i := pa)\<rparr>"
  define s1 where "s1 = s\<lparr>cells := (cells s)(vpages v + 8 * i := pa)\<rparr>"
  obtain as bs where vs: "vs = as @ v # bs" using assms(2) by (metis split_list)
  obtain xs ys where p: "vma_pages_of s v = xs @ (vstart v + 4096 * i, vprot v, vflags v, 0) # ys"
    "vma_pages_of s1 v = xs @ (vstart v + 4096 * i, vprot v, vflags v, pa) # ys"
    using vm_page_split [OF assms(3)] assms(4) unfolding s1_def by metis
  have same: "vma_pages_of s' u = vma_pages_of s1 u" for u by (simp add: s'_def s1_def vma_pages_of_def)
  have o: "vma_pages_of s1 u = vma_pages_of s u" if "u \<in> set as \<union> set bs" for u
    unfolding s1_def using other_area_pages [OF assms(1) [unfolded vs] that assms(3)] .
  then have ab: "vm_map s' as = vm_map s as" "vm_map s' bs = vm_map s bs"
    by (auto intro!: vm_map_same simp: same)
  define ls where "ls = vm_map s as @ xs"
  define rs where "rs = ys @ vm_map s bs"
  have m: "vm_map s vs = ls @ (vstart v + 4096 * i, vprot v, vflags v, 0) # rs"
    "vm_map s' vs = ls @ (vstart v + 4096 * i, vprot v, vflags v, pa) # rs"
    by (simp_all add: vs ab same p ls_def rs_def)
  have b: "backing (vm_map s vs) = backing ls @ backing rs" "backing (vm_map s' vs) = backing ls @ pa # backing rs"
    unfolding m using assms(7) by (simp_all add: backing_def)
  have "distinct (backing (vm_map s vs))" "set (backing (vm_map s vs)) \<subseteq> foreign (vm.vheap s)" using assms(1) by (simp_all add: vma_inv_def)
  then have "distinct (backing (vm_map s' vs))" "set (backing (vm_map s' vs)) \<subseteq> foreign h"
    unfolding b using assms(8,9) by auto
  moreover have "\<forall>u \<in> set vs. vma_ok u \<and> array_ok s' u" using assms(1,6) by (auto simp: vma_inv_def array_ok_def s'_def)
  ultimately have "vma_inv s' vs" using assms(1,5) unfolding vma_inv_def by (simp add: s'_def)
  then show thesis using that m unfolding s'_def by blast
qed

section \<open>The address space of a task\<close>

text \<open>
  The areas and the tables of a task on the shared frame pool: both invariants hold, the areas lie
  below the 48-bit limit, and no frame of an area is a table.
\<close>

definition space_ok :: "'w kernel \<Rightarrow> task \<Rightarrow> bool" where
  "space_ok k x \<longleftrightarrow>
     vma_inv (k_vm k) (vmas x) \<and> pt_inv (k_mmu k) (user_l0 x) \<and> (\<forall>v \<in> set (vmas x). vend v \<le> 2 ^ 48) \<and>
     table_pages (k_mmu k) (user_l0 x) \<subseteq> foreign (k_heap k) - set (backing (vm_map (k_vm k) (vmas x)))"

lemma k_vm_simps [simp]: "vm.vheap (k_vm k) = k_heap k" "cells (k_vm k) = page_cells k"
  by (simp_all add: k_vm_def)

lemma k_mmu_simps [simp]: "mpool (k_mmu k) = pool (k_heap k)" "tables (k_mmu k) = tables (mm k)"
  by (simp_all add: k_mmu_def k_pool_def)

text \<open>A frame from the pool, zeroed and mapped at one page.\<close>

lemma fresh_frame:
  assumes "pmm_inv p" and "pmm_allocate_page p = (q, a)" and "a \<noteq> 0"
  shows "a mod 4096 = 0" and "a + 4096 \<le> mem_region_end p" and "mem_region_end q = mem_region_end p"
proof -
  obtain n where n: "n < total_pages p" "a = frame_addr p n" "q = pmm_take p n"
    using assms(1) by (rule pmm_allocate_page_cases) (use assms(2,3) in auto)
  show "a mod 4096 = 0" "mem_region_end q = mem_region_end p"
    using frame_addr_bounds [OF assms(1) n(1)] by (simp_all add: n frame_simps)
  have "(n + 1) * 4096 \<le> total_pages p * 4096" using n(1) by (intro mult_le_mono1) simp
  then show "a + 4096 \<le> mem_region_end p" using assms(1) by (simp add: n(2) frame_addr_def pmm_inv_def)
qed

lemma map_fresh_page:
  assumes "heap_inv (k_heap k)" and "pt_inv (k_mmu k) l0" and "table_pages (k_mmu k) l0 \<subseteq> foreign (k_heap k)"
    and "k_alloc_page k = (k1, pa)" and "pa \<noteq> 0" and "va mod 4096 = 0" and "va + 4096 \<le> 2 ^ 48"
    and "k2 = k_map l0 va pa 1 fl (k_zero pa PAGE_SIZE k1)"
  shows "heap_inv (k_heap k2)" and "allocs (k_heap k2) = allocs (k_heap k)" and "pa \<notin> foreign (k_heap k)"
    and "insert pa (foreign (k_heap k)) \<subseteq> foreign (k_heap k2)" and "pt_inv (k_mmu k2) l0"
    and "table_pages (k_mmu k2) l0 \<subseteq> foreign (k_heap k2) - insert pa (foreign (k_heap k) - table_pages (k_mmu k) l0)"
    and "\<And>vb. vb < 2 ^ 48 \<Longrightarrow> vb div 4096 \<noteq> va div 4096 \<Longrightarrow> pte (k_mmu k2) l0 vb = pte (k_mmu k) l0 vb"
    and "pte (k_mmu k2) l0 va = Some (page_entry pa fl) \<or>
      pte (k_mmu k2) l0 va = pte (k_mmu k) l0 va \<and> pmm_allocate_page (k_pool k2) = (k_pool k2, 0)"
    and "page_cells k2 = page_cells k" and "ram k2 = memset (ram k) (phys_to_virt pa) 0 PAGE_SIZE"
proof -
  obtain p where p: "pmm_allocate_page (pool (k_heap k)) = (p, pa)" "k1 = set_pool p k"
    using assms(4) by (auto simp: k_alloc_page_def k_pool_def split: prod.splits)
  have i: "pmm_inv (pool (k_heap k))" "mem_region_end (pool (k_heap k)) \<le> 2 ^ 48"
    using assms(1) by (simp_all add: heap_inv_def heap_regions_ok_def)
  note f = fresh_frame [OF i(1) p(1) assms(5)]
  note law = pmm_allocate_page_law [OF i(1) p(1)]
  define m1 where "m1 = (k_mmu k)\<lparr>mpool := p\<rparr>"
  define m2 where "m2 = mmu_map_user_range m1 l0 va pa 1 fl"
  have g1: "pt_inv m1 l0" "table_pages m1 l0 = table_pages (k_mmu k) l0" "\<And>vb. pte m1 l0 vb = pte (k_mmu k) l0 vb"
    unfolding m1_def by (rule pt_pool_grow; use assms(2,5) law f in auto)+
  obtain c where c: "c \<le> 1" "grows l0 m1 m2"
    "\<And>vb. vb < 2 ^ 48 \<Longrightarrow> pte m2 l0 vb = (if va div 4096 \<le> vb div 4096 \<and> vb div 4096 < va div 4096 + c
       then Some (page_entry (pa + (vb div 4096 - va div 4096) * 4096) fl) else pte m1 l0 vb)"
    "c < 1 \<Longrightarrow> pmm_allocate_page (mpool m2) = (mpool m2, 0)"
    using map_pages_law [OF g1(1) assms(6), of 1 pa 0 fl m2] assms(7) f(2) i(2)
    by (auto simp: m2_def mmu_map_user_range_def)
  have k2: "k_heap k2 = (k_heap k)\<lparr>pool := mpool m2\<rparr>" "k_mmu k2 = m2" "page_cells k2 = page_cells k"
    "ram k2 = memset (ram k) (phys_to_virt pa) 0 PAGE_SIZE" "k_pool k2 = mpool m2"
    by (simp_all add: assms(8) p(2) k_map_def k_zero_def set_mmu_def set_pool_def set_heap_def k_heap_def k_mmu_def k_pool_def m2_def m1_def)
  have o: "pmm_owned (pool (k_heap k)) \<subseteq> pmm_owned (mpool m2)" "pa \<notin> pmm_owned (pool (k_heap k))" "pa \<in> pmm_owned (mpool m2)"
    "pmm_owned (mpool m1) = insert pa (pmm_owned (pool (k_heap k)))"
    using c(2) law assms(5) by (auto simp: grows_def m1_def)
  have same: "pmm_pinned (mpool m2) = pmm_pinned (pool (k_heap k))" "mem_region_end (mpool m2) = mem_region_end (pool (k_heap k))"
    "pmm_inv (mpool m2)"
    using c(2) law f(3) by (auto simp: grows_def m1_def pt_inv_def)
  note H = heap_pool_grow [OF assms(1) same(3,1,2) o(1)]
  show "heap_inv (k_heap k2)" "allocs (k_heap k2) = allocs (k_heap k)" using H by (simp_all add: k2)
  show nf: "pa \<notin> foreign (k_heap k)" using o(2) by (auto simp: foreign_def)
  show "insert pa (foreign (k_heap k)) \<subseteq> foreign (k_heap k2)" using H(3) o by (auto simp: k2)
  show "pt_inv (k_mmu k2) l0" using c(2) by (simp add: k2 grows_def)
  have t: "pmm_owned (mpool m2) - table_pages m2 l0 = insert pa (pmm_owned (pool (k_heap k))) - table_pages (k_mmu k) l0"
    "table_pages m2 l0 \<subseteq> pmm_owned (mpool m2)"
    using c(2) g1(2) o(4) by (auto simp: grows_def pt_inv_def)
  have "table_pages m2 l0 \<subseteq> table_pages (k_mmu k) l0 \<union> (pmm_owned (mpool m2) - pmm_owned (pool (k_heap k))) - {pa}"
    using t o(2,3) assms(3) nf by auto
  then show "table_pages (k_mmu k2) l0 \<subseteq> foreign (k_heap k2) - insert pa (foreign (k_heap k) - table_pages (k_mmu k) l0)"
    using assms(3) H(3) by (auto simp: k2 foreign_def)
  show "pte (k_mmu k2) l0 vb = pte (k_mmu k) l0 vb" if "vb < 2 ^ 48" "vb div 4096 \<noteq> va div 4096" for vb
  proof -
    have "\<not> (va div 4096 \<le> vb div 4096 \<and> vb div 4096 < va div 4096 + c)" using c(1) that(2) by linarith
    then show ?thesis using c(3) [OF that(1)] by (simp only: k2 g1(3) if_False)
  qed
  show "pte (k_mmu k2) l0 va = Some (page_entry pa fl) \<or>
      pte (k_mmu k2) l0 va = pte (k_mmu k) l0 va \<and> pmm_allocate_page (k_pool k2) = (k_pool k2, 0)"
    using c(3) [of va] c(4) assms(7) by (cases "c < 1") (simp_all add: k2 g1(3))
  show "page_cells k2 = page_cells k" "ram k2 = memset (ram k) (phys_to_virt pa) 0 PAGE_SIZE" by (simp_all add: k2)
qed

section \<open>The fault handler\<close>

text \<open>The frame a successful fault installs, and what the address space looks like afterwards.\<close>

definition faulted_in :: "'w kernel \<Rightarrow> task \<Rightarrow> nat \<Rightarrow> 'w kernel \<Rightarrow> vma \<Rightarrow> nat \<Rightarrow> bool" where
  "faulted_in k x far k' v pa \<longleftrightarrow>
     pa \<noteq> 0 \<and> pa \<notin> foreign (k_heap k) \<and>
     (\<exists>xs ys. vm_map (k_vm k) (vmas x) = xs @ (far div 4096 * 4096, vprot v, vflags v, 0) # ys \<and>
        vm_map (k_vm k') (vmas x) = xs @ (far div 4096 * 4096, vprot v, vflags v, pa) # ys) \<and>
     (\<forall>i < 4096. ram k' (phys_to_virt pa + i) = 0) \<and>
     (\<forall>vb < 2 ^ 48. vb div 4096 \<noteq> far div 4096 \<longrightarrow> pte (k_mmu k') (user_l0 x) vb = pte (k_mmu k) (user_l0 x) vb) \<and>
     (pte (k_mmu k') (user_l0 x) far = Some (page_entry pa (mmu_prot_to_flags (of_nat (vprot v)))) \<or>
      pmm_allocate_page (k_pool k') = (k_pool k', 0))"

lemma memset_inside: "i < n \<Longrightarrow> memset m d c n (d + i) = word_of_int c"
  unfolding memset_def by (induction n) (auto simp: less_Suc_eq)

lemma set_pool_id: "set_pool (pool (k_heap k)) k = k"
  by (simp add: set_pool_def set_heap_def k_heap_def)

lemma alloc_page_none: "heap_inv (k_heap k) \<Longrightarrow> k_alloc_page k = (k1, 0) \<Longrightarrow> k1 = k"
  using heap_acquire_law(3) [of "k_heap k"] by (auto simp: k_alloc_page_def k_pool_def set_pool_id split: prod.splits)

lemma pte_page: "va div 4096 = vb div 4096 \<Longrightarrow> va < 2 ^ 48 \<Longrightarrow> vb < 2 ^ 48 \<Longrightarrow> pte m l0 va = pte m l0 vb"
  using va_path_eq_iff [of va vb] by (auto simp: pte_def split: option.split)

lemma vma_fault_law:
  assumes "t \<noteq> 0" and "tasks k t = Some x" and "ttbr0 x \<noteq> 0" and "space_ok k x"
  obtains k' r where "sched_try_handle_vma_fault t far w e k = Some (k', r)" and "space_ok k' x" and "qstate k' = qstate k"
    and "\<not> r \<Longrightarrow> k' = k"
    and "r \<longleftrightarrow> (\<exists>v. vma_find (vmas x) far = Some v \<and> access_ok v w e \<and>
       page_cells k (vpages v + 8 * ((far - vstart v) div 4096)) = 0 \<and> snd (pmm_allocate_page (k_pool k)) \<noteq> 0)"
    and "r \<Longrightarrow> \<exists>v pa. vma_find (vmas x) far = Some v \<and> faulted_in k x far k' v pa"
proof (cases "\<exists>v. vma_find (vmas x) far = Some v \<and> access_ok v w e")
  case False
  then have "sched_try_handle_vma_fault t far w e k = Some (k, False)"
    using assms(1-3) by (auto simp: sched_try_handle_vma_fault_def split: option.splits)
  then show thesis using that [of k False] assms(4) False by auto
next
  case True
  then obtain v where v: "vma_find (vmas x) far = Some v" "access_ok v w e" by blast
  have S: "vma_inv (k_vm k) (vmas x)" "pt_inv (k_mmu k) (user_l0 x)" "\<And>v. v \<in> set (vmas x) \<Longrightarrow> vend v \<le> 2 ^ 48"
    "table_pages (k_mmu k) (user_l0 x) \<subseteq> foreign (k_heap k) - set (backing (vm_map (k_vm k) (vmas x)))"
    using assms(4) by (auto simp: space_ok_def)
  have H: "heap_inv (k_heap k)" using S(1) by (simp add: vma_inv_def)
  have m: "v \<in> set (vmas x)" "vstart v \<le> far" "far < vend v" using v(1) vma_find_iff [OF S(1)] by auto
  then have ok: "vma_ok v" using S(1) by (simp add: vma_inv_def)
  define i where "i = (far - vstart v) div 4096"
  note pi = page_index [OF ok m(2,3), folded i_def]
  have "vstart v + 4096 * i \<le> far" using pi(1) by (metis div_times_less_eq_dividend)
  then have "sub64 (vstart v + 4096 * i) (vstart v) = 4096 * i"
    using m(3) ok by (subst sub64_id) (simp_all add: vma_ok_def)
  then have "sub64 (page_align_down far) (vstart v) = 4096 * i" using pi(1) by (simp add: page_align_down_def)
  then have idx: "sub64 (page_align_down far) (vstart v) div 4096 = i" by simp
  obtain k1 pa where a: "k_alloc_page k = (k1, pa)" by fastforce
  have sa: "snd (pmm_allocate_page (k_pool k)) = pa" using a by (auto simp: k_alloc_page_def split: prod.splits)
  note run = sched_try_handle_vma_fault_def assms(1-3) v Let_def idx a
  have np: "vma_npages v = sub64 (vend v) (vstart v) div 4096" by (simp add: vma_npages_def)
  show thesis
  proof (cases "page_cells k (vpages v + 8 * i) = 0 \<and> pa \<noteq> 0")
    case False
    then have "sched_try_handle_vma_fault t far w e k = Some (k, False)"
      using pi(2) alloc_page_none [OF H] a unfolding np by (auto simp: run)
    then show thesis using that [of k False] assms(4) False v sa by (auto simp: i_def)
  next
    case True
    define k2 where "k2 = k_map (user_l0 x) (page_align_down far) pa 1 (mmu_prot_to_flags (of_nat (vprot v))) (k_zero pa PAGE_SIZE k1)"
    define k' where "k' = log_tlbi (Tlbi_vae1 (vae1_arg x (page_align_down far))) (k2\<lparr>page_cells := (page_cells k2)(vpages v + 8 * i := pa)\<rparr>)"
    have "vstart v + 4096 * i + 4096 \<le> vstart v + 4096 * vma_npages v" using pi(2) by simp
    then have va: "page_align_down far mod 4096 = 0" "page_align_down far + 4096 \<le> 2 ^ 48"
      using vma_npages_end [OF ok] S(3) [OF m(1)] pi(1) ok by (simp_all add: page_align_down_def vma_ok_def)
    have T: "table_pages (k_mmu k) (user_l0 x) \<subseteq> foreign (k_heap k)" using S(4) by blast
    have pa: "pa \<noteq> 0" using True by simp
    note M = map_fresh_page [OF H S(2) T a pa va k2_def]
    have k': "k_vm k' = \<lparr>vm.vheap = k_heap k2, cells = (cells (k_vm k))(vpages v + 8 * i := pa)\<rparr>" "k_mmu k' = k_mmu k2"
      "k_heap k' = k_heap k2" "k_pool k' = k_pool k2" "ram k' = ram k2" "qstate k' = qstate k"
      using call_result_qstate(1) [OF a] M(9)
      by (simp_all add: k'_def log_tlbi_def k_vm_def k_mmu_def k_heap_def k_pool_def k2_def)
    obtain xs ys where X: "vm_map (k_vm k) (vmas x) = xs @ (vstart v + 4096 * i, vprot v, vflags v, 0) # ys"
      "vm_map (k_vm k') (vmas x) = xs @ (vstart v + 4096 * i, vprot v, vflags v, pa) # ys" "vma_inv (k_vm k') (vmas x)"
      unfolding k'(1)
      by (rule vm_set_page [OF S(1) m(1) pi(2), of "k_heap k2" pa]) (use True M(1-4) in simp_all)
    have "space_ok k' x"
      unfolding space_ok_def k'(2,3)
    proof (intro conjI ballI)
      have "set (backing (vm_map (k_vm k') (vmas x))) \<subseteq> insert pa (set (backing (vm_map (k_vm k) (vmas x))))"
        unfolding X(1,2) by (auto simp: backing_def)
      moreover have "set (backing (vm_map (k_vm k) (vmas x))) \<subseteq> foreign (k_heap k) - table_pages (k_mmu k) (user_l0 x)"
        using S(1,4) by (auto simp: vma_inv_def)
      ultimately show "table_pages (k_mmu k2) (user_l0 x) \<subseteq> foreign (k_heap k2) - set (backing (vm_map (k_vm k') (vmas x)))"
        using M(6) by blast
    qed (use X(3) M(5) S(3) in simp_all)
    moreover have "faulted_in k x far k' v pa"
      unfolding faulted_in_def k'(2,4,5)
    proof (intro conjI allI impI)
      show "\<exists>xs ys. vm_map (k_vm k) (vmas x) = xs @ (far div 4096 * 4096, vprot v, vflags v, 0) # ys \<and>
        vm_map (k_vm k') (vmas x) = xs @ (far div 4096 * 4096, vprot v, vflags v, pa) # ys"
        using X(1,2) pi(1) by auto
      show "pte (k_mmu k2) (user_l0 x) far = Some (page_entry pa (mmu_prot_to_flags (of_nat (vprot v)))) \<or>
          pmm_allocate_page (k_pool k2) = (k_pool k2, 0)"
        using M(8) pte_page [of far "page_align_down far"] m(3) S(3) [OF m(1)] va(2) by (auto simp: page_align_down_def)
      fix vb :: nat assume "vb < 2 ^ 48" "vb div 4096 \<noteq> far div 4096"
      then show "pte (k_mmu k2) (user_l0 x) vb = pte (k_mmu k) (user_l0 x) vb"
        by (intro M(7)) (simp_all add: page_align_down_def)
    qed (use pa M(3,10) in \<open>simp_all add: memset_inside\<close>)
    moreover have "sched_try_handle_vma_fault t far w e k = Some (k', True)"
      using True pi(2) unfolding np by (simp add: run k'_def k2_def)
    ultimately show thesis using that [of k' True] k'(6) v True sa by (auto simp: i_def)
  qed
qed

section \<open>Properties\<close>

text \<open>Reading, writing and executing need bits 0, 1 and 2 of the protection.\<close>

lemma access_ok_bits: "access_ok v w e \<longleftrightarrow> bit (vprot v) (if e then 2 else if w then 1 else 0)"
proof -
  have "of_nat p AND (1 :: 32 word) \<noteq> 0 \<longleftrightarrow> bit p 0" "of_nat p AND (2 :: 32 word) \<noteq> 0 \<longleftrightarrow> bit p 1"
    "of_nat p AND (4 :: 32 word) \<noteq> 0 \<longleftrightarrow> bit p 2" for p :: nat
    using bit_iff_and_push_bit_not_eq_0 [of "of_nat p :: 32 word" 0] bit_iff_and_push_bit_not_eq_0 [of "of_nat p :: 32 word" 1]
      bit_iff_and_push_bit_not_eq_0 [of "of_nat p :: 32 word" 2]
    by (simp_all add: bit_of_nat_iff)
  then show ?thesis by (simp add: access_ok_def VMA_PROT_READ_def VMA_PROT_WRITE_def VMA_PROT_EXEC_def)
qed

text \<open>
  C5. A fault on a user address. For a task whose areas and tables are well formed,
  \<^verbatim>\<open>sched_try_handle_vma_fault\<close> returns and keeps them so, without touching the queues. It
  succeeds exactly when the address lies in an area whose protection has the bit of the access (0 to
  read, 1 to write, 2 to execute), the page is not resident, and a frame is left. Then the page, and no other, is backed by a fresh zeroed frame,
  no other translation changes, and the page is mapped to that frame with the attributes of the
  area's protection unless the pool ran out of pages for the intermediate tables. When it fails
  nothing changes.
\<close>
theorem vma_fault_demand_pages:
  assumes "t \<noteq> 0" and "tasks k t = Some x" and "ttbr0 x \<noteq> 0" and "space_ok k x"
  shows "\<exists>k' r. sched_try_handle_vma_fault t far w e k = Some (k', r) \<and> space_ok k' x \<and> qstate k' = qstate k \<and>
    (r \<longleftrightarrow> (\<exists>v. vma_find (vmas x) far = Some v \<and> bit (vprot v) (if e then 2 else if w then 1 else 0) \<and>
       page_cells k (vpages v + 8 * ((far - vstart v) div 4096)) = 0 \<and> snd (pmm_allocate_page (k_pool k)) \<noteq> 0)) \<and>
    (if r then \<exists>v pa. vma_find (vmas x) far = Some v \<and> faulted_in k x far k' v pa else k' = k)"
proof (rule vma_fault_law [OF assms, of far w e, unfolded access_ok_bits])
  fix k' r
  assume L: "sched_try_handle_vma_fault t far w e k = Some (k', r)" "space_ok k' x" "qstate k' = qstate k" "\<not> r \<Longrightarrow> k' = k"
    "r \<longleftrightarrow> (\<exists>v. vma_find (vmas x) far = Some v \<and> bit (vprot v) (if e then 2 else if w then 1 else 0) \<and>
       page_cells k (vpages v + 8 * ((far - vstart v) div 4096)) = 0 \<and> snd (pmm_allocate_page (k_pool k)) \<noteq> 0)"
    "r \<Longrightarrow> \<exists>v pa. vma_find (vmas x) far = Some v \<and> faulted_in k x far k' v pa"
  from L(1-3,5) show ?thesis by (intro exI [of _ k'] exI [of _ r] conjI) (use L(4,6) in simp_all)
qed

text \<open>The witness: the demo areas on a kernel with one task and fresh tables.\<close>

definition demo_mem :: "unit kernel" where
  "demo_mem = demo_boot\<lparr>fs := demo_vfs\<lparr>vfs.vheap := vm.vheap demo_vm\<rparr>, page_cells := cells demo_vm\<rparr>"

definition demo_user :: task where
  "demo_user = zero_task\<lparr>pid := 1, ttbr0 := ttbr_pack (of_nat (snd (k_create_tables demo_mem))) 1, vmas := demo_vmas\<rparr>"

definition demo_fault :: "unit kernel" where
  "demo_fault = (fst (k_create_tables demo_mem))\<lparr>tasks := [2 \<mapsto> demo_user]\<rparr>"

text \<open>Taking one frame leaves all but one of the free frames free.\<close>

definition free_frames :: "pmm \<Rightarrow> nat set" where
  "free_frames p = {n. n < total_pages p \<and> \<not> bitmap_test n p}"

lemma free_frames_alloc:
  assumes "pmm_inv p"
  shows "free_frames p \<noteq> {} \<Longrightarrow> snd (pmm_allocate_page p) \<noteq> 0"
    and "\<exists>x. free_frames p - {x} \<subseteq> free_frames (fst (pmm_allocate_page p))"
proof -
  consider "pmm_allocate_page p = (p, 0)" "free_frames p = {}"
    | n where "pmm_allocate_page p = (pmm_take p n, frame_addr p n)" "n < total_pages p"
    using assms by (rule pmm_allocate_page_cases) (auto simp: free_frames_def)
  then have "(free_frames p \<noteq> {} \<longrightarrow> snd (pmm_allocate_page p) \<noteq> 0) \<and> (\<exists>x. free_frames p - {x} \<subseteq> free_frames (fst (pmm_allocate_page p)))"
  proof cases
    case (2 n)
    then show ?thesis
      using frame_addr_bounds(3) [OF assms] by (auto simp: free_frames_def frame_simps intro!: exI [of _ n])
  qed simp
  then show "free_frames p \<noteq> {} \<Longrightarrow> snd (pmm_allocate_page p) \<noteq> 0"
    "\<exists>x. free_frames p - {x} \<subseteq> free_frames (fst (pmm_allocate_page p))" by blast+
qed

lemma demo_free_frames: "{990, 991, 992} \<subseteq> free_frames (pool demo_heap1)"
proof -
  have "pool demo_heap1 = pmm_take_run demo_pmm 4 256"
    by (simp add: demo_heap1_def demo_heap_def heap_init_def demo_pmm_run register_region_def
        phys_to_virt_def u64_def KERNEL_VA_OFFSET_def Let_def)
  then show ?thesis by (simp add: free_frames_def demo_pmm_test demo_pmm_fields frame_simps)
qed

lemma demo_mem_eq: "k_heap demo_mem = vm.vheap demo_vm" "page_cells demo_mem = cells demo_vm" "k_vm demo_mem = demo_vm"
  by (simp_all add: demo_mem_def demo_boot_def k_heap_def k_vm_def)

lemma demo_tables:
  obtains m l0 where "k_create_tables demo_mem = (set_mmu m demo_mem, l0)" and "l0 \<noteq> 0" and "l0 mod 4096 = 0" and "l0 < 2 ^ 48"
    and "pt_inv m l0" and "table_pages m l0 = {l0}" and "l0 \<notin> pmm_owned (pool (k_heap demo_mem))"
    and "pmm_owned (mpool m) = insert l0 (pmm_owned (pool (k_heap demo_mem)))" and "pmm_inv (mpool m)"
    and "pmm_pinned (mpool m) = pmm_pinned (pool (k_heap demo_mem))"
    and "mem_region_end (mpool m) = mem_region_end (pool (k_heap demo_mem))" and "free_frames (mpool m) \<noteq> {}"
proof -
  have H: "pmm_inv (pool (k_heap demo_mem))" "mem_region_end (pool (k_heap demo_mem)) \<le> 2 ^ 48"
    using demo_vm_inv by (simp_all add: demo_mem_eq vma_inv_def heap_inv_def heap_regions_ok_def)
  have "pmm_inv (pool demo_heap1)" using demo_heap1_inv(1) by (simp add: heap_inv_def heap_regions_ok_def)
  then obtain a where "free_frames (pool demo_heap1) - {a} \<subseteq> free_frames (pool (k_heap demo_mem))"
    using free_frames_alloc(2) [of "pool demo_heap1"] by (auto simp: demo_mem_eq demo_vm_def)
  then have F: "{990, 991, 992} - {a} \<subseteq> free_frames (pool (k_heap demo_mem))" using demo_free_frames by blast
  obtain b where B: "free_frames (pool (k_heap demo_mem)) - {b} \<subseteq> free_frames (fst (pmm_allocate_page (pool (k_heap demo_mem))))"
    using free_frames_alloc(2) [OF H(1)] by blast
  define m where "m = fst (alloc_table (k_mmu demo_mem))"
  define l0 where "l0 = snd (alloc_table (k_mmu demo_mem))"
  have c: "k_create_tables demo_mem = (set_mmu m demo_mem, l0)"
    by (simp add: k_create_tables_def mmu_create_user_tables_def m_def l0_def split: prod.splits)
  have al: "alloc_table (k_mmu demo_mem) = (m, l0)" by (simp add: m_def l0_def)
  have ne: "snd (pmm_allocate_page (pool (k_heap demo_mem))) \<noteq> 0"
    by (rule free_frames_alloc(1) [OF H(1)]) (use F in auto)
  have P: "pmm_inv (mpool (k_mmu demo_mem))" "mem_region_end (mpool (k_mmu demo_mem)) \<le> 2 ^ 48" using H by simp_all
  then show thesis
  proof (rule alloc_table_cases)
    assume "pmm_allocate_page (mpool (k_mmu demo_mem)) = (mpool (k_mmu demo_mem), 0)"
    then show thesis using ne by simp
  next
    fix q t
    assume q: "pmm_allocate_page (mpool (k_mmu demo_mem)) = (q, t)" "t \<noteq> 0" "t mod 4096 = 0" "t < 2 ^ 48" "pmm_inv q"
      "pmm_pinned q = pmm_pinned (mpool (k_mmu demo_mem))" "mem_region_end q = mem_region_end (mpool (k_mmu demo_mem))"
      "alloc_table (k_mmu demo_mem) = ((k_mmu demo_mem)\<lparr>mpool := q, tables := (tables (k_mmu demo_mem))(t := (\<lambda>_. 0))\<rparr>, t)"
    then have e: "mpool m = q" "l0 = t" using al by auto
    have "{990, 991, 992} - {a, b} \<subseteq> free_frames q" using F B q(1) by auto
    then have "free_frames q \<noteq> {}" by auto
    then show thesis
      using that [OF c] alloc_table_fresh [OF P al] q e by simp
  qed
qed

lemma demo_fault_ok: "space_ok demo_fault demo_user" "snd (pmm_allocate_page (k_pool demo_fault)) \<noteq> 0" "ttbr0 demo_user \<noteq> 0"
proof -
  obtain m l0 where m: "k_create_tables demo_mem = (set_mmu m demo_mem, l0)" "l0 \<noteq> 0" "l0 < 2 ^ 48"
    "pt_inv m l0" "table_pages m l0 = {l0}" "l0 \<notin> pmm_owned (pool (k_heap demo_mem))"
    "pmm_owned (mpool m) = insert l0 (pmm_owned (pool (k_heap demo_mem)))" "pmm_inv (mpool m)"
    "pmm_pinned (mpool m) = pmm_pinned (pool (k_heap demo_mem))"
    "mem_region_end (mpool m) = mem_region_end (pool (k_heap demo_mem))" "free_frames (mpool m) \<noteq> {}"
    by (rule demo_tables)
  have k: "k_heap demo_fault = (k_heap demo_mem)\<lparr>pool := mpool m\<rparr>" "k_mmu demo_fault = m" "k_pool demo_fault = mpool m"
    "k_vm demo_fault = \<lparr>vm.vheap = (k_heap demo_mem)\<lparr>pool := mpool m\<rparr>, cells = cells demo_vm\<rparr>"
    by (simp_all add: demo_fault_def m(1) set_mmu_def set_pool_def set_heap_def k_heap_def k_mmu_def k_pool_def k_vm_def demo_mem_eq)
  show "snd (pmm_allocate_page (k_pool demo_fault)) \<noteq> 0" unfolding k(3) by (rule free_frames_alloc(1) [OF m(8,11)])
  have u: "ttbr0 demo_user = ttbr_pack (of_nat l0) 1" "vmas demo_user = demo_vmas" by (simp_all add: demo_user_def m(1))
  have "ttbr_baddr (ttbr0 demo_user) = of_nat l0 AND mask 48" "ttbr_asid (ttbr0 demo_user) = 1"
    unfolding u(1) using ttbr_roundtrip by blast+
  moreover have "of_nat l0 AND mask 48 = (of_nat l0 :: 64 word)" using m(3) by (simp add: take_bit_eq_mask [symmetric] take_bit_of_nat take_bit_nat_eq_self)
  ultimately have l: "user_l0 demo_user = l0" and "ttbr0 demo_user \<noteq> 0"
    using m(3) by (auto simp: user_l0_def unsigned_of_nat take_bit_nat_eq_self ttbr_asid_def)
  then show "ttbr0 demo_user \<noteq> 0" by simp
  have H: "heap_inv (k_heap demo_mem)" using demo_vm_inv by (simp add: vma_inv_def demo_mem_eq)
  note G = heap_pool_grow [OF H m(8-10)]
  have own: "pmm_owned (pool (k_heap demo_mem)) \<subseteq> pmm_owned (mpool m)" using m(7) by blast
  have f: "foreign (k_heap demo_fault) = insert l0 (foreign (k_heap demo_mem))" unfolding k(1) using G(3) [OF own] m(6,7) by auto
  have map: "vm_map (k_vm demo_fault) demo_vmas = vm_map demo_vm demo_vmas"
    unfolding k(4) by (rule vm_map_same) (simp add: vma_pages_of_def)
  have b: "set (backing (vm_map demo_vm demo_vmas)) \<subseteq> foreign (k_heap demo_mem)" using demo_vm_inv by (simp add: vma_inv_def demo_mem_eq)
  have "vma_inv (k_vm demo_fault) demo_vmas"
    using demo_vm_inv G(1,2) [OF own] b f unfolding vma_inv_def map by (auto simp: k(4) k(1) array_ok_def demo_mem_eq)
  moreover have "l0 \<notin> foreign (k_heap demo_mem)" using m(6) by (simp add: foreign_def)
  ultimately show "space_ok demo_fault demo_user"
    using m(4,5) b unfolding space_ok_def u(2) l k(2) map f by (auto simp: demo_vmas_def)
qed

theorem vma_fault_demand_pages_witness:
  "\<exists>k' v pa. sched_try_handle_vma_fault 2 0x400123 True False demo_fault = Some (k', True) \<and>
     space_ok k' demo_user \<and> faulted_in demo_fault demo_user 0x400123 k' v pa"
proof -
  have t: "tasks demo_fault 2 = Some demo_user" by (simp add: demo_fault_def)
  have v: "vma_find (vmas demo_user) 0x400123 = Some (hd demo_vmas)" "access_ok (hd demo_vmas) True False"
    "page_cells demo_fault (vpages (hd demo_vmas) + 8 * ((0x400123 - vstart (hd demo_vmas)) div 4096)) = 0"
    by (simp_all add: demo_user_def demo_vmas_def vma_find_def access_ok_def VMA_PROT_WRITE_def demo_fault_def
        k_create_tables_def set_mmu_def set_pool_def set_heap_def demo_mem_def demo_boot_def demo_vm_def split: prod.splits)
  show ?thesis
    using vma_fault_demand_pages [OF _ t demo_fault_ok(3,1), of "0x400123" True False] v [unfolded access_ok_bits] demo_fault_ok(2) by auto
qed

end
