(* ===== verification/Task_Free.thy ===== *)
theory Task_Free
  imports Paging
begin

text \<open>
  The end of a task: \<^verbatim>\<open>sched_free_task\<close> over the frame pool, the memory areas, the translation
  tables, the descriptors and the heap. Everything the task held goes back, and nothing else.
\<close>

section \<open>Frames\<close>

definition run_or_none :: "nat \<Rightarrow> nat \<Rightarrow> nat list" where
  "run_or_none a n = (if a \<noteq> 0 then page_run a n else [])"

text \<open>The frames a task holds outside its areas and tables.\<close>

definition task_frames :: "task \<Rightarrow> nat list" where
  "task_frames x =
     run_or_none (stack_phys x) TASK_STACK_PAGES @ run_or_none (ustack_phys x) USER_STACK_PAGES @
     concat (map (\<lambda>r. run_or_none (er_phys r) (er_pages r)) (ei_regions (exec_image x))) @
     filter (\<lambda>a. a \<noteq> 0) (map fst (stack_grown x))"

definition drop_frames :: "nat list \<Rightarrow> ('w, 'z) machine_scheme \<Rightarrow> ('w, 'z) machine_scheme" where
  "drop_frames as k = set_pool (frames.free_all as (k_pool k)) k"

lemma free_all_simps: "frames.free_all [] p = p" "frames.free_all (as @ bs) p = frames.free_all bs (frames.free_all as p)"
  by (simp_all add: frames.free_all_def)

lemma pool_simps [simp]: "k_pool (set_pool p k) = p" "set_pool p (set_pool q k) = set_pool p k" "set_pool (k_pool k) k = k"
  by (simp_all add: set_pool_def k_pool_def k_heap_def set_heap_def)

lemma drop_simps: "drop_frames [] k = k" "drop_frames (as @ bs) k = drop_frames bs (drop_frames as k)"
  by (simp_all add: drop_frames_def free_all_simps)

lemma k_free_pages_drop: "k_free_pages a n k = drop_frames (page_run a n) k"
  by (simp add: k_free_pages_def drop_frames_def pmm_free_pages_run frames.free_all_def)

lemma k_free_page_drop: "k_free_page a k = drop_frames [a] k"
  by (simp add: k_free_page_def drop_frames_def frames.free_all_def)

lemma fold_drop:
  assumes "\<And>x k. f x k = drop_frames (g x) k"
  shows "fold f xs k = drop_frames (concat (map g xs)) k"
proof (induction xs arbitrary: k)
  case (Cons x xs)
  then show ?case by (simp add: assms drop_simps)
qed (simp add: drop_simps)

lemma run_or_none_drop: "(if a \<noteq> 0 \<and> n \<noteq> 0 then k_free_pages a n k else k) = drop_frames (run_or_none a n) k"
  by (auto simp: run_or_none_def k_free_pages_drop drop_simps page_run_def)

lemma free_task_frames_drop: "free_task_frames x k = drop_frames (task_frames x) k"
proof -
  have s: "(if a \<noteq> 0 then k_free_pages a 4 k else k) = drop_frames (run_or_none a 4) k" for a and k :: "('a, 'b) machine_scheme"
    using run_or_none_drop [of a 4 k] by simp
  have r: "fold (\<lambda>r k. if er_phys r \<noteq> 0 \<and> er_pages r \<noteq> 0 then k_free_pages (er_phys r) (er_pages r) k else k) rs k =
      drop_frames (concat (map (\<lambda>r. run_or_none (er_phys r) (er_pages r)) rs)) k" for rs and k :: "('a, 'b) machine_scheme"
    by (rule fold_drop) (rule run_or_none_drop)
  have "fold (\<lambda>(pa, va) k. if pa \<noteq> 0 then k_free_page pa k else k) gs k =
      drop_frames (concat (map (\<lambda>g. if fst g \<noteq> 0 then [fst g] else []) gs)) k" for gs :: "(nat \<times> nat) list" and k :: "('a, 'b) machine_scheme"
    by (rule fold_drop) (auto simp: k_free_page_drop drop_simps split: prod.splits)
  moreover have "concat (map (\<lambda>g. if fst g \<noteq> 0 then [fst g] else []) gs) = filter (\<lambda>a. a \<noteq> 0) (map fst gs)" for gs :: "(nat \<times> nat) list"
    by (induction gs) auto
  ultimately show ?thesis
    unfolding free_task_frames_def Let_def TASK_STACK_PAGES_def USER_STACK_PAGES_def task_frames_def by (simp only: s r drop_simps)
qed

text \<open>Releasing frames that the heap does not own.\<close>

lemma free_all_region_end: "mem_region_end (frames.free_all as p) = mem_region_end p"
  unfolding frames.free_all_def by (rule fold_field) (simp add: pmm_free_page_def Let_def frame_simps)

lemma drop_frames_heap: "k_heap (drop_frames as k) = (k_heap k)\<lparr>pool := frames.free_all as (pool (k_heap k))\<rparr>"
  by (simp add: drop_frames_def set_pool_def set_heap_def k_heap_def k_pool_def)

lemma drop_frames_law:
  assumes "heap_inv (k_heap k)" and "set as \<subseteq> foreign (k_heap k)"
  shows "heap_inv (k_heap (drop_frames as k))" and "foreign (k_heap (drop_frames as k)) = foreign (k_heap k) - set as"
    and "allocs (k_heap (drop_frames as k)) = allocs (k_heap k)"
proof -
  define h where "h = k_heap k"
  define p where "p = frames.free_all as (pool h)"
  have e: "k_heap (drop_frames as k) = h\<lparr>pool := p\<rparr>" by (simp add: drop_frames_heap h_def p_def)
  have same: "region_bytes (h\<lparr>pool := p\<rparr>) = region_bytes h" by (simp add: region_bytes_def)
  have I: "pmm_inv (pool h)" "heap_regions_ok h" using assms(1) by (simp_all add: h_def heap_inv_def heap_regions_ok_def)
  have n: "set as \<inter> pmm_pinned (pool h) = {}" "set as \<inter> page_of ` region_bytes h = {}" using assms(2) by (auto simp: foreign_def h_def)
  have P: "pmm_inv p" "pmm_pinned p = pmm_pinned (pool h)" "pmm_owned p = pmm_owned (pool h) - set as"
    using frames.free_all_law [OF I(1), of as] n(1) unfolding p_def by auto
  have "heap_regions_ok (h\<lparr>pool := p\<rparr>)"
    using I(2) P n(2) free_all_region_end [of as "pool h", folded p_def] unfolding heap_regions_ok_def same by auto
  then show "heap_inv (k_heap (drop_frames as k))"
    using assms(1) [folded h_def] unfolding e heap_inv_def same by simp
  show "foreign (k_heap (drop_frames as k)) = foreign (k_heap k) - set as" using P unfolding e foreign_def same h_def [symmetric] by auto
  show "allocs (k_heap (drop_frames as k)) = allocs (k_heap k)" by (simp add: e allocs_def h_def)
qed

section \<open>Tables\<close>

definition task_tables :: "('w, 'z) machine_scheme \<Rightarrow> task \<Rightarrow> nat list" where
  "task_tables k x =
     (if tls_phys x \<noteq> 0 then [tls_phys x] else []) @
     (if ttbr0 x \<noteq> 0 then l0_subtables (tables (mm k)) (user_l0 x) @ [user_l0 x] else [])"

lemma free_tables_heap:
  "k_heap (k_free_tables l0 k) = k_heap (drop_frames (l0_subtables (tables (mm k)) l0 @ [l0]) k)"
  unfolding drop_frames_heap
  by (simp add: k_free_tables_def mmu_free_user_tables_eq set_mmu_def set_pool_def set_heap_def k_heap_def k_mmu_def k_pool_def)

lemma mm_drop [simp]: "mm (drop_frames as k) = mm k"
  by (simp add: drop_frames_def set_pool_def set_heap_def)

lemma heap_log [simp]: "k_heap (log_tlbi t k) = k_heap k"
  by (simp add: log_tlbi_def k_heap_def)

lemma drop_heap_cong: "k_heap k = k_heap j \<Longrightarrow> k_heap (drop_frames as k) = k_heap (drop_frames as j)"
  by (simp add: drop_frames_heap)

lemma mm_log [simp]: "mm (log_tlbi t k) = mm k"
  by (simp add: log_tlbi_def)

lemma free_task_tables_heap: "k_heap (free_task_tables x k) = k_heap (drop_frames (task_tables k x) k)"
proof -
  define k1 where "k1 = drop_frames (if tls_phys x \<noteq> 0 then [tls_phys x] else []) k"
  define k2 where "k2 = (if ttbr_asid (ttbr0 x) \<noteq> 0 then log_tlbi (Tlbi_aside1 (push_bit 48 (ucast (ttbr_asid (ttbr0 x))))) k1 else k1)"
  have e: "free_task_tables x k = (if ttbr0 x \<noteq> 0 then k_free_tables (user_l0 x) k2 else k1)"
    by (simp add: free_task_tables_def Let_def k1_def k2_def k_free_page_drop drop_simps)
  define L where "L = (if ttbr0 x \<noteq> 0 then l0_subtables (tables (mm k)) (user_l0 x) @ [user_l0 x] else [])"
  have "k_heap k2 = k_heap k1" "mm k2 = mm k" by (simp_all add: k2_def k1_def)
  then have "k_heap (free_task_tables x k) = k_heap (drop_frames L k1)"
    unfolding e L_def using drop_heap_cong [of k2 k1] by (simp add: free_tables_heap drop_simps(1))
  also have "drop_frames L k1 = drop_frames (task_tables k x) k" by (simp only: task_tables_def L_def k1_def drop_simps(2))
  finally show ?thesis .
qed

section \<open>The file system state\<close>

text \<open>Only the heap inside the file system state changes; descriptors and files stay.\<close>

lemma drop_frames_fs: "fs (drop_frames as k) = (fs k)\<lparr>vfs.vheap := k_heap (drop_frames as k)\<rparr>"
  unfolding drop_frames_heap by (simp add: drop_frames_def set_pool_def set_heap_def k_heap_def k_pool_def)

lemma free_tables_fs: "fs (k_free_tables l0 k) = (fs k)\<lparr>vfs.vheap := k_heap (k_free_tables l0 k)\<rparr>"
  by (simp add: k_free_tables_def set_mmu_def set_pool_def set_heap_def k_heap_def)

lemma free_task_tables_fs: "fs (free_task_tables x k) = (fs k)\<lparr>vfs.vheap := k_heap (free_task_tables x k)\<rparr>"
proof -
  define k1 where "k1 = drop_frames (if tls_phys x \<noteq> 0 then [tls_phys x] else []) k"
  define k2 where "k2 = (if ttbr_asid (ttbr0 x) \<noteq> 0 then log_tlbi (Tlbi_aside1 (push_bit 48 (ucast (ttbr_asid (ttbr0 x))))) k1 else k1)"
  have e: "free_task_tables x k = (if ttbr0 x \<noteq> 0 then k_free_tables (user_l0 x) k2 else k1)"
    by (simp add: free_task_tables_def Let_def k1_def k2_def k_free_page_drop drop_simps)
  have "fs k2 = fs k1" by (simp add: k2_def log_tlbi_def)
  then show ?thesis
    unfolding e using drop_frames_fs [of _ k, folded k1_def] free_tables_fs [of "user_l0 x" k2] by (simp add: k1_def)
qed

lemma fd_inv_heap:
  assumes "fd_inv s T B" and "heap_inv h" and "fst ` allocs h = live_blocks s - A" and "A \<subseteq> B"
  shows "fd_inv (s\<lparr>vfs.vheap := h\<rparr>) T (B - A)"
proof -
  have o: "open_files (s\<lparr>vfs.vheap := h\<rparr>) T = open_files s T" "refs (s\<lparr>vfs.vheap := h\<rparr>) T f = refs s T f" for f
    by (simp_all add: open_files_def refs_def)
  show ?thesis
    using fd_invD [OF assms(1)] assms(2-4) unfolding fd_inv_def o by (auto simp: live_blocks_def o)
qed

lemma kfree_foreign: "kfree h p = Some h' \<Longrightarrow> foreign h' = foreign h"
  using kfree_frame [of h p h'] by (simp add: foreign_def region_bytes_def)

lemma fd_release_foreign: "fd_release s f = Some s' \<Longrightarrow> foreign (vfs.vheap s') = foreign (vfs.vheap s)"
  using kfree_foreign [of "vfs.vheap s" f] by (fastforce simp: fd_release_def Let_def split: if_splits bind_splits)

lemma destroy_slots_foreign: "destroy_slots s t is = Some s' \<Longrightarrow> foreign (vfs.vheap s') = foreign (vfs.vheap s)"
proof (induction "is" arbitrary: s)
  case (Cons i "is")
  show ?case
  proof (cases "fd_tables s t i = 0")
    case True
    then show ?thesis using Cons by simp
  next
    case False
    then obtain s1 where s1: "fd_release s (fd_tables s t i) = Some s1" "destroy_slots (clear_slot t i s1) t is = Some s'"
      using Cons.prems by (auto split: bind_splits)
    show ?thesis using Cons.IH [OF s1(2)] fd_release_foreign [OF s1(1)] by simp
  qed
qed simp

lemma fd_table_destroy_foreign:
  assumes "fd_table_destroy s t = Some s'"
  shows "foreign (vfs.vheap s') = foreign (vfs.vheap s)"
proof (cases "t = 0")
  case True
  then show ?thesis using assms by (simp add: fd_table_destroy_def)
next
  case False
  then obtain s1 h where s1: "destroy_slots s t [0..<MAX_FDS] = Some s1" "kfree (vfs.vheap s1) t = Some h" "s' = s1\<lparr>vfs.vheap := h\<rparr>"
    using assms by (auto simp: fd_table_destroy_def split: bind_splits)
  show ?thesis using destroy_slots_foreign [OF s1(1)] kfree_foreign [OF s1(2)] by (simp add: s1(3))
qed

section \<open>Releasing a task\<close>

text \<open>The frames a task holds: its stacks and segments, the resident pages of its areas, its thread-local page and its tables.\<close>

definition task_holds :: "'w kernel \<Rightarrow> task \<Rightarrow> nat set" where
  "task_holds k x =
     set (task_frames x) \<union> set (backing (vm_map (k_vm k) (vmas x))) \<union>
     (if tls_phys x \<noteq> 0 then {tls_phys x} else {}) \<union>
     (if ttbr0 x \<noteq> 0 then table_pages (k_mmu k) (user_l0 x) else {})"

text \<open>
  The task structure and the page arrays are blocks of the heap outside the descriptor tables \<open>T\<close>, the
  descriptor table is one of \<open>T\<close>, and the parts of \<^const>\<open>task_holds\<close> are disjoint frames that the
  heap does not own.
\<close>

definition task_owned :: "'w kernel \<Rightarrow> nat \<Rightarrow> task \<Rightarrow> nat set \<Rightarrow> nat set \<Rightarrow> bool" where
  "task_owned k t x T B \<longleftrightarrow>
     fd_inv (fs k) T B \<and> vma_inv (k_vm k) (vmas x) \<and> (ttbr0 x \<noteq> 0 \<longrightarrow> pt_inv (k_mmu k) (user_l0 x)) \<and>
     task_holds k x \<subseteq> foreign (k_heap k) \<and>
     set (task_frames x) \<inter> (set (backing (vm_map (k_vm k) (vmas x))) \<union> set (task_tables k x)) = {} \<and>
     set (backing (vm_map (k_vm k) (vmas x))) \<inter> set (task_tables k x) = {} \<and>
     t \<in> B \<and> vpages ` set (vmas x) \<subseteq> B - {t} \<and> (fds x \<noteq> 0 \<longrightarrow> fds x \<in> T) \<and> 0 \<notin> T"

lemma task_tables_set:
  assumes "ttbr0 x \<noteq> 0 \<Longrightarrow> pt_inv (k_mmu k) (user_l0 x)"
  shows "set (task_tables k x) = (if tls_phys x \<noteq> 0 then {tls_phys x} else {}) \<union>
    (if ttbr0 x \<noteq> 0 then table_pages (k_mmu k) (user_l0 x) else {})"
  using freed_tables [of "k_mmu k" "user_l0 x"] assms by (auto simp: task_tables_def)

lemma vma_inv_heap:
  assumes "vma_inv s vs" and "heap_inv h" and "allocs h = allocs (vm.vheap s)" and "set (backing (vm_map s vs)) \<subseteq> foreign h"
  shows "vma_inv \<lparr>vm.vheap = h, cells = cells s\<rparr> vs" and "vm_map \<lparr>vm.vheap = h, cells = cells s\<rparr> vs = vm_map s vs"
proof -
  show m: "vm_map \<lparr>vm.vheap = h, cells = cells s\<rparr> vs = vm_map s vs"
    by (rule vm_map_same) (simp add: vma_pages_of_def)
  show "vma_inv \<lparr>vm.vheap = h, cells = cells s\<rparr> vs"
    using assms unfolding vma_inv_def m by (auto simp: array_ok_def)
qed

text \<open>The memory of the task: frames, areas and tables.\<close>

lemma free_task_memory:
  assumes "task_owned k t x T B"
  obtains v k3 where "vma_destroy (k_vm (free_task_frames x k)) (vmas x) = Some (v, [])"
    and "k3 = free_task_tables x (set_vm v (free_task_frames x k))"
    and "foreign (k_heap k3) = foreign (k_heap k) - task_holds k x" and "fd_inv (fs k3) T (B - vpages ` set (vmas x))"
proof -
  let ?b = "set (backing (vm_map (k_vm k) (vmas x)))"
  have I: "fd_inv (fs k) T B" "vma_inv (k_vm k) (vmas x)" "ttbr0 x \<noteq> 0 \<Longrightarrow> pt_inv (k_mmu k) (user_l0 x)"
    "task_holds k x \<subseteq> foreign (k_heap k)" "vpages ` set (vmas x) \<subseteq> B"
    "set (task_frames x) \<inter> (?b \<union> set (task_tables k x)) = {}" "?b \<inter> set (task_tables k x) = {}"
    using assms by (auto simp: task_owned_def)
  have H: "heap_inv (k_heap k)" using I(2) by (simp add: vma_inv_def)
  have TT: "set (task_tables k x) \<subseteq> foreign (k_heap k)" "set (task_frames x) \<subseteq> foreign (k_heap k)" "?b \<subseteq> foreign (k_heap k)"
    "task_holds k x = set (task_frames x) \<union> ?b \<union> set (task_tables k x)"
    using I(4) task_tables_set [of x k] I(3) by (auto simp: task_holds_def)
  define k1 where "k1 = drop_frames (task_frames x) k"
  note D1 = drop_frames_law [OF H TT(2), folded k1_def]
  have c1: "page_cells k1 = page_cells k" by (simp add: k1_def drop_frames_def set_pool_def set_heap_def)
  have V: "vma_inv (k_vm k1) (vmas x)" "vm_map (k_vm k1) (vmas x) = vm_map (k_vm k) (vmas x)"
    using vma_inv_heap [OF I(2) D1(1)] D1(2,3) TT(3) I(6) by (auto simp: k_vm_def c1)
  obtain v where v: "vma_destroy (k_vm k1) (vmas x) = Some (v, [])" "heap_inv (vm.vheap v)"
    "foreign (vm.vheap v) = foreign (k_heap k1) - ?b"
    "\<And>p n. (p, n) \<in> allocs (vm.vheap v) \<longleftrightarrow> (p, n) \<in> allocs (k_heap k) \<and> p \<notin> vpages ` set (vmas x)"
    using vma_destroy_law [OF V(1)] D1(3) by (auto simp: V(2))
  define k2 where "k2 = set_vm v k1"
  have k2: "k_heap k2 = vm.vheap v" "fs k2 = (fs k1)\<lparr>vfs.vheap := vm.vheap v\<rparr>" "mm k2 = mm k"
    by (simp_all add: k2_def set_vm_def set_heap_def k_heap_def k1_def)
  define k3 where "k3 = free_task_tables x k2"
  have tt: "task_tables k2 x = task_tables k x" by (simp add: task_tables_def k2(3))
  have hk: "k_heap k3 = k_heap (drop_frames (task_tables k x) k2)" unfolding k3_def tt [symmetric] by (rule free_task_tables_heap)
  have sub: "set (task_tables k x) \<subseteq> foreign (k_heap k2)" using TT(1) D1(2) v(3) I(6,7) by (auto simp: k2(1))
  have H2: "heap_inv (k_heap k2)" using v(2) by (simp add: k2(1))
  note D3 = drop_frames_law [OF H2 sub, folded hk]
  have f3: "foreign (k_heap k3) = foreign (k_heap k) - task_holds k x" unfolding D3(2) k2(1) v(3) D1(2) TT(4) by blast
  have fs3: "fs k3 = (fs k)\<lparr>vfs.vheap := k_heap k3\<rparr>"
    using free_task_tables_fs [of x k2, folded k3_def] k2(2) drop_frames_fs [of "task_frames x" k, folded k1_def] by simp
  have "fst ` allocs (k_heap k3) = live_blocks (fs k) - vpages ` set (vmas x)"
    unfolding D3(3) k2(1) live_blocks_def using v(4) by (force simp: k_heap_def)
  then have "fd_inv (fs k3) T (B - vpages ` set (vmas x))" unfolding fs3 by (intro fd_inv_heap [OF I(1) D3(1) _ I(5)])
  then show thesis using that v(1) k3_def f3 unfolding k2_def k1_def free_task_frames_drop by blast
qed

lemma sched_free_task_law:
  assumes "tasks k t = Some x" and "task_owned k t x T B"
  obtains k' where "sched_free_task t k = Some k'" and "tasks k' = (tasks k)(t := None)"
    and "foreign (k_heap k') = foreign (k_heap k) - task_holds k x"
    and "fd_inv (fs k') (T - {fds x}) (B - vpages ` set (vmas x) - {t})"
proof -
  have I: "t \<in> B - vpages ` set (vmas x)" "fds x \<noteq> 0 \<Longrightarrow> fds x \<in> T" "fds x = 0 \<Longrightarrow> fds x \<notin> T"
    using assms(2) by (auto simp: task_owned_def)
  obtain v k3 where k3: "vma_destroy (k_vm (free_task_frames x k)) (vmas x) = Some (v, [])"
    "k3 = free_task_tables x (set_vm v (free_task_frames x k))"
    "foreign (k_heap k3) = foreign (k_heap k) - task_holds k x" "fd_inv (fs k3) T (B - vpages ` set (vmas x))"
    by (rule free_task_memory [OF assms(2)])
  obtain s where s: "(if fds x \<noteq> 0 then fd_table_destroy (fs k3) (fds x) else Some (fs k3)) = Some s"
    "fd_inv s (T - {fds x}) (B - vpages ` set (vmas x))" "foreign (vfs.vheap s) = foreign (k_heap k3)"
  proof (cases "fds x = 0")
    case True
    then show thesis using that [of "fs k3"] k3(4) I(3) by (simp add: k_heap_def)
  next
    case False
    then obtain s where "fd_table_destroy (fs k3) (fds x) = Some s" "fd_inv s (T - {fds x}) (B - vpages ` set (vmas x))"
      using fd_table_destroy_law [OF k3(4) I(2)] by blast
    then show thesis using that [of s] False fd_table_destroy_foreign [of "fs k3"] by (simp add: k_heap_def)
  qed
  have "t \<in> live_blocks s" using fd_invD(3) [OF s(2)] I(1) by auto
  with fd_invD(1) [OF s(2)] obtain h where h: "kfree (vfs.vheap s) t = Some h" "heap_inv h" "fst ` allocs h = live_blocks s - {t}"
    by (rule live_free)
  define k' where "k' = (set_heap h (k3\<lparr>fs := s\<rparr>))\<lparr>tasks := (tasks (set_heap h (k3\<lparr>fs := s\<rparr>)))(t := None)\<rparr>"
  have run: "sched_free_task t k = Some k'"
    using assms(1) k3(1) s(1) h(1)
    by (simp add: sched_free_task_def k3(2) [symmetric] free_task_struct_def k_kfree_def k_heap_def k'_def)
  have "k_heap k' = h" "fs k' = s\<lparr>vfs.vheap := h\<rparr>" by (simp_all add: k'_def set_heap_def k_heap_def)
  moreover have "fd_inv (s\<lparr>vfs.vheap := h\<rparr>) (T - {fds x}) (B - vpages ` set (vmas x) - {t})"
    using I(1) by (intro fd_inv_heap [OF s(2) h(2,3)]) simp
  moreover have "tasks k' = (tasks k)(t := None)" using sched_free_task_qstate [OF run] by (simp add: qstate_def)
  ultimately show thesis using that run kfree_foreign [OF h(1)] s(3) k3(3) by simp
qed

section \<open>Properties\<close>

text \<open>
  C4. Freeing a task returns. The task is gone from the table, the frames that leave the allocated set
  are exactly those it held (stacks, segments, grown stack pages, resident pages of its areas, thread
  page and translation tables), the descriptor table is released with one reference per open
  descriptor, and of the heap exactly the page arrays of its areas and the task structure are freed
  besides.
\<close>
theorem sched_free_task_returns_all:
  assumes "tasks k t = Some x" and "task_owned k t x T B"
  shows "\<exists>k'. sched_free_task t k = Some k' \<and> tasks k' = (tasks k)(t := None) \<and>
    foreign (k_heap k') = foreign (k_heap k) - task_holds k x \<and>
    fd_inv (fs k') (T - {fds x}) (B - vpages ` set (vmas x) - {t})"
  using sched_free_task_law [OF assms] by metis

definition demo_dead :: "unit kernel" where
  "demo_dead = (let k = set_heap (fst (the (kmalloc (k_heap demo_fault) TASK_T_SIZE))) demo_fault
     in k\<lparr>tasks := [0xFFFF0000400040B0 \<mapsto> demo_user]\<rparr>)"

lemma demo_dead_alloc:
  obtains n where "heap_inv (k_heap demo_dead)" and "foreign (k_heap demo_dead) = foreign (k_heap demo_fault)"
    and "allocs (k_heap demo_dead) = {(0xFFFF0000400040B0, n), (0xFFFF000040004020, 112)}"
    and "pool (k_heap demo_dead) = pool (k_heap demo_fault)"
proof -
  have hm: "hmem (k_heap demo_fault) = hmem demo_heap1" "heap_head (k_heap demo_fault) = 0xFFFF000040004000"
    "allocs (k_heap demo_fault) = allocs demo_heap1"
    by (simp_all add: demo_fault_def k_create_tables_def set_mmu_def set_pool_def set_heap_def k_heap_def demo_mem_def demo_boot_def
        demo_vm_def demo_heap1_eq allocs_def split: prod.splits)
  have "\<exists>h. kmalloc (k_heap demo_fault) TASK_T_SIZE = Some (h, 0xFFFF0000400040B0) \<and> pool h = pool (k_heap demo_fault)"
    by (simp add: kmalloc_def kmalloc_attempts_two heap_align_up_def u64_def hm demo_heap1_eq TASK_T_SIZE_def
        kmalloc_fit.simps [of _ _ "0xFFFF000040004000"] kmalloc_fit.simps [of _ _ "0xFFFF000040004090"])
  then obtain h where h: "kmalloc (k_heap demo_fault) TASK_T_SIZE = Some (h, 0xFFFF0000400040B0)"
    "pool h = pool (k_heap demo_fault)" by blast
  have d: "k_heap demo_dead = h" using h(1) by (simp add: demo_dead_def set_heap_def k_heap_def Let_def)
  have "heap_inv (k_heap demo_fault)" using demo_fault_ok(1) by (simp add: space_ok_def vma_inv_def)
  then show thesis
    by (rule kmem.malloc_cases [where n = TASK_T_SIZE]) (use that h d hm(3) demo_heap1_inv(2) in auto)
qed

lemma demo_dead_owned: "task_owned demo_dead 0xFFFF0000400040B0 demo_user {} {0xFFFF0000400040B0, 0xFFFF000040004020}"
proof -
  obtain n where h: "heap_inv (k_heap demo_dead)" "foreign (k_heap demo_dead) = foreign (k_heap demo_fault)"
    "allocs (k_heap demo_dead) = {(0xFFFF0000400040B0, n), (0xFFFF000040004020, 112)}"
    "pool (k_heap demo_dead) = pool (k_heap demo_fault)" by (rule demo_dead_alloc)
  have S: "vma_inv (k_vm demo_fault) (vmas demo_user)" "pt_inv (k_mmu demo_fault) (user_l0 demo_user)"
    "table_pages (k_mmu demo_fault) (user_l0 demo_user) \<subseteq>
       foreign (k_heap demo_fault) - set (backing (vm_map (k_vm demo_fault) (vmas demo_user)))"
    using demo_fault_ok(1) by (simp_all add: space_ok_def)
  have x: "vmas demo_user = demo_vmas" "task_frames demo_user = []" "tls_phys demo_user = 0" "fds demo_user = 0"
    by (simp_all add: demo_user_def zero_task_def task_frames_def run_or_none_def empty_image_def)
  have mm: "k_mmu demo_dead = k_mmu demo_fault"
    by (simp add: k_mmu_def k_pool_def h(4)) (simp add: demo_dead_def Let_def set_heap_def)
  have c: "k_vm demo_dead = \<lparr>vm.vheap = k_heap demo_dead, cells = cells (k_vm demo_fault)\<rparr>"
    by (simp add: k_vm_def) (simp add: demo_dead_def Let_def set_heap_def)
  have map: "vm_map (k_vm demo_dead) demo_vmas = vm_map (k_vm demo_fault) demo_vmas"
    unfolding c by (rule vm_map_same) (simp add: vma_pages_of_def)
  have V: "vma_inv (k_vm demo_dead) demo_vmas"
    using S(1) h unfolding x(1) vma_inv_def map by (auto simp: c array_ok_def demo_vmas_def vma_npages_def sub64_def)
  have B: "fd_inv (fs demo_dead) {} {0xFFFF0000400040B0, 0xFFFF000040004020}"
    using h(1,3) by (auto simp: fd_inv_def live_blocks_def open_files_def refs_def k_heap_def)
  have T: "set (task_tables demo_dead demo_user) = table_pages (k_mmu demo_fault) (user_l0 demo_user)"
    using task_tables_set [of demo_user demo_dead] S(2) demo_fault_ok(3) by (simp add: mm x(3))
  have "task_holds demo_dead demo_user \<subseteq> foreign (k_heap demo_dead)"
    using S(1,3) demo_fault_ok(3) unfolding task_holds_def x map mm h(2) by (auto simp: vma_inv_def x(1))
  then show ?thesis
    using V B S(2,3) unfolding task_owned_def x map T mm by (auto simp: demo_vmas_def x(1))
qed

theorem sched_free_task_returns_all_witness:
  "\<exists>k'. sched_free_task 0xFFFF0000400040B0 demo_dead = Some k' \<and> tasks k' 0xFFFF0000400040B0 = None \<and>
     foreign (k_heap k') = foreign (k_heap demo_dead) - task_holds demo_dead demo_user \<and> live_blocks (fs k') = {}"
proof -
  have t: "tasks demo_dead 0xFFFF0000400040B0 = Some demo_user" by (simp add: demo_dead_def Let_def)
  have v: "vpages ` set (vmas demo_user) = {0xFFFF000040004020}" by (simp add: demo_user_def demo_vmas_def)
  have e: "{0xFFFF0000400040B0, 0xFFFF000040004020} - {0xFFFF000040004020} - {0xFFFF0000400040B0} = ({} :: nat set)" by blast
  obtain k' where k': "sched_free_task 0xFFFF0000400040B0 demo_dead = Some k'" "tasks k' = (tasks demo_dead)(0xFFFF0000400040B0 := None)"
    "foreign (k_heap k') = foreign (k_heap demo_dead) - task_holds demo_dead demo_user" "fd_inv (fs k') {} {}"
    using sched_free_task_returns_all [OF t demo_dead_owned] unfolding v e by auto
  have "live_blocks (fs k') = {}" using fd_invD(3) [OF k'(4)] by (auto simp: open_files_def refs_def)
  with k' show ?thesis by auto
qed

end
