(* ===== verification/Syscall_Laws.thy ===== *)
theory Syscall_Laws
  imports Dispatch Task_Free
begin

text \<open>
  What the memory system calls do to the address space of the caller: the areas, the translation
  tables and the frames together. The invariant is \<^term>\<open>space_ok\<close> of the demand paging theory.
\<close>

section \<open>Searching a free range\<close>

lemma find_free_from_law:
  assumes "\<forall>v \<in> set vs. vma_ok v \<and> vend v \<le> 2 ^ 48" and "0 < cand" and "cand mod 4096 = 0"
  shows "\<exists>c. find_free_from vs len cand = Some c \<and> c mod 4096 = 0 \<and>
    (c \<noteq> 0 \<longrightarrow> cand \<le> c \<and> u64 (c + len) \<le> USER_VA_TOP \<and> vma_find_overlap vs c (u64 (c + len)) = None) \<and>
    (len \<le> USER_VA_TOP \<and> cand \<le> 2 ^ 48 \<longrightarrow>
       (\<forall>b. cand \<le> b \<and> b + len \<le> USER_VA_TOP \<and> (c = 0 \<or> b < c) \<longrightarrow> (\<exists>v \<in> set vs. b < vend v \<and> vstart v < b + len)))"
  using assms(2,3)
proof (induction "length (filter (\<lambda>v. cand < vend v) vs)" arbitrary: cand rule: less_induct)
  case less
  have wrap: "u64 (cand + len) = cand + len" if "len \<le> USER_VA_TOP" "cand \<le> 2 ^ 48"
    using that by (intro u64_id) (simp add: USER_VA_TOP_def)
  show ?case
  proof (cases "u64 (cand + len) \<le> USER_VA_TOP")
    case False
    then have "find_free_from vs len cand = Some 0" by (simp add: find_free_from.simps MM_MAX_USER_VA_def)
    then show ?thesis using False wrap by auto
  next
    case fits: True
    show ?thesis
    proof (cases "vma_find_overlap vs cand (u64 (cand + len))")
      case None
      then have "find_free_from vs len cand = Some cand" using fits by (simp add: find_free_from.simps MM_MAX_USER_VA_def)
      then show ?thesis using less.prems fits None by auto
    next
      case (Some hit)
      then have h: "hit \<in> set vs" "cand < vend hit" "vstart hit < u64 (cand + len)"
        unfolding vma_find_overlap_def by (auto simp: find_Some_iff)
      then have ok: "vend hit mod 4096 = 0" "vend hit \<le> 2 ^ 48" using assms(1) by (auto simp: vma_ok_def)
      then have up: "page_align_up (vend hit) = vend hit" by (intro page_align_up_id) simp_all
      have run: "find_free_from vs len cand = find_free_from vs len (vend hit)"
        using fits Some up by (subst find_free_from.simps) (simp add: MM_MAX_USER_VA_def)
      have "length (filter (\<lambda>v. vend hit < vend v) vs) < length (filter (\<lambda>v. cand < vend v) vs)"
      proof -
        have "filter (\<lambda>v. vend hit < vend v) vs = filter (\<lambda>v. vend hit < vend v) (filter (\<lambda>v. cand < vend v) vs)"
          using h(2) by (auto intro!: filter_cong)
        then show ?thesis using h(1,2) by (simp only:) (rule length_filter_less [of hit], simp_all)
      qed
      from less.hyps [OF this] h(2) ok(1) obtain c where c: "find_free_from vs len (vend hit) = Some c" "c mod 4096 = 0"
        "c \<noteq> 0 \<Longrightarrow> vend hit \<le> c \<and> u64 (c + len) \<le> USER_VA_TOP \<and> vma_find_overlap vs c (u64 (c + len)) = None"
        "len \<le> USER_VA_TOP \<Longrightarrow> \<forall>b. vend hit \<le> b \<and> b + len \<le> USER_VA_TOP \<and> (c = 0 \<or> b < c) \<longrightarrow>
           (\<exists>v \<in> set vs. b < vend v \<and> vstart v < b + len)"
        using ok(2) by auto
      have "\<exists>v \<in> set vs. b < vend v \<and> vstart v < b + len"
        if "len \<le> USER_VA_TOP" "cand \<le> 2 ^ 48" "cand \<le> b" "b + len \<le> USER_VA_TOP" "c = 0 \<or> b < c" for b
        using that c(4) h wrap by (cases "vend hit \<le> b") (auto intro!: bexI [of _ hit])
      then show ?thesis using run c(1-3) h(2) by auto
    qed
  qed
qed

section \<open>New areas for the current task\<close>

lemma pt_inv_pool:
  assumes "pt_inv m l0" and "heap_inv h" and "table_pages m l0 \<subseteq> foreign h"
  shows "pt_inv (m\<lparr>mpool := pool h\<rparr>) l0" and "table_pages (m\<lparr>mpool := pool h\<rparr>) l0 = table_pages m l0"
    and "pte (m\<lparr>mpool := pool h\<rparr>) l0 va = pte m l0 va"
proof -
  have t: "tbl (m\<lparr>mpool := pool h\<rparr>) t q = tbl m t q" for t q by (rule tbl_cong) simp
  then show tp: "table_pages (m\<lparr>mpool := pool h\<rparr>) l0 = table_pages m l0" by (simp add: table_pages_def)
  show "pt_inv (m\<lparr>mpool := pool h\<rparr>) l0"
    using assms unfolding pt_inv_def tp by (auto simp: t heap_inv_def heap_regions_ok_def foreign_def)
  show "pte (m\<lparr>mpool := pool h\<rparr>) l0 va = pte m l0 va" by (auto simp: pte_def t split: option.split)
qed

lemma set_vm_parts:
  "k_vm (set_vm v k) = v" "k_heap (set_vm v k) = vm.vheap v" "k_mmu (set_vm v k) = (k_mmu k)\<lparr>mpool := pool (vm.vheap v)\<rparr>"
  by (simp_all add: set_vm_def set_heap_def k_vm_def k_heap_def k_mmu_def k_pool_def)

lemma tasks_update_parts [simp]:
  "k_vm (k\<lparr>tasks := T\<rparr>) = k_vm k" "k_heap (k\<lparr>tasks := T\<rparr>) = k_heap k" "k_mmu (k\<lparr>tasks := T\<rparr>) = k_mmu k"
  "k_vm (k\<lparr>ram := m\<rparr>) = k_vm k" "k_heap (k\<lparr>ram := m\<rparr>) = k_heap k" "k_mmu (k\<lparr>ram := m\<rparr>) = k_mmu k"
  by (simp_all add: k_vm_def k_mmu_def k_heap_def k_pool_def)

lemma space_ok_ram [simp]: "space_ok (k\<lparr>ram := m\<rparr>) x = space_ok k x"
  by (simp add: space_ok_def)

text \<open>The new state of a call that replaces the areas of the current task.\<close>

lemma set_areas:
  assumes "space_ok k x" and "tasks k c = Some x" and "vma_inv v (vmas (f x))" and "ttbr0 (f x) = ttbr0 x"
    and "\<forall>a \<in> set (vmas (f x)). vend a \<le> 2 ^ 48"
    and "table_pages (k_mmu k) (user_l0 x) \<subseteq> foreign (vm.vheap v) - set (backing (vm_map v (vmas (f x))))"
  obtains k1 where "upd_task c f (set_vm v k) = Some k1" and "tasks k1 = (tasks k)(c := Some (f x))" and "space_ok k1 (f x)"
    and "k_vm k1 = v" and "current k1 = current k" and "ram k1 = ram k"
    and "\<And>va. pte (k_mmu k1) (user_l0 x) va = pte (k_mmu k) (user_l0 x) va"
proof -
  define k1 where "k1 = (set_vm v k)\<lparr>tasks := (tasks k)(c := Some (f x))\<rparr>"
  have t: "tasks (set_vm v k) = tasks k" "current (set_vm v k) = current k" "ram (set_vm v k) = ram k"
    by (simp_all add: set_vm_def set_heap_def)
  have h: "heap_inv (vm.vheap v)" using assms(3) by (simp add: vma_inv_def)
  have l: "user_l0 (f x) = user_l0 x" by (simp add: user_l0_def assms(4))
  have P: "pt_inv (k_mmu k) (user_l0 x)" using assms(1) by (simp add: space_ok_def)
  have T: "table_pages (k_mmu k) (user_l0 x) \<subseteq> foreign (vm.vheap v)" using assms(6) by blast
  note N = pt_inv_pool [OF P h T]
  have "space_ok k1 (f x)"
    using assms(3,5,6) N unfolding space_ok_def k1_def l by (simp add: set_vm_parts)
  then show thesis
    using that [of k1] assms(2) N(3) by (simp add: k1_def upd_task_def t set_vm_parts)
qed

lemma fail_law:
  assumes "current k \<noteq> 0" and "tasks k (current k) = Some x"
  obtains m where "fail e k = Some (k\<lparr>ram := m\<rparr>, -1)"
  using assms by (cases "task_errno_slot x") (auto simp: fail_def intro: that [of "ram k"])

text \<open>The areas end below a bound exactly when their pages do.\<close>

lemma areas_below:
  assumes "vma_inv s vs"
  shows "(\<forall>v \<in> set vs. vend v \<le> B) \<longleftrightarrow> (\<forall>pg \<in> set (vm_map s vs). fst pg + 4096 \<le> B)"
proof -
  have "vend v \<le> B \<longleftrightarrow> (\<forall>pg \<in> set (vma_pages_of s v). fst pg + 4096 \<le> B)" if "v \<in> set vs" for v
  proof -
    have ok: "vma_ok v" using assms that by (simp add: vma_inv_def)
    note e = vma_npages_end [OF ok]
    then have pos: "0 < vma_npages v" using ok by (cases "vma_npages v") (auto simp: vma_ok_def)
    show ?thesis
    proof
      assume "vend v \<le> B"
      then show "\<forall>pg \<in> set (vma_pages_of s v). fst pg + 4096 \<le> B"
        using e by (auto simp: vma_pages_of_def)
    next
      assume "\<forall>pg \<in> set (vma_pages_of s v). fst pg + 4096 \<le> B"
      then have "vstart v + 4096 * (vma_npages v - 1) + 4096 \<le> B" using pos by (auto simp: vma_pages_of_def)
      then show "vend v \<le> B" using e pos by (cases "vma_npages v") auto
    qed
  qed
  then show ?thesis by (auto simp: vm_map_def)
qed

section \<open>Mapping\<close>

lemma u64_sum_less: "a < 2 ^ 64 \<Longrightarrow> n < 2 ^ 64 \<Longrightarrow> a < u64 (a + n) \<Longrightarrow> u64 (a + n) = a + n"
  by (cases "a + n < 2 ^ 64") (auto simp: u64_def mod_if split: if_splits)

lemma mmap_range_law:
  assumes "\<forall>v \<in> set vs. vma_ok v \<and> vend v \<le> 2 ^ 48" and "addr < 2 ^ 64" and "len < 2 ^ 64"
  shows "\<exists>r. mmap_range vs addr len flags = Some r \<and> (\<forall>start fin. r = Inr (start, fin) \<longrightarrow>
    start < fin \<and> fin \<le> USER_VA_TOP \<and> vma_find_overlap vs start fin = None \<and>
    (if flags AND MAP_FIXED \<noteq> 0 then start = addr \<and> fin = addr + len
     else USER_MMAP_BASE \<le> start \<and> len \<le> fin - start \<and> fin - start = page_align_up len \<and>
       (\<forall>b. USER_MMAP_BASE \<le> b \<and> b < start \<longrightarrow> (\<exists>v \<in> set vs. b < vend v \<and> vstart v < b + (fin - start)))))"
proof (cases "flags AND MAP_FIXED \<noteq> 0")
  case True
  then show ?thesis
    using u64_sum_less [OF assms(2,3)] by (auto simp: mmap_range_def mmap_range_ok_def MM_MAX_USER_VA_def)
next
  case False
  define want where "want = page_align_up len"
  have want: "want < 2 ^ 64" unfolding want_def page_align_up_def by (rule le_less_trans [OF div_times_less_eq_dividend u64_less])
  have base: "0 < USER_MMAP_BASE" "USER_MMAP_BASE mod 4096 = 0" "USER_MMAP_BASE \<le> 2 ^ 48" by (simp_all add: USER_MMAP_BASE_def)
  obtain c where c: "mmap_find_free vs want = Some c"
    "c \<noteq> 0 \<Longrightarrow> USER_MMAP_BASE \<le> c \<and> u64 (c + want) \<le> USER_VA_TOP \<and> vma_find_overlap vs c (u64 (c + want)) = None"
    "want \<le> USER_VA_TOP \<Longrightarrow> \<forall>b. USER_MMAP_BASE \<le> b \<and> b + want \<le> USER_VA_TOP \<and> (c = 0 \<or> b < c) \<longrightarrow>
       (\<exists>v \<in> set vs. b < vend v \<and> vstart v < b + want)"
    using find_free_from_law [OF assms(1) base(1,2), of want] base(3) unfolding mmap_find_free_def by auto
  have sum: "u64 (c + want) = c + want" if "c < u64 (c + want)"
    using u64_sum_less [OF less_trans [OF that u64_less] want that] .
  have run: "mmap_range vs addr len flags = Some (if want < len then Inl ENOMEM else if c = 0 then Inl ENOMEM
      else if \<not> mmap_range_ok c (u64 (c + want)) then Inl ENOMEM else Inr (c, u64 (c + want)))"
    using False c(1) by (simp add: mmap_range_def want_def Let_def)
  have "USER_MMAP_BASE \<le> b \<and> b < c \<longrightarrow> (\<exists>v \<in> set vs. b < vend v \<and> vstart v < b + want)"
    if "c \<noteq> 0" "c < u64 (c + want)" for b
  proof -
    have "c + want \<le> USER_VA_TOP" using c(2) sum that by simp
    then show ?thesis using c(3) by auto
  qed
  then show ?thesis
    using False c(2) sum unfolding run want_def [symmetric] by (auto simp: mmap_range_ok_def)
qed

text \<open>What a successful \<^verbatim>\<open>mmap\<close> leaves behind: a fresh area \<open>[start, fin)\<close> between the others.\<close>

definition mapped_anew :: "'w kernel \<Rightarrow> task \<Rightarrow> 'w kernel \<Rightarrow> task \<Rightarrow> nat \<Rightarrow> nat \<Rightarrow> nat \<Rightarrow> bool" where
  "mapped_anew k x k' x' start fin prot \<longleftrightarrow>
     start mod 4096 = 0 \<and> fin mod 4096 = 0 \<and> start < fin \<and> fin \<le> USER_VA_TOP \<and>
     (\<forall>v \<in> set (vmas x). vend v \<le> start \<or> fin \<le> vstart v) \<and>
     (\<exists>as v bs. vmas x = as @ bs \<and> vmas x' = as @ v # bs \<and> vstart v = start \<and> vend v = fin \<and> vprot v = prot \<and>
        vm_map (k_vm k') (vmas x') = vm_map (k_vm k) as @ blank_pages start fin prot (VMA_ANONYMOUS OR VMA_SHARED) @ vm_map (k_vm k) bs)"

lemma vma_add_result:
  assumes "vma_add s vs start fin prot flags = Some (s', vs', Some v)"
  shows "start mod 4096 = 0" and "fin mod 4096 = 0" and "start < fin" and "vma_find_overlap vs start fin = None"
  using assms by (auto simp: vma_add_def Let_def split: if_splits)

lemma no_overlap: "vma_find_overlap vs start fin = None \<longleftrightarrow> (\<forall>v \<in> set vs. vend v \<le> start \<or> fin \<le> vstart v)"
  by (auto simp: vma_find_overlap_def find_None_iff not_less)

definition mmap_done :: "'w kernel \<Rightarrow> task \<Rightarrow> nat \<Rightarrow> nat \<Rightarrow> nat \<Rightarrow> nat \<Rightarrow> 'w kernel \<Rightarrow> task \<Rightarrow> int \<Rightarrow> bool" where
  "mmap_done k x addr len prot flags k' x' r \<longleftrightarrow>
     tasks k' (current k) = Some x' \<and> space_ok k' x' \<and>
     (\<forall>va. pte (k_mmu k') (user_l0 x) va = pte (k_mmu k) (user_l0 x) va) \<and>
     (if r = -1 then vmas x' = vmas x \<and> vm_map (k_vm k') (vmas x') = vm_map (k_vm k) (vmas x)
      else \<exists>start fin. r = int start \<and> mapped_anew k x k' x' start fin prot \<and> prot < 8 \<and>
        (if flags AND MAP_FIXED \<noteq> 0 then start = addr \<and> fin = addr + len
         else USER_MMAP_BASE \<le> start \<and> len \<le> fin - start \<and> fin - start = page_align_up len \<and>
           (\<forall>b. USER_MMAP_BASE \<le> b \<and> b < start \<longrightarrow> (\<exists>v \<in> set (vmas x). b < vend v \<and> vstart v < b + (fin - start)))))"

lemma sys_mmap_law:
  assumes cur: "current k \<noteq> 0" "tasks k (current k) = Some x" "ttbr0 x \<noteq> 0"
    and S: "space_ok k x" and "addr < 2 ^ 64" and "len < 2 ^ 64"
  shows "\<exists>k' x' r. sys_mmap addr len prot flags fd off k = Some (k', r) \<and> mmap_done k x addr len prot flags k' x' r"
    (is "\<exists>k' x' r. _ = _ \<and> ?Q k' x' r")
proof -
  have refused: "\<exists>k' x' r. fail e k1 = Some (k', r) \<and> ?Q k' x' r"
    if "current k1 = current k" "tasks k1 (current k) = Some x1" "space_ok k1 x1" "vmas x1 = vmas x"
      "\<And>va. pte (k_mmu k1) (user_l0 x) va = pte (k_mmu k) (user_l0 x) va" "vm_map (k_vm k1) (vmas x) = vm_map (k_vm k) (vmas x)"
    for e k1 x1
  proof -
    have "current k1 \<noteq> 0" "tasks k1 (current k1) = Some x1" using that(1,2) cur(1) by simp_all
    then obtain m where "fail e k1 = Some (k1\<lparr>ram := m\<rparr>, -1)" by (rule fail_law)
    moreover have "?Q (k1\<lparr>ram := m\<rparr>) x1 (-1)" using that(2-6) by (simp add: mmap_done_def)
    ultimately show ?thesis by blast
  qed
  note fails = refused [of k x, OF refl cur(2) S refl refl refl]
  have A: "\<forall>v \<in> set (vmas x). vma_ok v \<and> vend v \<le> 2 ^ 48" "vma_inv (k_vm k) (vmas x)"
    using S by (auto simp: space_ok_def vma_inv_def)
  note run = sys_mmap_def cur
  show ?thesis
  proof (cases "prot div 8 \<noteq> 0 \<or> flags AND MAP_SHARED \<noteq> 0 \<or> flags AND MAP_ANONYMOUS = 0 \<or> (off \<noteq> 0 \<or> fd \<noteq> 2 ^ 64 - 1) \<or> len = 0")
    case True
    then have "sys_mmap addr len prot flags fd off k =
      fail (if prot div 8 \<noteq> 0 then EINVAL else if flags AND MAP_SHARED \<noteq> 0 \<or> flags AND MAP_ANONYMOUS = 0 then EOPNOTSUPP else EINVAL) k"
      by (auto simp: run)
    then show ?thesis using fails by (simp only:)
  next
    case False
    obtain r where r: "mmap_range (vmas x) addr len flags = Some r"
      "\<And>start fin. r = Inr (start, fin) \<Longrightarrow> start < fin \<and> fin \<le> USER_VA_TOP \<and>
        (if flags AND MAP_FIXED \<noteq> 0 then start = addr \<and> fin = addr + len
         else USER_MMAP_BASE \<le> start \<and> len \<le> fin - start \<and> fin - start = page_align_up len \<and>
         (\<forall>b. USER_MMAP_BASE \<le> b \<and> b < start \<longrightarrow> (\<exists>v \<in> set (vmas x). b < vend v \<and> vstart v < b + (fin - start))))"
      using mmap_range_law [OF A(1) assms(5,6), of flags] by auto
    show ?thesis
    proof (cases r)
      case (Inl e)
      then have "sys_mmap addr len prot flags fd off k = fail e k" using False r(1) by (simp add: run)
      then show ?thesis using fails [of e] by (simp only:)
    next
      case (Inr sf)
      obtain start fin where sf: "sf = (start, fin)" by fastforce
      note R = r(2) [OF Inr [unfolded sf]]
      have fin: "fin < 2 ^ 64" "fin \<le> 2 ^ 48" using R by (simp_all add: USER_VA_TOP_def)
      obtain v vs area where va: "vma_add (k_vm k) (vmas x) start fin prot (VMA_ANONYMOUS OR VMA_SHARED) = Some (v, vs, area)"
        "vma_inv v vs" "foreign (vm.vheap v) = foreign (k_heap k)"
        "case area of None \<Rightarrow> vs = vmas x \<and> vm_map v vs = vm_map (k_vm k) (vmas x)
         | Some a \<Rightarrow> vstart a = start \<and> vend a = fin \<and> vprot a = prot \<and> vflags a = VMA_ANONYMOUS OR VMA_SHARED \<and>
             (\<exists>as bs. vmas x = as @ bs \<and> vs = as @ a # bs \<and>
                vm_map v vs = vm_map (k_vm k) as @ blank_pages start fin prot (VMA_ANONYMOUS OR VMA_SHARED) @ vm_map (k_vm k) bs)"
        using vma_add_law [OF A(2) fin(1), of start prot "VMA_ANONYMOUS OR VMA_SHARED"] by auto
      have b: "\<forall>a \<in> set vs. vend a \<le> 2 ^ 48" using va(4) A(1) fin(2) by (auto split: option.splits)
      have bk: "set (backing (vm_map v vs)) = set (backing (vm_map (k_vm k) (vmas x)))"
        using va(4) by (auto split: option.splits)
      obtain k1 where k1: "upd_task (current k) (\<lambda>x. x\<lparr>vmas := vs\<rparr>) (set_vm v k) = Some k1"
        "tasks k1 = (tasks k)(current k := Some (x\<lparr>vmas := vs\<rparr>))" "space_ok k1 (x\<lparr>vmas := vs\<rparr>)"
        "k_vm k1 = v" "current k1 = current k" "\<And>va. pte (k_mmu k1) (user_l0 x) va = pte (k_mmu k) (user_l0 x) va"
        by (rule set_areas [OF S cur(2), of v "\<lambda>x. x\<lparr>vmas := vs\<rparr>"]) (use va(2,3) b bk S in \<open>auto simp: space_ok_def\<close>)
      have go: "sys_mmap addr len prot flags fd off k = (if area = None then fail ENOMEM k1 else Some (k1, int start))"
        using False r(1) Inr sf va(1) k1(1) by (simp add: run)
      show ?thesis
      proof (cases area)
        case None
        then have same: "vs = vmas x" "vm_map v (vmas x) = vm_map (k_vm k) (vmas x)" using va(4) by auto
        then show ?thesis
          unfolding go if_P [OF None] by (intro refused [of k1 "x\<lparr>vmas := vs\<rparr>", OF k1(5)]) (use k1 same in simp_all)
      next
        case (Some a)
        note add = vma_add_result [OF va(1) [unfolded Some]]
        have "mapped_anew k x k1 (x\<lparr>vmas := vs\<rparr>) start fin prot"
          using add R va(4) k1(4) unfolding mapped_anew_def Some no_overlap by auto
        moreover have "prot < 8" using False div_less_iff_less_mult [of 8 prot 1] by simp
        moreover have ne: "int start \<noteq> -1" by simp
        ultimately have "?Q k1 (x\<lparr>vmas := vs\<rparr>) (int start)"
          unfolding mmap_done_def if_not_P [OF ne] using R
          by (elim conjE, intro conjI exI allI) (rule refl | assumption | rule k1(3,6) | simp only: k1(2) fun_upd_same)+
        then show ?thesis unfolding go using Some by auto
      qed
    qed
  qed
qed

section \<open>Unmapping and protecting\<close>

lemma pt_root_nonzero: "pt_inv m l0 \<Longrightarrow> l0 \<noteq> 0"
proof -
  assume p: "pt_inv m l0"
  have "l0 \<in> table_pages m l0" unfolding table_pages_def by (intro CollectI exI [of _ "[]"]) simp
  then have "l0 \<in> pmm_owned (mpool m)" using pt_invD(3) [OF p] by blast
  then show ?thesis using pt_invD(1) [OF p] frame_addr_bounds(3) by (fastforce simp: pmm_owned_def used_set_def)
qed

lemma page_ops_mpool: "mpool (unmap_page l0 a m) = mpool m" "mpool (fst (protect_page l0 fl a (m, c))) = mpool m"
  by (auto simp: unmap_page_def protect_page_def walk_levels_no_alloc split: option.split)

text \<open>The tables of a space when only leaf entries change.\<close>

lemma same_tables:
  assumes "grows l0 m m'" and "pt_inv m l0" and "mpool m' = mpool m"
  shows "table_pages m' l0 = table_pages m l0"
proof -
  have "table_pages m' l0 \<subseteq> pmm_owned (mpool m)" "table_pages m l0 \<subseteq> pmm_owned (mpool m)"
    using pt_invD(3) [of m'] pt_invD(3) [OF assms(2)] assms(1,3) by (auto simp: grows_def)
  moreover have "pmm_owned (mpool m) - table_pages m' l0 = pmm_owned (mpool m) - table_pages m l0"
    using assms(1,3) by (simp add: grows_def)
  ultimately show ?thesis by blast
qed

lemma unmap_range_law:
  assumes "pt_inv m l0" and "va mod 4096 = 0" and "va + n * 4096 \<le> 2 ^ 48"
  obtains m' where "mmu_unmap_user_range m l0 va n = Some m'" and "mpool m' = mpool m" and "pt_inv m' l0"
    and "table_pages m' l0 = table_pages m l0"
    and "\<And>vb. vb < 2 ^ 48 \<Longrightarrow> pte m' l0 vb = (if va \<le> vb \<and> vb < va + n * 4096 then None else pte m l0 vb)"
proof (cases "n = 0")
  case True
  show thesis by (rule that [of m]) (use True assms(1) in \<open>auto simp: mmu_unmap_user_range_def\<close>)
next
  case False
  define m1 where "m1 = fold (\<lambda>i. unmap_page l0 (u64 (va + i * 4096))) [0..<n] m"
  note U = unmap_pages_law [OF assms, folded m1_def]
  have p: "mpool m1 = mpool m" unfolding m1_def by (rule fold_field) (rule page_ops_mpool)
  have T: "table_pages m1 l0 = table_pages m l0" using U p assms(1) same_tables by blast
  obtain ops where ops: "invalidate_user_span va n m1 = Some (m1\<lparr>tlbi := tlbi m1 @ ops\<rparr>)"
    using assms(3) by (rule invalidate_returns)
  then have "mmu_unmap_user_range m l0 va n = Some (m1\<lparr>tlbi := tlbi m1 @ ops\<rparr>)"
    using False pt_root_nonzero [OF assms(1)] by (simp add: mmu_unmap_user_range_def m1_def)
  then show thesis
    by (rule that) (use U p T page_in_range [OF assms(2)] in \<open>simp_all add: grows_def\<close>)
qed

lemma protect_range_law:
  assumes "pt_inv m l0" and "va mod 4096 = 0" and "va + n * 4096 \<le> 2 ^ 48"
  obtains m' c where "mmu_protect_user_range m l0 va n fl = Some (m', c)" and "mpool m' = mpool m" and "pt_inv m' l0"
    and "table_pages m' l0 = table_pages m l0"
    and "\<And>vb. vb < 2 ^ 48 \<Longrightarrow> pte m' l0 vb = (if va \<le> vb \<and> vb < va + n * 4096
      then map_option (perm_update fl) (pte m l0 vb) else pte m l0 vb)"
proof (cases "n = 0")
  case True
  show thesis by (rule that [of m 0]) (use True assms(1) in \<open>auto simp: mmu_protect_user_range_def\<close>)
next
  case False
  obtain m1 c where f: "fold (\<lambda>i. protect_page l0 fl (u64 (va + i * 4096))) [0..<n] (m, 0) = (m1, c)" by fastforce
  note P = protect_pages_law [OF assms f]
  have "mpool (fst (fold (\<lambda>i. protect_page l0 fl (u64 (va + i * 4096))) [0..<n] (m, 0))) = mpool (fst (m, 0 :: nat))"
    by (rule fold_field [where g = "\<lambda>s. mpool (fst s)"]) (metis page_ops_mpool(2) prod.collapse)
  then have p: "mpool m1 = mpool m" by (simp add: f)
  have T: "table_pages m1 l0 = table_pages m l0" using P p assms(1) same_tables by blast
  obtain ops where ops: "invalidate_user_span va n m1 = Some (m1\<lparr>tlbi := tlbi m1 @ ops\<rparr>)"
    using assms(3) by (rule invalidate_returns)
  then have "mmu_protect_user_range m l0 va n fl = Some (m1\<lparr>tlbi := tlbi m1 @ ops\<rparr>, c)"
    using False f pt_root_nonzero [OF assms(1)] by (simp add: mmu_protect_user_range_def)
  then show thesis
    by (rule that) (use P p T page_in_range [OF assms(2)] in \<open>simp_all add: grows_def\<close>)
qed

lemma set_mmu_same:
  assumes "mpool m = pool (k_heap k)"
  shows "k_vm (set_mmu m k) = k_vm k" "k_heap (set_mmu m k) = k_heap k" "k_mmu (set_mmu m k) = m"
    "tasks (set_mmu m k) = tasks k" "current (set_mmu m k) = current k"
  using assms by (simp_all add: set_mmu_def set_pool_def set_heap_def k_vm_def k_heap_def k_mmu_def k_pool_def)

lemma set_mmu_space:
  assumes "space_ok k x" and "mpool m = pool (k_heap k)" and "pt_inv m (user_l0 x)"
    and "table_pages m (user_l0 x) = table_pages (k_mmu k) (user_l0 x)"
  shows "space_ok (set_mmu m k) x"
  using assms(1,3,4) unfolding space_ok_def by (simp add: set_mmu_same [OF assms(2)])

lemma range_end_Some:
  assumes "range_end addr len = Some fin" and "addr mod 4096 = 0" and "len \<noteq> 0"
  shows "fin = (addr + len + 4095) div 4096 * 4096" and "addr < fin" and "fin \<le> USER_VA_TOP" and "addr + len \<le> fin"
    and "addr + (fin - addr) div 4096 * 4096 = fin"
proof -
  have f: "fin = (addr + len - 1) div 4096 * 4096 + 4096" "fin \<le> USER_VA_TOP"
    using assms(1) by (auto simp: range_end_def page_align_down_def Let_def MM_MAX_USER_VA_def split: if_splits)
  have "(addr + len + 4095) div 4096 = (addr + len - 1) div 4096 + 1"
    using assms(3) by (simp add: div_add_self2 [of 4096 "addr + len - 1", symmetric])
  then show "fin = (addr + len + 4095) div 4096 * 4096" by (simp add: f)
  show "fin \<le> USER_VA_TOP" by (rule f)
  have "addr + len - 1 < (addr + len - 1) div 4096 * 4096 + 4096" using div_mult_mod_eq [of "addr + len - 1" 4096] by linarith
  then show le: "addr + len \<le> fin" using f(1) by simp
  then show lt: "addr < fin" using assms(3) by simp
  have "(fin - addr) mod 4096 = 0" using assms(2) f(1) by (intro mod_diff_0) simp_all
  then show "addr + (fin - addr) div 4096 * 4096 = fin" using lt by (simp add: div_mult_self_mod_0)
qed

lemma backing_mono: "set xs \<subseteq> set ys \<Longrightarrow> set (backing xs) \<subseteq> set (backing ys)"
  unfolding backing_def set_filter set_map by (blast dest: image_mono)

text \<open>New areas that hold some of the old pages, in the place of the old ones.\<close>

lemma set_areas_sub:
  assumes S: "space_ok k x" and "tasks k (current k) = Some x" and "vma_inv v vs"
    and "fst ` set (vm_map v vs) \<subseteq> fst ` set (vm_map (k_vm k) (vmas x))"
    and "set (backing (vm_map v vs)) \<subseteq> set (backing (vm_map (k_vm k) (vmas x)))"
    and "foreign (k_heap k) - set (backing (vm_map (k_vm k) (vmas x))) \<subseteq> foreign (vm.vheap v)"
  obtains k1 where "upd_task (current k) (\<lambda>x. x\<lparr>vmas := vs\<rparr>) (set_vm v k) = Some k1" and "current k1 = current k"
    and "tasks k1 (current k1) = Some (x\<lparr>vmas := vs\<rparr>)" and "space_ok k1 (x\<lparr>vmas := vs\<rparr>)"
    and "k_vm k1 = v" and "k_heap k1 = vm.vheap v" and "pt_inv (k_mmu k1) (user_l0 x)"
    and "\<And>va. pte (k_mmu k1) (user_l0 x) va = pte (k_mmu k) (user_l0 x) va"
proof -
  have A: "vma_inv (k_vm k) (vmas x)" "\<forall>v \<in> set (vmas x). vend v \<le> 2 ^ 48"
    "table_pages (k_mmu k) (user_l0 x) \<subseteq> foreign (k_heap k) - set (backing (vm_map (k_vm k) (vmas x)))"
    using S by (auto simp: space_ok_def)
  have "\<forall>pg \<in> set (vm_map v vs). fst pg + 4096 \<le> 2 ^ 48" using A(2) areas_below [OF A(1)] assms(4) by fastforce
  then have b: "\<forall>a \<in> set vs. vend a \<le> 2 ^ 48" using areas_below [OF assms(3)] by blast
  obtain k1 where k1: "upd_task (current k) (\<lambda>x. x\<lparr>vmas := vs\<rparr>) (set_vm v k) = Some k1"
    "tasks k1 = (tasks k)(current k := Some (x\<lparr>vmas := vs\<rparr>))" "space_ok k1 (x\<lparr>vmas := vs\<rparr>)"
    "k_vm k1 = v" "current k1 = current k" "\<And>va. pte (k_mmu k1) (user_l0 x) va = pte (k_mmu k) (user_l0 x) va"
    by (rule set_areas [OF S assms(2), of v "\<lambda>x. x\<lparr>vmas := vs\<rparr>"]) (use assms(3,5,6) A(3) b in auto)
  have "k_heap k1 = vm.vheap v" using k1(4) by (auto simp: k_vm_def)
  moreover have "user_l0 (x\<lparr>vmas := vs\<rparr>) = user_l0 x" by (simp add: user_l0_def)
  ultimately show thesis using that [of k1] k1 by (auto simp: space_ok_def)
qed

text \<open>An address space that a call has left alone.\<close>

definition space_same :: "'w kernel \<Rightarrow> task \<Rightarrow> 'w kernel \<Rightarrow> task \<Rightarrow> bool" where
  "space_same k x k' x' \<longleftrightarrow>
     vm_map (k_vm k') (vmas x') = vm_map (k_vm k) (vmas x) \<and> foreign (k_heap k') = foreign (k_heap k) \<and>
     (\<forall>va. pte (k_mmu k') (user_l0 x) va = pte (k_mmu k) (user_l0 x) va)"

lemma space_same_refl: "space_same k x k x"
  by (simp add: space_same_def)

lemma fail_space:
  assumes "current k1 \<noteq> 0" and "tasks k1 (current k1) = Some x1" and "space_ok k1 x1" and "space_same k x k1 x1"
  obtains k' where "fail e k1 = Some (k', -1)" and "tasks k' (current k1) = Some x1" and "space_ok k' x1"
    and "space_same k x k' x1"
proof -
  obtain m where "fail e k1 = Some (k1\<lparr>ram := m\<rparr>, -1)" using assms(1,2) by (rule fail_law)
  then show thesis by (rule that) (use assms(2-4) in \<open>simp_all add: space_same_def\<close>)
qed

text \<open>The result of \<^verbatim>\<open>munmap\<close>: either everything in the range is gone, or nothing has changed.\<close>

definition munmap_done :: "'w kernel \<Rightarrow> task \<Rightarrow> nat \<Rightarrow> nat \<Rightarrow> 'w kernel \<Rightarrow> task \<Rightarrow> int \<Rightarrow> bool" where
  "munmap_done k x addr len k' x' r \<longleftrightarrow>
     tasks k' (current k) = Some x' \<and> space_ok k' x' \<and>
     (if r = 0 \<and> addr \<noteq> 0
      then (let fin = (addr + len + 4095) div 4096 * 4096 in
        addr mod 4096 = 0 \<and> fin \<le> USER_VA_TOP \<and>
        vm_map (k_vm k') (vmas x') = filter (\<lambda>pg. \<not> page_in addr fin pg) (vm_map (k_vm k) (vmas x)) \<and>
        foreign (k_heap k') = foreign (k_heap k) - set (backing (filter (page_in addr fin) (vm_map (k_vm k) (vmas x)))) \<and>
        (\<forall>va < 2 ^ 48. pte (k_mmu k') (user_l0 x) va = (if addr \<le> va \<and> va < fin then None else pte (k_mmu k) (user_l0 x) va)))
      else (r = 0 \<or> r = -1) \<and> space_same k x k' x')"

lemma sys_munmap_law:
  assumes cur: "current k \<noteq> 0" "tasks k (current k) = Some x" "ttbr0 x \<noteq> 0" and S: "space_ok k x"
  shows "\<exists>k' x' r. sys_munmap addr len k = Some (k', r) \<and> munmap_done k x addr len k' x' r"
proof -
  have refused: "\<exists>k' x' r. fail e k1 = Some (k', r) \<and> munmap_done k x addr len k' x' r"
    if "current k1 = current k" "tasks k1 (current k1) = Some x1" "space_ok k1 x1" "space_same k x k1 x1" for e k1 x1
  proof -
    have "current k1 \<noteq> 0" using that(1) cur(1) by simp
    note fail_space [OF this that(2-4)]
    then obtain k' where "fail e k1 = Some (k', -1)" "tasks k' (current k1) = Some x1" "space_ok k' x1" "space_same k x k' x1" .
    then show ?thesis using that(1) by (auto simp: munmap_done_def)
  qed
  note run = sys_munmap_def cur
  show ?thesis
  proof (cases "addr mod 4096 \<noteq> 0 \<or> len = 0 \<or> addr \<noteq> 0 \<and> range_end addr len = None")
    case True
    then have "sys_munmap addr len k = fail EINVAL k" by (auto simp: run)
    then show ?thesis using refused [OF refl cur(2) S space_same_refl, of EINVAL] by (simp only:)
  next
    case False
    then have ok: "addr mod 4096 = 0" "len \<noteq> 0" by simp_all
    show ?thesis
    proof (cases "addr = 0")
      case True
      then show ?thesis
        using ok cur S by (intro exI [of _ k] exI [of _ x] exI [of _ 0]) (simp add: run munmap_done_def space_same_refl)
    next
      case nz: False
      then obtain fin where f: "range_end addr len = Some fin" using False by auto
      note F = range_end_Some [OF f ok]
      have A: "vma_inv (k_vm k) (vmas x)" using S by (simp add: space_ok_def)
      let ?in = "filter (page_in addr fin) (vm_map (k_vm k) (vmas x))"
      let ?out = "filter (\<lambda>pg. \<not> page_in addr fin pg) (vm_map (k_vm k) (vmas x))"
      obtain v vs n where v: "vma_unmap_range (k_vm k) (vmas x) addr fin = Some (v, vs, n)" "vma_inv v vs"
        "case n of None \<Rightarrow> vm_map v vs = vm_map (k_vm k) (vmas x) \<and> foreign (vm.vheap v) = foreign (k_heap k)
         | Some c \<Rightarrow> vm_map v vs = ?out \<and> foreign (vm.vheap v) = foreign (k_heap k) - set (backing ?in)"
        using vma_unmap_range_law [OF A F(2)] by (auto split: option.splits)
      have sub: "set (vm_map v vs) \<subseteq> set (vm_map (k_vm k) (vmas x))" using v(3) by (auto split: option.splits)
      have "set (backing ?in) \<subseteq> set (backing (vm_map (k_vm k) (vmas x)))" by (rule backing_mono) auto
      then have fr: "foreign (k_heap k) - set (backing (vm_map (k_vm k) (vmas x))) \<subseteq> foreign (vm.vheap v)"
        using v(3) by (auto split: option.splits)
      obtain k1 where k1: "upd_task (current k) (\<lambda>x. x\<lparr>vmas := vs\<rparr>) (set_vm v k) = Some k1" "current k1 = current k"
        "tasks k1 (current k1) = Some (x\<lparr>vmas := vs\<rparr>)" "space_ok k1 (x\<lparr>vmas := vs\<rparr>)" "k_vm k1 = v" "k_heap k1 = vm.vheap v"
        "pt_inv (k_mmu k1) (user_l0 x)" "\<And>va. pte (k_mmu k1) (user_l0 x) va = pte (k_mmu k) (user_l0 x) va"
        by (rule set_areas_sub [OF S cur(2) v(2) image_mono [OF sub] backing_mono [OF sub] fr]) blast
      show ?thesis
      proof (cases n)
        case None
        have "sys_munmap addr len k = fail ENOMEM k1" using ok nz f v(1) k1(1) None by (simp add: run)
        moreover have "space_same k x k1 (x\<lparr>vmas := vs\<rparr>)" using None v(3) k1(5,6,8) by (simp add: space_same_def)
        ultimately show ?thesis using refused [OF k1(2-4), of ENOMEM] by simp
      next
        case (Some c)
        have top: "addr + (fin - addr) div 4096 * 4096 \<le> 2 ^ 48" unfolding F(5) using F(3) by (simp add: USER_VA_TOP_def)
        obtain m where m: "mmu_unmap_user_range (k_mmu k1) (user_l0 x) addr ((fin - addr) div 4096) = Some m"
          "mpool m = mpool (k_mmu k1)" "pt_inv m (user_l0 x)" "table_pages m (user_l0 x) = table_pages (k_mmu k1) (user_l0 x)"
          "\<And>va. va < 2 ^ 48 \<Longrightarrow> pte m (user_l0 x) va = (if addr \<le> va \<and> va < fin then None else pte (k_mmu k1) (user_l0 x) va)"
          using unmap_range_law [OF k1(7) ok(1) top] F(5) by metis
        have p: "mpool m = pool (k_heap k1)" using m(2) by simp
        have s: "space_ok (set_mmu m k1) (x\<lparr>vmas := vs\<rparr>)"
          by (rule set_mmu_space [OF k1(4) p]) (use m(3,4) in \<open>simp_all add: user_l0_def\<close>)
        have "sys_munmap addr len k = Some (set_mmu m k1, 0)" using ok nz f v(1) k1(1) Some m(1) by (simp add: run k_unmap_def)
        moreover have "munmap_done k x addr len (set_mmu m k1) (x\<lparr>vmas := vs\<rparr>) 0"
          using s nz ok(1) F(1,3) v(3) m(5) k1(2,3,5,6,8) Some unfolding munmap_done_def
          by (simp add: set_mmu_same [OF p] Let_def F(1) [symmetric])
        ultimately show ?thesis by blast
      qed
    qed
  qed
qed

text \<open>The result of \<^verbatim>\<open>mprotect\<close>.\<close>

definition mprotect_done :: "'w kernel \<Rightarrow> task \<Rightarrow> nat \<Rightarrow> nat \<Rightarrow> nat \<Rightarrow> 'w kernel \<Rightarrow> task \<Rightarrow> int \<Rightarrow> bool" where
  "mprotect_done k x addr len prot k' x' r \<longleftrightarrow>
     tasks k' (current k) = Some x' \<and> space_ok k' x' \<and>
     (if r = 0 \<and> addr \<noteq> 0
      then (let fin = (addr + len + 4095) div 4096 * 4096 in
        addr mod 4096 = 0 \<and> fin \<le> USER_VA_TOP \<and>
        vm_map (k_vm k') (vmas x') = map (set_prot addr fin prot) (vm_map (k_vm k) (vmas x)) \<and>
        foreign (k_heap k') = foreign (k_heap k) \<and>
        (\<forall>va < 2 ^ 48. pte (k_mmu k') (user_l0 x) va = (if addr \<le> va \<and> va < fin
           then map_option (perm_update (mmu_prot_to_flags (of_nat prot))) (pte (k_mmu k) (user_l0 x) va)
           else pte (k_mmu k) (user_l0 x) va)))
      else (r = 0 \<or> r = -1) \<and> space_same k x k' x')"

lemma sys_mprotect_law:
  assumes cur: "current k \<noteq> 0" "tasks k (current k) = Some x" "ttbr0 x \<noteq> 0" and S: "space_ok k x"
  shows "\<exists>k' x' r. sys_mprotect addr len prot k = Some (k', r) \<and> mprotect_done k x addr len prot k' x' r"
proof -
  have refused: "\<exists>k' x' r. fail e k1 = Some (k', r) \<and> mprotect_done k x addr len prot k' x' r"
    if "current k1 = current k" "tasks k1 (current k1) = Some x1" "space_ok k1 x1" "space_same k x k1 x1" for e k1 x1
  proof -
    have "current k1 \<noteq> 0" using that(1) cur(1) by simp
    note fail_space [OF this that(2-4)]
    then obtain k' where "fail e k1 = Some (k', -1)" "tasks k' (current k1) = Some x1" "space_ok k' x1" "space_same k x k' x1" .
    then show ?thesis using that(1) by (auto simp: mprotect_done_def)
  qed
  note run = sys_mprotect_def cur
  show ?thesis
  proof (cases "addr mod 4096 \<noteq> 0 \<or> len = 0 \<or> prot div 8 \<noteq> 0 \<or> addr \<noteq> 0 \<and> range_end addr len = None")
    case True
    then have "sys_mprotect addr len prot k = fail EINVAL k" by (auto simp: run)
    then show ?thesis using refused [OF refl cur(2) S space_same_refl, of EINVAL] by (simp only:)
  next
    case False
    then have ok: "addr mod 4096 = 0" "len \<noteq> 0" "prot div 8 = 0" by simp_all
    show ?thesis
    proof (cases "addr = 0")
      case True
      then show ?thesis
        using ok cur S by (intro exI [of _ k] exI [of _ x] exI [of _ 0]) (simp add: run mprotect_done_def space_same_refl)
    next
      case nz: False
      then obtain fin where f: "range_end addr len = Some fin" using False by auto
      note F = range_end_Some [OF f ok(1,2)]
      have A: "vma_inv (k_vm k) (vmas x)" using S by (simp add: space_ok_def)
      obtain v vs n where v: "vma_protect_range (k_vm k) (vmas x) addr fin prot = Some (v, vs, n)" "vma_inv v vs"
        "foreign (vm.vheap v) = foreign (k_heap k)"
        "vm_map v vs = (if n = None then vm_map (k_vm k) (vmas x) else map (set_prot addr fin prot) (vm_map (k_vm k) (vmas x)))"
        using vma_protect_range_law [OF A F(2), of prot] by auto
      have sub: "fst ` set (vm_map v vs) \<subseteq> fst ` set (vm_map (k_vm k) (vmas x))"
        unfolding v(4) by (auto simp: set_prot_def image_iff split: prod.splits) force
      have bk: "set (backing (vm_map v vs)) \<subseteq> set (backing (vm_map (k_vm k) (vmas x)))" unfolding v(4) by simp
      obtain k1 where k1: "upd_task (current k) (\<lambda>x. x\<lparr>vmas := vs\<rparr>) (set_vm v k) = Some k1" "current k1 = current k"
        "tasks k1 (current k1) = Some (x\<lparr>vmas := vs\<rparr>)" "space_ok k1 (x\<lparr>vmas := vs\<rparr>)" "k_vm k1 = v" "k_heap k1 = vm.vheap v"
        "pt_inv (k_mmu k1) (user_l0 x)" "\<And>va. pte (k_mmu k1) (user_l0 x) va = pte (k_mmu k) (user_l0 x) va"
        by (rule set_areas_sub [OF S cur(2) v(2) sub bk]) (use v(3) in auto)
      show ?thesis
      proof (cases n)
        case None
        have "sys_mprotect addr len prot k = fail ENOMEM k1" using ok nz f v(1) k1(1) None by (simp add: run)
        moreover have "space_same k x k1 (x\<lparr>vmas := vs\<rparr>)" using None v(3,4) k1(5,6,8) by (simp add: space_same_def)
        ultimately show ?thesis using refused [OF k1(2-4), of ENOMEM] by simp
      next
        case (Some c)
        let ?fl = "mmu_prot_to_flags (of_nat prot)"
        have top: "addr + (fin - addr) div 4096 * 4096 \<le> 2 ^ 48" unfolding F(5) using F(3) by (simp add: USER_VA_TOP_def)
        obtain m d where m: "mmu_protect_user_range (k_mmu k1) (user_l0 x) addr ((fin - addr) div 4096) ?fl = Some (m, d)"
          "mpool m = mpool (k_mmu k1)" "pt_inv m (user_l0 x)" "table_pages m (user_l0 x) = table_pages (k_mmu k1) (user_l0 x)"
          "\<And>va. va < 2 ^ 48 \<Longrightarrow> pte m (user_l0 x) va = (if addr \<le> va \<and> va < fin
             then map_option (perm_update ?fl) (pte (k_mmu k1) (user_l0 x) va) else pte (k_mmu k1) (user_l0 x) va)"
          using protect_range_law [OF k1(7) ok(1) top] F(5) by metis
        have p: "mpool m = pool (k_heap k1)" using m(2) by simp
        have s: "space_ok (set_mmu m k1) (x\<lparr>vmas := vs\<rparr>)"
          by (rule set_mmu_space [OF k1(4) p]) (use m(3,4) in \<open>simp_all add: user_l0_def\<close>)
        have "sys_mprotect addr len prot k = Some (set_mmu m k1, 0)"
          using ok nz f v(1) k1(1) Some m(1) by (simp add: run k_protect_def)
        moreover have "mprotect_done k x addr len prot (set_mmu m k1) (x\<lparr>vmas := vs\<rparr>) 0"
          using s nz ok(1) F(1,3) v(3,4) m(5) k1(2,3,5,6,8) Some unfolding mprotect_done_def
          by (simp add: set_mmu_same [OF p] Let_def F(1) [symmetric])
        ultimately show ?thesis by blast
      qed
    qed
  qed
qed

section \<open>Properties\<close>

text \<open>The witnesses run the calls in the task of the demand paging example.\<close>

definition demo_sys :: "unit kernel" where
  "demo_sys = demo_fault\<lparr>current := 2\<rparr>"

lemma demo_sys_ok:
  "current demo_sys \<noteq> 0" "tasks demo_sys (current demo_sys) = Some demo_user" "ttbr0 demo_user \<noteq> 0" "space_ok demo_sys demo_user"
  "vmas demo_user = demo_vmas"
proof -
  have "k_vm demo_sys = k_vm demo_fault" "k_mmu demo_sys = k_mmu demo_fault" "k_heap demo_sys = k_heap demo_fault"
    by (simp_all add: demo_sys_def k_vm_def k_mmu_def k_heap_def k_pool_def)
  then show "space_ok demo_sys demo_user" using demo_fault_ok(1) by (simp add: space_ok_def)
  show "ttbr0 demo_user \<noteq> 0" by (rule demo_fault_ok)
qed (simp_all add: demo_sys_def demo_fault_def demo_user_def)

lemma demo_splits:
  "vma_split_at s demo_vmas 0x400000 = Some (s, demo_vmas, True)" "vma_split_at s demo_vmas 0x404000 = Some (s, demo_vmas, True)"
  by (simp_all add: vma_split_at_def vma_find_def demo_vmas_def)

lemma demo_range: "range_end 0x400000 0x4000 = Some 0x404000"
  by (simp add: range_end_def MM_MAX_USER_VA_def USER_VA_TOP_def page_align_down_def)

text \<open>
  C8. \<^verbatim>\<open>mmap\<close> returns. On success the result is the page-aligned start of a fresh area that lies
  in the user window, meets no other area, has the requested protection and no page yet; for a call
  without \<^verbatim>\<open>MAP_FIXED\<close> the area has the length rounded up to pages and is the lowest free
  range above the mapping base. On failure the result is -1 and the areas are what they were. The
  translation tables never change and the invariant of the address space holds afterwards.
\<close>
theorem sys_mmap_outcomes:
  assumes "current k \<noteq> 0" and "tasks k (current k) = Some x" and "ttbr0 x \<noteq> 0" and "space_ok k x"
    and "addr < 2 ^ 64" and "len < 2 ^ 64"
  shows "\<exists>k' x' r. sys_mmap addr len prot flags fd off k = Some (k', r) \<and> mmap_done k x addr len prot flags k' x' r"
  using assms by (rule sys_mmap_law)

lemma demo_sys_kmalloc: "\<exists>h. kmalloc (k_heap demo_sys) 8 = Some (h, 0xFFFF0000400040B0)"
proof -
  have "hmem (k_heap demo_sys) = hmem demo_heap1" "heap_head (k_heap demo_sys) = heap_head demo_heap1"
    by (simp_all add: demo_sys_def demo_fault_def k_create_tables_def set_mmu_def set_pool_def set_heap_def k_heap_def demo_mem_def demo_vm_def
        split: prod.splits)
  then show ?thesis
    by (simp add: kmalloc_def kmalloc_attempts_two heap_align_up_def u64_def demo_heap1_eq
        kmalloc_fit.simps [of _ _ "0xFFFF000040004000"] kmalloc_fit.simps [of _ _ "0xFFFF000040004090"])
qed

theorem sys_mmap_outcomes_witness:
  "\<exists>k' x'. sys_mmap 0 100 3 0x22 (2 ^ 64 - 1) 0 demo_sys = Some (k', 0x1000000) \<and>
     mmap_done demo_sys demo_user 0 100 3 0x22 k' x' 0x1000000"
proof -
  obtain k' x' r where r: "sys_mmap 0 100 3 0x22 (2 ^ 64 - 1) 0 demo_sys = Some (k', r)"
    "mmap_done demo_sys demo_user 0 100 3 0x22 k' x' r"
    using sys_mmap_outcomes [OF demo_sys_ok(1-4), of 0 100] by fastforce
  obtain h where h: "kmalloc (k_heap demo_sys) 8 = Some (h, 0xFFFF0000400040B0)" using demo_sys_kmalloc by blast
  have f: "mmap_range demo_vmas 0 100 0x22 = Some (Inr (0x1000000, 0x1001000))"
    by (simp add: mmap_range_def MAP_FIXED_def page_align_up_def u64_def mmap_find_free_def find_free_from.simps USER_MMAP_BASE_def
        MM_MAX_USER_VA_def USER_VA_TOP_def vma_find_overlap_def demo_vmas_def mmap_range_ok_def)
  obtain v vs a where "vma_add (k_vm demo_sys) demo_vmas 0x1000000 0x1001000 3 (VMA_ANONYMOUS OR VMA_SHARED) = Some (v, vs, Some a)"
    by (simp add: vma_add_def vm_kmalloc_def h Let_def vma_find_overlap_def demo_vmas_def vma_insert_sorted_def vma_find_def u64_def)
  with r(1) have "r = 0x1000000"
    by (auto simp: sys_mmap_def demo_sys_ok MAP_SHARED_def MAP_ANONYMOUS_def f split: bind_splits)
  then show ?thesis using r by blast
qed

text \<open>
  C3. \<^verbatim>\<open>munmap\<close> returns. On success every page of the range has left the areas and the
  translation tables, the frames that backed them are back in the pool, and nothing outside the
  range has changed; on failure nothing has changed at all.
\<close>
theorem sys_munmap_outcomes:
  assumes "current k \<noteq> 0" and "tasks k (current k) = Some x" and "ttbr0 x \<noteq> 0" and "space_ok k x"
  shows "\<exists>k' x' r. sys_munmap addr len k = Some (k', r) \<and> munmap_done k x addr len k' x' r"
  using assms by (rule sys_munmap_law)

theorem sys_munmap_outcomes_witness:
  "\<exists>k' x'. sys_munmap 0x400000 0x4000 demo_sys = Some (k', 0) \<and> munmap_done demo_sys demo_user 0x400000 0x4000 k' x' 0"
proof -
  obtain k' x' r where r: "sys_munmap 0x400000 0x4000 demo_sys = Some (k', r)"
    "munmap_done demo_sys demo_user 0x400000 0x4000 k' x' r"
    using sys_munmap_outcomes [OF demo_sys_ok(1-4)] by blast
  then have "r = 0"
    by (auto simp: sys_munmap_def demo_sys_ok demo_range vma_unmap_range_def demo_splits split: bind_splits)
  then show ?thesis using r by blast
qed

text \<open>
  C9. \<^verbatim>\<open>mprotect\<close> returns. On success the areas record the new protection for every page of the
  range, the entries of the mapped pages get the matching permission bits, and everything else stays
  as it was; on failure nothing has changed.
\<close>
theorem sys_mprotect_outcomes:
  assumes "current k \<noteq> 0" and "tasks k (current k) = Some x" and "ttbr0 x \<noteq> 0" and "space_ok k x"
  shows "\<exists>k' x' r. sys_mprotect addr len prot k = Some (k', r) \<and> mprotect_done k x addr len prot k' x' r"
  using assms by (rule sys_mprotect_law)

theorem sys_mprotect_outcomes_witness:
  "\<exists>k' x'. sys_mprotect 0x400000 0x4000 1 demo_sys = Some (k', 0) \<and> mprotect_done demo_sys demo_user 0x400000 0x4000 1 k' x' 0"
proof -
  obtain k' x' r where r: "sys_mprotect 0x400000 0x4000 1 demo_sys = Some (k', r)"
    "mprotect_done demo_sys demo_user 0x400000 0x4000 1 k' x' r"
    using sys_mprotect_outcomes [OF demo_sys_ok(1-4)] by blast
  then have "r = 0"
    by (auto simp: sys_mprotect_def demo_sys_ok demo_range vma_protect_range_def demo_splits vma_protect_all_def
        split: bind_splits if_splits)
  then show ?thesis using r by blast
qed

text \<open>
  C37. \<^verbatim>\<open>brk\<close> across a page boundary. When the heap area ends exactly at a page-aligned break, a
  larger break is granted without any memory behind it: the call reports the new break, the areas
  stay as they are, and the first access to the bytes just granted is a fault that no area covers.
\<close>
theorem sys_brk_page_boundary:
  assumes "current k \<noteq> 0" and "tasks k (current k) = Some x" and "ttbr0 x \<noteq> 0"
    and "v \<in> set (vmas x)" and "vstart v = brk_base x" and "vend v = brk_cur x" and "vstart v < vend v"
    and "vma_find (vmas x) (brk_cur x) = None"
    and "brk_cur x < addr" and "addr \<le> brk_base x + 0x1000000" and "brk_base x + 0x1000000 < 2 ^ 63"
  shows "\<exists>k'. sys_brk addr k = Some (k', int addr) \<and> tasks k' (current k) = Some (x\<lparr>brk_cur := addr\<rparr>) \<and>
    sched_try_handle_vma_fault (current k) (brk_cur x) True False k' = Some (k', False)"
proof -
  have up: "addr \<le> page_align_up addr" using assms(10,11) by (intro page_align_up_bounds) simp
  have "vma_find_overlap (vmas x) (brk_base x) (page_align_up addr) \<noteq> None"
    unfolding no_overlap using assms(4-7,9) up by force
  then have add: "vma_add (k_vm k) (vmas x) (brk_base x) (page_align_up addr) 3 VMA_ANONYMOUS = Some (k_vm k, vmas x, None)"
    using assms(4-7,9) up by (auto simp: vma_add_def)
  have id: "set_vm (k_vm k) k = k" by (simp add: set_vm_def set_heap_def k_vm_def k_heap_def)
  have i: "i64 (int addr) = int addr" using assms(10,11) by (simp add: i64_def signed_take_bit_int_eq_self)
  have lim: "u64 (brk_base x + USER_BRK_RESERVE_PAGES * PAGE_SIZE) = brk_base x + 0x1000000"
    using assms(11) by (simp add: u64_def USER_BRK_RESERVE_PAGES_def)
  let ?k = "k\<lparr>tasks := (tasks k)(current k := Some (x\<lparr>brk_cur := addr\<rparr>))\<rparr>"
  have "sys_brk addr k = Some (?k, int addr)"
    using assms up by (auto simp: sys_brk_def brk_areas_def add id lim i upd_task_def Let_def)
  moreover have "sched_try_handle_vma_fault (current k) (brk_cur x) True False ?k = Some (?k, False)"
    using assms(1,3,8) by (simp add: sched_try_handle_vma_fault_def)
  ultimately show ?thesis by (intro exI [of _ ?k]) simp
qed

definition demo_brk :: task where
  "demo_brk = zero_task\<lparr>ttbr0 := 1, brk_base := USER_BRK_BASE, brk_cur := USER_BRK_BASE + 4096,
     vmas := [\<lparr>vstart = USER_BRK_BASE, vend = USER_BRK_BASE + 4096, vprot = 3, vflags = 1, vpages = 0\<rparr>]\<rparr>"

theorem sys_brk_page_boundary_witness:
  "\<exists>k'. sys_brk 0x20001010 (demo_sys\<lparr>tasks := [2 \<mapsto> demo_brk]\<rparr>) = Some (k', 0x20001010) \<and>
     sched_try_handle_vma_fault 2 0x20001000 True False k' = Some (k', False)"
  using sys_brk_page_boundary [of "demo_sys\<lparr>tasks := [2 \<mapsto> demo_brk]\<rparr>" demo_brk "hd (vmas demo_brk)" "0x20001010"]
  by (auto simp: demo_brk_def demo_sys_def USER_BRK_BASE_def vma_find_def)



end
