(* ===== verification/Trap_Laws.thy ===== *)
theory Trap_Laws
  imports Syscall_Laws
begin

text \<open>
  Every way into the kernel, system calls, faults and interrupts, keeps the run queue and the dead
  list well formed. Most handlers leave the queue state alone; the others are the scheduler's entry
  points.
\<close>

section \<open>Handlers that leave the queues alone\<close>

lemma fail_qstate: "fail e k = Some (k', r) \<Longrightarrow> qstate k' = qstate k"
  by (auto simp: fail_def split: if_splits option.splits)

lemma va_store_qstate: "va_store va b k = Some k' \<Longrightarrow> qstate k' = qstate k"
  by (auto simp: va_store_def split: if_splits option.splits)

lemma store_bytes_qstate: "store_bytes va bs k = Some k' \<Longrightarrow> qstate k' = qstate k"
  by (induction bs arbitrary: va k) (auto dest!: va_store_qstate split: bind_splits)

lemma set_world_qstate [simp]: "qstate (set_world w k) = qstate k"
  by (simp add: set_world_def)

lemma with_fs_qstate: "with_fs k r = Some (k', v) \<Longrightarrow> qstate k' = qstate k"
  by (auto simp: with_fs_def)

lemmas handler_qstate = fail_qstate store_bytes_qstate with_fs_qstate

lemma case_read_qstate: "case_read D t a b c k = Some (k', r) \<Longrightarrow> qstate k' = qstate k"
  by (auto simp: case_read_def split: if_splits dest: handler_qstate)

lemma case_write_qstate: "case_write D t a b c k = Some (k', r) \<Longrightarrow> qstate k' = qstate k"
  by (auto simp: case_write_def split: if_splits dest: handler_qstate)

lemma case_open_qstate: "case_open D t p fl k = Some (k', r) \<Longrightarrow> qstate k' = qstate k"
  by (auto simp: case_open_def split: if_splits bind_splits dest!: fail_qstate)

lemma case_close_qstate: "case_close t a k = Some (k', r) \<Longrightarrow> qstate k' = qstate k"
  by (auto simp: case_close_def split: if_splits dest: handler_qstate)

lemma case_lseek_qstate: "case_lseek t a b c k = Some (k', r) \<Longrightarrow> qstate k' = qstate k"
  by (auto simp: case_lseek_def split: if_splits dest: handler_qstate)

lemma case_openat_qstate: "case_openat D t a b c k = Some (k', r) \<Longrightarrow> qstate k' = qstate k"
  by (auto simp: case_openat_def split: if_splits dest: fail_qstate case_open_qstate)

lemma put_stat_qstate: "put_stat i b k = Some (k', r) \<Longrightarrow> qstate k' = qstate k"
  by (auto simp: put_stat_def split: bind_splits dest: store_bytes_qstate)

lemma case_fstat_qstate: "case_fstat t a b k = Some (k', r) \<Longrightarrow> qstate k' = qstate k"
  by (auto simp: case_fstat_def split: if_splits option.splits dest: fail_qstate put_stat_qstate)

lemma case_newfstatat_qstate: "case_newfstatat D a b c d k = Some (k', r) \<Longrightarrow> qstate k' = qstate k"
  by (auto simp: case_newfstatat_def split: if_splits option.splits bind_splits dest!: fail_qstate put_stat_qstate)

lemma getdents_loop_qstate: "getdents_loop D dir out count off used k = Some (k', r) \<Longrightarrow> qstate k' = qstate k"
proof (induction D dir out count off used k rule: getdents_loop.induct)
  case (1 D dir out count off used k)
  show ?case
  proof (cases "used < count")
    case False
    then show ?thesis using "1.prems" by (simp add: getdents_loop.simps [of D dir])
  next
    case lt: True
    then obtain s1 des off1 e n where rd: "vfs_readdir D (fs k) (Some dir) off 1 = Some (s1, des, off1, e, n)"
      using "1.prems" by (auto simp: getdents_loop.simps [of D dir] split: option.splits)
    show ?thesis
    proof (cases "n < 0 \<or> n = 0 \<or> e \<or> count < used + dirent_reclen (hd des)")
      case True
      then show ?thesis using "1.prems" lt rd by (auto simp: getdents_loop.simps [of D dir] Let_def split: if_splits)
    next
      case False
      then obtain k1 where k1: "store_bytes (out + used) (dirent_bytes (hd des) off1) (k\<lparr>fs := s1\<rparr>) = Some k1"
        "getdents_loop D dir out count off1 (used + dirent_reclen (hd des)) k1 = Some (k', r)"
        using "1.prems" lt rd by (auto simp: getdents_loop.simps [of D dir out count off] Let_def split: option.splits)
      have "qstate k' = qstate k1"
        by (rule "1.IH" [OF lt rd refl refl refl refl _ _ refl refl _ k1]) (use False in auto)
      then show ?thesis using store_bytes_qstate [OF k1(1)] by simp
    qed
  qed
qed

lemma case_getdents64_qstate: "case_getdents64 D t a b c k = Some (k', r) \<Longrightarrow> qstate k' = qstate k"
  by (auto simp: case_getdents64_def Let_def split: if_splits option.splits prod.splits dest!: fail_qstate getdents_loop_qstate)

lemma case_clock_gettime_qstate: "case_clock_gettime a b k = Some (k', r) \<Longrightarrow> qstate k' = qstate k"
  by (auto simp: case_clock_gettime_def split: if_splits bind_splits dest: fail_qstate store_bytes_qstate)

lemma case_getrandom_qstate: "case_getrandom P a b k = Some (k', r) \<Longrightarrow> qstate k' = qstate k"
  by (auto simp: case_getrandom_def split: if_splits bind_splits prod.splits option.splits dest!: fail_qstate store_bytes_qstate)

lemma case_arch_prctl_qstate: "case_arch_prctl a b k = Some (k', r) \<Longrightarrow> qstate k' = qstate k"
  by (auto simp: case_arch_prctl_def split: if_splits dest: fail_qstate)

lemma case_net_ping_qstate: "case_net_ping P a k = Some (k', r) \<Longrightarrow> qstate k' = qstate k"
  by (auto simp: case_net_ping_def Let_def split: if_splits prod.splits)

section \<open>Handlers that change the current task\<close>

lemma queue_ok_qstate: "qstate k' = qstate k \<Longrightarrow> queue_ok k \<Longrightarrow> queue_ok k'"
  using queue_ok_cong by blast

lemma case_set_tid_ok: "queue_ok k \<Longrightarrow> case_set_tid_address a k = Some (k', r) \<Longrightarrow> queue_ok k'"
  by (auto simp: case_set_tid_address_def split: bind_splits elim!: upd_task_ok)

lemma k_protect_qstate: "k_protect l0 va n fl k = Some (k', c) \<Longrightarrow> qstate k' = qstate k"
  by (auto simp: k_protect_def split: bind_splits)

lemma fail_ok: "fail e k = Some (k', r) \<Longrightarrow> queue_ok k \<Longrightarrow> queue_ok k'"
  by (blast intro: queue_ok_qstate fail_qstate)

lemma new_areas_ok:
  assumes "upd_task t (\<lambda>x. x\<lparr>vmas := vs\<rparr>) (set_vm v k) = Some k1" and "queue_ok k"
  shows "queue_ok k1"
  by (rule upd_task_ok [OF assms]) simp_all

lemma sys_mmap_ok: "queue_ok k \<Longrightarrow> sys_mmap a b c d e f k = Some (k', r) \<Longrightarrow> queue_ok k'"
  by (auto simp: sys_mmap_def split: if_splits bind_splits sum.splits) (erule fail_ok new_areas_ok | assumption)+

lemma sys_munmap_ok: "queue_ok k \<Longrightarrow> sys_munmap a b k = Some (k', r) \<Longrightarrow> queue_ok k'"
  by (auto simp: sys_munmap_def split: if_splits bind_splits option.splits)
    (erule fail_ok new_areas_ok queue_ok_qstate [OF call_result_qstate(6)] | assumption)+

lemma sys_mprotect_ok: "queue_ok k \<Longrightarrow> sys_mprotect a b c k = Some (k', r) \<Longrightarrow> queue_ok k'"
  by (auto simp: sys_mprotect_def split: if_splits bind_splits option.splits)
    (erule fail_ok new_areas_ok queue_ok_qstate [OF k_protect_qstate] | assumption)+

lemma sys_brk_ok: "queue_ok k \<Longrightarrow> sys_brk a k = Some (k', r) \<Longrightarrow> queue_ok k'"
  by (auto simp: sys_brk_def split: if_splits bind_splits elim!: upd_task_ok)

section \<open>Exec\<close>

lemma exec_slurp_qstate: "exec_slurp D P t name k = Some (k', b, n) \<Longrightarrow> qstate k' = qstate k"
  by (auto simp: exec_slurp_def Let_def split: if_splits bind_splits prod.splits dest!: call_result_qstate)

lemma free_regions_qstate [simp]: "qstate (fst (free_regions img k)) = qstate k"
  unfolding free_regions_def fst_conv by (rule fold_qstate) simp

lemma free_regions_result: "free_regions img k = (k', img') \<Longrightarrow> qstate k' = qstate k"
  using free_regions_qstate [of img k] by simp

lemma load_segments_qstate: "load_segments kb fsz phs l0 is k img = (k', img', ok) \<Longrightarrow> qstate k' = qstate k"
proof (induction kb fsz phs l0 "is" k img rule: load_segments.induct)
  case (2 kb fsz phs l0 i "is" k img)
  let ?ph = "elf_phdr (ram k) phs i"
  show ?case
  proof (cases "p_type ?ph \<noteq> PT_LOAD")
    case True
    then show ?thesis using 2 by (simp add: Let_def)
  next
    case load: False
    show ?thesis
    proof (cases "segment_ok ?ph fsz img \<and> parse_flags (p_flags ?ph) \<noteq> None")
      case False
      then show ?thesis using "2.prems" load by (auto simp: Let_def split: if_splits option.splits prod.splits dest!: free_regions_result)
    next
      case True
      then obtain fl where fl: "parse_flags (p_flags ?ph) = Some fl" by blast
      obtain k1 pa where a: "k_alloc_pages k (segment_pages ?ph) = (k1, pa)" by fastforce
      have q1: "qstate k1 = qstate k" by (rule call_result_qstate(2) [OF a])
      show ?thesis
      proof (cases "pa = 0")
        case True
        then show ?thesis using "2.prems" load \<open>segment_ok ?ph fsz img \<and> _\<close> fl a q1 by (auto simp: Let_def split: prod.splits dest!: free_regions_result)
      next
        case nz: False
        have "qstate (fill_segment kb ?ph pa k1) = qstate k1" by (simp add: fill_segment_def Let_def)
        then show ?thesis
          using "2.IH" (2) [OF refl refl _ _ fl a [symmetric] refl nz] "2.prems" load \<open>segment_ok ?ph fsz img \<and> _\<close> fl a nz q1
          by (simp add: Let_def)
      qed
    qed
  qed
qed simp

lemma elf_load_qstate: "elf_load kb fsz l0 out k = (k', img, ok) \<Longrightarrow> qstate k' = qstate k"
  by (auto simp: elf_load_def Let_def split: if_splits prod.splits dest!: load_segments_qstate free_regions_result)

lemma exec_space_qstate: "exec_space kb n k = Some (k', l0, st, img, tls) \<Longrightarrow> qstate k' = qstate k"
  by (auto simp: exec_space_def Let_def split: if_splits bind_splits prod.splits dest!: call_result_qstate elf_load_qstate)

lemma exec_swap_ok: "exec_swap l0 st img tls k = Some k' \<Longrightarrow> queue_ok k \<Longrightarrow> queue_ok k'"
  by (auto simp: exec_swap_def Let_def queue_ok_cong [OF machine_update_qstate(2)] split: bind_splits prod.splits
      dest!: call_result_qstate(7) elim!: upd_task_ok)

lemma exec_release_qstate: "qstate (exec_release x k) = qstate k"
  by (simp add: exec_release_def Let_def)

lemma sys_exec_ok: "sys_exec D P p a fr k = Some (k', r) \<Longrightarrow> queue_ok k \<Longrightarrow> queue_ok k'"
proof -
  assume q: "queue_ok k" and e: "sys_exec D P p a fr k = Some (k', r)"
  have run: "queue_ok k3" if "exec_slurp D P t name k = Some (k1, b, n)" "exec_space b n k1 = Some (k2, l0, st, img, tls)"
    "exec_swap l0 st img tls k2 = Some k3" for t name k1 b n k2 l0 st img tls k3
    using exec_swap_ok [OF that(3)] exec_space_qstate [OF that(2)] exec_slurp_qstate [OF that(1)] q queue_ok_qstate by metis
  have early: "queue_ok k2" if "exec_slurp D P t name k = Some (k1, b, n)" "exec_space b n k1 = Some (k2, l0, st, img, tls)"
    for t name k1 b n k2 l0 st img tls
    using exec_space_qstate [OF that(2)] exec_slurp_qstate [OF that(1)] q queue_ok_qstate by metis
  show ?thesis
    using e q unfolding sys_exec_def Let_def
    by (auto split: if_splits bind_splits option.splits prod.splits intro: run early queue_ok_qstate [OF exec_slurp_qstate]
        simp: queue_ok_cong [OF exec_release_qstate] queue_ok_cong [OF machine_update_qstate(4)] queue_ok_cong [OF set_world_qstate])
qed

section \<open>Handlers that switch\<close>

text \<open>What is asked of the rest of the system: the other tasks and the balloon driver keep the queues too.\<close>

definition keeps_queues :: "('w kernel \<Rightarrow> 'w kernel option) \<Rightarrow> bool" where
  "keeps_queues f \<longleftrightarrow> (\<forall>k k'. f k = Some k' \<longrightarrow> queue_ok k \<longrightarrow> queue_ok k')"

definition periph_ok :: "'w periph \<Rightarrow> bool" where
  "periph_ok P \<longleftrightarrow> (\<forall>n k. qstate (fst (p_inflate P n k)) = qstate k \<and> qstate (fst (p_deflate P n k)) = qstate k)"

lemma keepsD: "f k = Some k' \<Longrightarrow> keeps_queues f \<Longrightarrow> queue_ok k \<Longrightarrow> queue_ok k'"
  by (simp add: keeps_queues_def)

lemma sleep_and_resume_ok: "sleep_and_resume resume ms k = Some k' \<Longrightarrow> keeps_queues resume \<Longrightarrow> queue_ok k \<Longrightarrow> queue_ok k'"
  by (auto simp: sleep_and_resume_def split: bind_splits intro: keepsD sleep_ms_ok)

lemma store_bytes_ok: "store_bytes va bs k = Some k' \<Longrightarrow> queue_ok k \<Longrightarrow> queue_ok k'"
  by (rule queue_ok_qstate [OF store_bytes_qstate])

lemma case_nanosleep_ok:
  assumes "case_nanosleep resume a b k = Some (k', r)" and "keeps_queues resume" and "queue_ok k"
  shows "queue_ok k'"
  using assms by (auto simp: case_nanosleep_def Let_def split: if_splits bind_splits)
    (erule fail_ok store_bytes_ok sleep_and_resume_ok | assumption)+

lemma waitpid_loop_ok:
  assumes "waitpid_loop resume p opts k = Some res" and "keeps_queues resume" and "queue_ok k"
  shows "queue_ok (fst res)"
proof -
  have "keeps_queues resume \<longrightarrow> queue_ok k \<longrightarrow> queue_ok (fst r)" if "waitpid_loop resume p opts k = Some r" for r
  proof (rule waitpid_loop.raw_induct [OF _ that], goal_cases)
    case (1 rec resume p opts k r)
    then obtain k1 res where w: "waitpid_round p opts k = Some (k1, res)" by (auto split: bind_splits)
    have q1: "queue_ok k \<Longrightarrow> queue_ok k1" using waitpid_round_ok w by blast
    show ?case
    proof (cases res)
      case (Some v)
      then show ?thesis using 1(2) w q1 by auto
    next
      case None
      then obtain k2 k3 where s: "yield k1 = Some k2" "resume k2 = Some k3" "rec resume p opts k3 = Some r"
        using 1(2) w by (auto split: bind_splits)
      have "queue_ok k1 \<Longrightarrow> queue_ok k2" using s(1) schedule_ok by (auto simp: yield_def)
      then show ?thesis using 1(1) [OF s(3)] keepsD [of resume, OF s(2)] q1 by blast
    qed
  qed
  from this [OF assms(1)] show ?thesis using assms(2,3) by blast
qed

lemma sched_waitpid_ok: "sched_waitpid resume p opts k = Some (k', r) \<Longrightarrow> keeps_queues resume \<Longrightarrow> queue_ok k \<Longrightarrow> queue_ok k'"
  by (auto simp: sched_waitpid_def split: if_splits dest: waitpid_loop_ok)

lemma case_waitpid_ok:
  assumes "case_waitpid resume a b c k = Some (k', r)" and "keeps_queues resume" and "queue_ok k"
  shows "queue_ok k'"
  using assms by (auto simp: case_waitpid_def split: if_splits bind_splits)
    (erule fail_ok store_bytes_ok sched_waitpid_ok | assumption)+

lemma case_kill_ok: "case_kill a k = Some (k', r) \<Longrightarrow> queue_ok k \<Longrightarrow> queue_ok k'"
  by (auto simp: case_kill_def split: bind_splits intro: sched_kill_ok)

lemma case_balloon_ok:
  assumes "case_balloon P a b k = Some (k', r)" and "periph_ok P" and "queue_ok k"
  shows "queue_ok k'"
proof -
  have "qstate k' = qstate k"
    using assms(1,2) by (auto simp: case_balloon_def periph_ok_def split: if_splits dest!: arg_cong [where f = fst])
  then show ?thesis using assms(3) by (rule queue_ok_qstate)
qed

lemma sched_fork_ok: "sched_fork L p fr k = Some (k', r) \<Longrightarrow> fresh_alloc k \<Longrightarrow> queue_ok k \<Longrightarrow> queue_ok k'"
  by (blast intro: spawned_ok fork_spawned)

lemmas plain_ok = case_read_qstate case_write_qstate case_open_qstate case_close_qstate case_lseek_qstate case_net_ping_qstate
  case_arch_prctl_qstate case_openat_qstate case_getdents64_qstate case_clock_gettime_qstate case_getrandom_qstate
  case_fstat_qstate case_newfstatat_qstate

lemma reply_Some: "reply f = Some (k', r) \<longleftrightarrow> (\<exists>v. f = Some (k', v) \<and> r = Some v)"
  by (cases f) (auto simp: reply_def)

lemma dispatch_call_ok:
  assumes d: "dispatch_call D L P resume frame num a x k = Some (k', r)" and q: "queue_ok k" and n: "current k \<noteq> idle_task k"
    and f: "fresh_alloc k" and R: "keeps_queues resume" and P: "periph_ok P"
  shows "queue_ok k'"
  using d q unfolding dispatch_call_def
  by (auto simp: reply_Some split: if_split_asm bind_splits
      dest!: plain_ok [THEN queue_ok_qstate, OF _ q] fail_ok [OF _ q] case_kill_ok [OF _ q] sched_fork_ok [OF _ f q]
      case_waitpid_ok [OF _ R q] case_nanosleep_ok [OF _ R q] sleep_and_resume_ok [OF _ R q]
      task_exit_ok [OF q n] case_set_tid_ok [OF q] sys_mmap_ok [OF q] sys_munmap_ok [OF q] sys_mprotect_ok [OF q] sys_brk_ok [OF q]
      case_balloon_ok [OF _ P q] sys_exec_ok [OF _ q] schedule_ok [OF q] keepsD [of resume, OF _ R])

lemma syscall_dispatch_ok:
  assumes "syscall_dispatch D L P resume frame k = Some k'" and "queue_ok k" and "current k \<noteq> idle_task k"
    and "fresh_alloc k" and "keeps_queues resume" and "periph_ok P"
  shows "queue_ok k'"
proof -
  obtain x k1 r where d: "dispatch_call D L P resume frame (translate_linux_syscall (frame_args (ram k) frame 8))
      (frame_args (ram k) frame) x k = Some (k1, r)"
    and k': "k' = (case r of None \<Rightarrow> k1 | Some v \<Rightarrow> k1\<lparr>ram := store64 (ram k1) (frame_reg frame 0) (u64_of v)\<rparr>)"
    using assms(1) by (auto simp: syscall_dispatch_def Let_def split: bind_splits)
  have "qstate k' = qstate k1" using k' by (cases r) simp_all
  then show ?thesis using dispatch_call_ok [OF d assms(2-6)] by (rule queue_ok_qstate)
qed

section \<open>Faults and interrupts\<close>

lemma grow_refused_qstate: "sched_try_grow_stack t far k = Some (k', False) \<Longrightarrow> qstate k' = qstate k"
  by (auto simp: sched_try_grow_stack_def Let_def split: if_splits option.splits bind_splits prod.splits
      dest!: call_result_qstate(1))

lemma vma_fault_qstate: "sched_try_handle_vma_fault t far w e k = Some (k', r) \<Longrightarrow> qstate k' = qstate k"
  by (auto simp: sched_try_handle_vma_fault_def Let_def split: if_splits option.splits prod.splits dest!: call_result_qstate(1))

lemma killed_ok:
  assumes "task_exit c k1 = Some k'" and "qstate k1 = qstate k" and "queue_ok k" and "current k \<noteq> idle_task k"
  shows "queue_ok k'"
proof -
  have "current k1 \<noteq> idle_task k1" using assms(2,4) by (simp add: qstate_def)
  then show ?thesis by (rule task_exit_ok [OF queue_ok_qstate [OF assms(2,3)] _ assms(1)])
qed

lemma inst_abort_ok:
  assumes "inst_abort esr far k = Some k'" and q: "queue_ok k" and n: "current k \<noteq> idle_task k"
  shows "queue_ok k'"
  using assms(1) by (auto simp: inst_abort_def split: if_splits bind_splits dest!: vma_fault_qstate)
    (erule queue_ok_qstate [OF _ q] killed_ok [OF _ _ q n] killed_ok [OF _ refl q n] | assumption)+

lemma data_abort_ok:
  assumes "data_abort esr far k = Some k'" and q: "queue_ok k" and n: "current k \<noteq> idle_task k"
  shows "queue_ok k'"
proof (cases "translation_fault (ESR_ISS_DFSC esr)")
  case False
  then show ?thesis using assms(1) killed_ok [OF _ refl q n] by (simp add: data_abort_def)
next
  case True
  then obtain k1 grown where g: "sched_try_grow_stack (current k) far k = Some (k1, grown)"
    and rest: "if grown then k' = k1 else \<exists>k2 paged. sched_try_handle_vma_fault (current k) far (ESR_ISS_WNR esr) False k1 = Some (k2, paged) \<and>
      (if paged then k' = k2 else task_exit (-1) k2 = Some k')"
    using assms(1) by (auto simp: data_abort_def split: if_splits bind_splits)
  show ?thesis
  proof (cases grown)
    case True
    then show ?thesis using rest grow_stack_ok [OF q g] by simp
  next
    case False
    then obtain k2 paged where p: "sched_try_handle_vma_fault (current k) far (ESR_ISS_WNR esr) False k1 = Some (k2, paged)"
      "if paged then k' = k2 else task_exit (-1) k2 = Some k'" using rest by auto
    have "qstate k2 = qstate k" using vma_fault_qstate [OF p(1)] grow_refused_qstate g False by simp
    then show ?thesis using p(2) queue_ok_qstate [OF _ q] killed_ok [OF _ _ q n] by (auto split: if_splits)
  qed
qed

lemma ticks_qstate [simp]: "qstate (k\<lparr>ticks := n\<rparr>) = qstate k"
  by (simp add: qstate_def)

lemma handle_irq_ok:
  assumes "handle_irq i k = Some k'" and "queue_ok k"
  shows "queue_ok k'"
proof -
  have "queue_ok (k\<lparr>ticks := n\<rparr>)" for n by (rule queue_ok_qstate [OF ticks_qstate assms(2)])
  then show ?thesis
    using assms by (auto simp: handle_irq_def timer_handle_irq_def split: if_splits bind_splits intro: schedule_ok sched_wake_ok)
qed

section \<open>The properties\<close>

text \<open>
  C2. Whatever exception the processor takes from a task, and whichever of the system calls it is, the
  run queue and the dead list stay well formed when the handler comes back: a fault that is paged in,
  a fault that kills the task, a timer interrupt with its wake-ups and its switch, and every handler
  of \<^verbatim>\<open>syscall_dispatch\<close>, fork, exec, exit, kill, sleep and wait included. The other tasks that
  run while this one is switched out, and the balloon driver, are assumed to keep the queues as well;
  the allocator hands out no live task's storage; and the idle task makes no system call.
\<close>
theorem exception_dispatch_queues:
  assumes "exception_dispatch D L P resume intid type frame k = Some k'" and "queue_ok k"
    and "type = EXCEPTION_SYNC \<Longrightarrow> current k \<noteq> idle_task k" and "fresh_alloc k" and "keeps_queues resume" and "periph_ok P"
  shows "queue_ok k'"
proof -
  have brk: "queue_ok (k\<lparr>ram := m\<rparr>)" for m by (rule queue_ok_qstate [OF _ assms(2)]) simp
  show ?thesis
    using assms(1) syscall_dispatch_ok [OF _ assms(2) _ assms(4-6)] data_abort_ok [OF _ assms(2)] inst_abort_ok [OF _ assms(2)]
      handle_irq_ok [OF _ assms(2)] assms(3) brk
    unfolding exception_dispatch_def Let_def by (auto split: if_split_asm)
qed

definition no_periph :: "unit periph" where
  "no_periph = \<lparr>io_bytes = (\<lambda>_ _. 0), p_rng_read = (\<lambda>w _. (w, None)), p_send_ping = (\<lambda>w _. (w, -1)), p_rx_poll = (\<lambda>w _. (w, [])),
     p_inflate = (\<lambda>_ k. (k, -1)), p_deflate = (\<lambda>_ k. (k, -1)), p_balloon_status = (\<lambda>_. (0, 0))\<rparr>"

definition demo_svc :: "unit kernel" where
  "demo_svc = demo_ring\<lparr>ram := (\<lambda>a. if a = 0x1040 then 7 else if a = 0x110B then 0x54 else 0)\<rparr>"

lemma demo_svc_ok: "queue_ok demo_svc" "current demo_svc \<noteq> idle_task demo_svc" "fresh_alloc demo_svc"
proof -
  have "qstate demo_svc = qstate demo_ring" by (simp add: demo_svc_def)
  moreover have "queue_ok demo_ring" using demo_ring_queues unfolding queue_ok_def by blast
  ultimately show "queue_ok demo_svc" by (rule queue_ok_qstate)
  show "current demo_svc \<noteq> idle_task demo_svc" by (simp add: demo_svc_def demo_ring_def)
  have "k_heap demo_svc = demo_heap" by (simp add: k_heap_def demo_svc_def demo_ring_def demo_boot_def demo_vfs_eq)
  then show "fresh_alloc demo_svc"
    by (simp add: fresh_alloc_def alloc_task_def k_kmalloc_def demo_task_alloc demo_svc_def demo_ring_def)
qed

theorem exception_dispatch_queues_witness:
  "\<exists>k'. exception_dispatch no_drivers demo_linkage no_periph Some 0 EXCEPTION_SYNC 0x1000 demo_svc = Some k' \<and> queue_ok k' \<and>
     load64 (ram k') 0x1000 = 1"
proof -
  have f: "load64 (ram demo_svc) (frame_esr 0x1000) = 0x54000000" "frame_args (ram demo_svc) 0x1000 8 = 7"
    by (simp_all add: demo_svc_def frame_args_def load64_def load32_def load16_def frame_reg_def frame_esr_def)
  obtain x where x: "tasks demo_svc (current demo_svc) = Some x" "pid x = 1"
    by (simp add: demo_svc_def demo_ring_def)
  have t: "translate_linux_syscall 7 = SYS_GETPID"
    by (simp add: translate_linux_syscall_def SYS_GETPID_def LNX_READ_def LNX_WRITE_def LNX_CLOSE_def LNX_LSEEK_def LNX_EXIT_def
        LNX_EXIT_GROUP_def LNX_GETPID_def)
  have c: "dispatch_call no_drivers demo_linkage no_periph Some 0x1000 SYS_GETPID a x demo_svc = Some (demo_svc, Some 1)" for a
    using x(2) by (simp add: dispatch_call_def SYS_READ_def SYS_WRITE_def SYS_OPEN_def SYS_CLOSE_def SYS_EXIT_def SYS_YIELD_def
        SYS_SLEEP_def SYS_GETPID_def i64_def)
  define k' where "k' = demo_svc\<lparr>ram := store64 (ram demo_svc) (frame_reg 0x1000 0) 1\<rparr>"
  have k': "exception_dispatch no_drivers demo_linkage no_periph Some 0 EXCEPTION_SYNC 0x1000 demo_svc = Some k'"
    by (simp add: exception_dispatch_def f ESR_EC_def EC_SVC_AARCH64_def syscall_dispatch_def t x c k'_def u64_of_def)
  have r: "load64 (ram k') 0x1000 = 1"
    by (simp add: k'_def load64_def load32_def load16_def frame_reg_def store64_def upt_rec)
  have "keeps_queues (Some :: unit kernel \<Rightarrow> _)" "periph_ok no_periph"
    by (simp_all add: keeps_queues_def periph_ok_def no_periph_def)
  from exception_dispatch_queues [OF k' demo_svc_ok this] k' r show ?thesis by blast
qed

lemma set_vm_tpidr [simp]: "tpidr (set_vm v k) = tpidr k" and asid_tpidr: "sched_asid_alloc k = (k1, a) \<Longrightarrow> tpidr k1 = tpidr k"
  by (auto simp: set_vm_def set_heap_def sched_asid_alloc_def log_tlbi_def Let_def split: if_splits)

lemma exec_swap_pointer:
  assumes "exec_swap l0 st img tls k = Some k'"
  obtains y where "tasks k' (current k') = Some y" and "tpidr_el0 y = USER_TLS_BASE" and "current k' = current k" and "tpidr k' = tpidr k"
proof -
  obtain x k1 a v vs k2 where x: "tasks k (current k) = Some x" and a: "sched_asid_alloc k = (k1, a)"
    and u: "upd_task (current k) (\<lambda>x. x\<lparr>ttbr0 := ttbr_pack (of_nat l0) a, ustack_phys := st, tls_phys := tls,
      tpidr_el0 := USER_TLS_BASE, user_sp := USER_STACK_TOP, exec_image := img, vmas := vma_init, brk_base := USER_BRK_BASE,
      brk_cur := USER_BRK_BASE, stack_grown := []\<rparr>) (set_vm v k1) = Some k2"
    and k': "k' = k2\<lparr>mm := (mm k2)\<lparr>regs := (regs (mm k2))\<lparr>ttbr0_el1 := ttbr_pack (of_nat l0) a\<rparr>\<rparr>\<rparr>"
    using assms by (auto simp: exec_swap_def Let_def split: bind_splits prod.splits)
  have "qstate (set_vm v k1) = qstate k" using call_result_qstate(7) [OF a] by simp
  then have "tasks (set_vm v k1) (current k) = Some x" "current (set_vm v k1) = current k" using x by (simp_all add: qstate_def)
  then show thesis
    using that u k' asid_tpidr [OF a] by (auto simp: upd_task_Some)
qed

text \<open>
  C39. \<^verbatim>\<open>exec\<close> puts the new thread pointer in the task structure only. The register keeps the pointer
  of the old program, so the new program starts with it, and the next switch away from the task
  writes it over the field: the intended value is lost.
\<close>
theorem exec_stale_thread_pointer:
  assumes "exec_swap l0 st img tls k = Some k'"
  shows "\<exists>y. tasks k' (current k) = Some y \<and> tpidr_el0 y = USER_TLS_BASE \<and> tpidr k' = tpidr k \<and>
    (\<forall>t k2. t \<noteq> current k \<longrightarrow> context_switch (current k) t k' = Some k2 \<longrightarrow>
       map_option tpidr_el0 (tasks k2 (current k)) = Some (tpidr k))"
proof -
  obtain y where y: "tasks k' (current k') = Some y" "tpidr_el0 y = USER_TLS_BASE" "current k' = current k" "tpidr k' = tpidr k"
    by (rule exec_swap_pointer [OF assms])
  then have "map_option tpidr_el0 (tasks k2 (current k)) = Some (tpidr k)" if "context_switch (current k) t k' = Some k2" for t k2
    using that by (auto simp: context_switch_def upd_task_Some split: bind_splits if_splits)
  with y show ?thesis by auto
qed

definition demo_tls :: "unit kernel" where
  "demo_tls = demo_ring\<lparr>tpidr := 0x500000, next_asid := 1\<rparr>"

theorem exec_stale_thread_pointer_witness:
  "\<exists>k' y. exec_swap 0x40080000 0x40090000 empty_image 0x400A0000 demo_tls = Some k' \<and> tasks k' 2 = Some y \<and>
     tpidr_el0 y = USER_TLS_BASE \<and> tpidr k' = 0x500000"
proof -
  have d: "current demo_tls = 2" "tpidr demo_tls = 0x500000" "next_asid demo_tls = 1" "\<exists>x. tasks demo_tls 2 = Some x \<and> vmas x = []"
    by (simp_all add: demo_tls_def demo_ring_def demo_boot_def zero_task_def)
  obtain k' where "exec_swap 0x40080000 0x40090000 empty_image 0x400A0000 demo_tls = Some k'"
    using d by (auto simp: exec_swap_def upd_task_def set_vm_def set_heap_def sched_asid_alloc_def Let_def)
  with exec_stale_thread_pointer [OF this] d show ?thesis by auto
qed

end
