(* ===== verification/Exec_Laws.thy ===== *)
theory Exec_Laws
  imports Exec Task_Free
begin

text \<open>
  The initial stack that \<^verbatim>\<open>sys_exec\<close> builds, read back: the argument count, the argument pointers
  and their strings, the empty environment and the auxiliary vector are where the new program looks
  for them, and every argument string is the one the caller passed.
\<close>

section \<open>Words in memory\<close>

lemma store64_at: "store64 m a v c = (if a \<le> c \<and> c < a + 8 then of_nat (v div 256 ^ (c - a)) else m c)"
proof -
  have "fold (\<lambda>i m. m(a + i := of_nat (v div 256 ^ i))) [0..<n] m c =
      (if a \<le> c \<and> c < a + n then of_nat (v div 256 ^ (c - a)) else m c)" for n
    by (induction n) auto
  then show ?thesis by (simp add: store64_def)
qed

lemma load64_bytes: "load64 m a = (\<Sum>i<8. unat (m (a + i)) * 256 ^ i)"
proof -
  have "{..<8} = {0, 1, 2, 3, 4, 5, 6, 7 :: nat}" by auto
  then show ?thesis by (simp add: load64_def load32_def load16_def numeral_3_eq_3 ac_simps)
qed

lemma digits_sum: "(\<Sum>i<n. (v div 256 ^ i mod 256) * 256 ^ i) = (v :: nat) mod 256 ^ n"
proof (induction n)
  case (Suc n)
  have "v mod (256 ^ n * 256) = 256 ^ n * (v div 256 ^ n mod 256) + v mod 256 ^ n" by (rule mod_mult2_eq)
  then show ?case using Suc by (simp add: mult.commute)
qed simp

lemma load_store_same: "load64 (store64 m a v) a = v mod 2 ^ 64"
proof -
  have "load64 (store64 m a v) a = (\<Sum>i<8. (v div 256 ^ i mod 256) * 256 ^ i)"
    unfolding load64_bytes by (rule sum.cong) (simp_all add: store64_at unsigned_of_nat take_bit_nat_def)
  also have "\<dots> = v mod 2 ^ 64" by (simp only: digits_sum) simp
  finally show ?thesis .
qed

lemma load_cong: "(\<And>i. i < 8 \<Longrightarrow> m' (a + i) = m (a + i)) \<Longrightarrow> load64 m' a = load64 m a"
  unfolding load64_bytes by (rule sum.cong) simp_all

text \<open>Consecutive words, and memory that agrees from an address on.\<close>

definition words_at :: "memory \<Rightarrow> nat \<Rightarrow> nat list \<Rightarrow> bool" where
  "words_at m base ws \<longleftrightarrow> (\<forall>i < length ws. load64 m (base + 8 * i) = ws ! i mod 2 ^ 64)"

definition same_from :: "nat \<Rightarrow> memory \<Rightarrow> memory \<Rightarrow> bool" where
  "same_from H m m' \<longleftrightarrow> (\<forall>c \<ge> H. m' c = m c)"

lemma words_store:
  assumes "words_at m base ws" and "a = base + 8 * length ws"
  shows "words_at (store64 m a v) base (ws @ [v])"
  unfolding words_at_def
proof (intro allI impI)
  fix i assume i: "i < length (ws @ [v])"
  show "load64 (store64 m a v) (base + 8 * i) = (ws @ [v]) ! i mod 2 ^ 64"
  proof (cases "i < length ws")
    case True
    then have "load64 (store64 m a v) (base + 8 * i) = load64 m (base + 8 * i)"
      using assms(2) by (intro load_cong) (auto simp: store64_at)
    then show ?thesis using assms(1) True by (simp add: words_at_def nth_append)
  next
    case False
    then have "i = length ws" using i by simp
    then show ?thesis using assms(2) by (simp add: load_store_same)
  qed
qed

lemma words_fold:
  "words_at m base ws \<Longrightarrow>
   words_at (fold (\<lambda>i m. store64 m (base + 8 * length ws + i * 8) (f i)) [0..<n] m) base (ws @ map f [0..<n])"
proof (induction n)
  case (Suc n)
  then show ?case using words_store [of _ base "ws @ map f [0..<n]" "base + 8 * length ws + n * 8" "f n"] by (simp add: add.assoc mult.commute)
qed simp

lemma same_from_store: "same_from H m0 m \<Longrightarrow> a + 8 \<le> H \<Longrightarrow> same_from H m0 (store64 m a v)"
  by (auto simp: same_from_def store64_at)

lemma same_from_refl: "same_from H m m"
  by (simp add: same_from_def)

lemma words_above: "words_at m base ws \<Longrightarrow> base + 8 * length ws \<le> a \<Longrightarrow> words_at (store64 m a v) base ws"
  unfolding words_at_def
proof (intro allI impI)
  fix i assume w: "\<forall>i < length ws. load64 m (base + 8 * i) = ws ! i mod 2 ^ 64" "base + 8 * length ws \<le> a" "i < length ws"
  then have "load64 (store64 m a v) (base + 8 * i) = load64 m (base + 8 * i)"
    by (intro load_cong) (auto simp: store64_at)
  then show "load64 (store64 m a v) (base + 8 * i) = ws ! i mod 2 ^ 64" using w by simp
qed

section \<open>The auxiliary vector\<close>

definition pair_words :: "(nat \<times> nat) list \<Rightarrow> nat list" where
  "pair_words es = concat (map (\<lambda>(t, v). [t, v]) es)"

lemma aux_fold:
  assumes "words_at m B ws" and "base + 16 * i = B + 8 * length ws" and "same_from H m0 m" and "base + 16 * (i + length es) \<le> H"
    and "fold (\<lambda>(t, v) mi. aux_put base mi t v) es (m, i) = (m', i')"
  shows "i' = i + length es \<and> words_at m' B (ws @ pair_words es) \<and> same_from H m0 m'"
  using assms
proof (induction es arbitrary: m i ws)
  case Nil
  then show ?case by (simp add: pair_words_def)
next
  case (Cons e es)
  obtain t v where e: "e = (t, v)" by fastforce
  let ?m1 = "store64 m (base + i * 16) t"
  let ?m2 = "store64 ?m1 (base + i * 16 + 8) v"
  have "words_at ?m1 B (ws @ [t])" by (rule words_store [OF Cons.prems(1)]) (use Cons.prems(2) in simp)
  then have "words_at ?m2 B ((ws @ [t]) @ [v])" by (rule words_store) (use Cons.prems(2) in simp)
  then have w: "words_at ?m2 B (ws @ [t, v])" by simp
  have "same_from H m0 ?m2" using Cons.prems(3,4) by (intro same_from_store) simp_all
  moreover have "fold (\<lambda>(t, v) mi. aux_put base mi t v) es (?m2, i + 1) = (m', i')"
    using Cons.prems(5) by (simp add: e aux_put_def)
  ultimately show ?case
    using Cons.IH [OF w, of "i + 1"] Cons.prems(2,4) by (simp add: pair_words_def e)
qed

lemma pad_fold:
  assumes "words_at m B ws" and "B + 8 * length ws \<le> base + 16 * ai" and "same_from H m0 m" and "base + 16 * n \<le> H"
  shows "words_at (fold (\<lambda>i m. store64 (store64 m (base + i * 16) 0) (base + i * 16 + 8) 0) [ai..<n] m) B ws \<and>
    same_from H m0 (fold (\<lambda>i m. store64 (store64 m (base + i * 16) 0) (base + i * 16 + 8) 0) [ai..<n] m)"
  using assms
proof (induction "n - ai" arbitrary: ai m)
  case (Suc d)
  then have lt: "ai < n" by simp
  have "words_at (store64 (store64 m (base + ai * 16) 0) (base + ai * 16 + 8) 0) B ws"
    using Suc.prems(1,2) by (intro words_above) simp_all
  moreover have "same_from H m0 (store64 (store64 m (base + ai * 16) 0) (base + ai * 16 + 8) 0)"
    using Suc.prems(3,4) lt by (intro same_from_store) simp_all
  ultimately show ?case
    using Suc.hyps(1) [of "Suc ai"] Suc.hyps(2) Suc.prems(2,4) lt by (simp add: upt_conv_Cons)
qed simp

lemma write_auxv_law:
  assumes "words_at m B ws" and "base = B + 8 * length ws" and "same_from H m0 m" and "base + 16 * aux_max \<le> H"
    and "length es \<le> aux_max"
  shows "words_at (write_auxv base es m) B (ws @ pair_words es)" and "same_from H m0 (write_auxv base es m)"
proof -
  obtain m1 ai where f: "fold (\<lambda>(t, v) mi. aux_put base mi t v) es (m, 0) = (m1, ai)" by fastforce
  have A: "ai = length es" "words_at m1 B (ws @ pair_words es)" "same_from H m0 m1"
    using aux_fold [OF assms(1) _ assms(3) _ f] assms(2,4,5) by simp_all
  have "length (pair_words es) = 2 * length es" by (induction es) (auto simp: pair_words_def)
  then have "B + 8 * length (ws @ pair_words es) \<le> base + 16 * ai" using assms(2) A(1) by simp
  from pad_fold [OF A(2) this A(3) assms(4)]
  show "words_at (write_auxv base es m) B (ws @ pair_words es)" "same_from H m0 (write_auxv base es m)"
    by (simp_all add: write_auxv_def f)
qed

section \<open>The layout\<close>

lemma stack_layout:
  assumes "argc \<le> 32" and "n \<le> 1024"
  shows "new_sp argc n mod 16 = 0" and "stack_user_lo \<le> new_sp argc n" and "new_sp argc n + auxv_base argc = strings_lo n"
    and "strings_lo n + n + 16 \<le> USER_STACK_TOP" and "auxv_off argc + 16 * aux_max \<le> auxv_base argc"
    and "stack_user_lo \<le> strings_lo n"
proof -
  define s where "s = (0x7FFFF0 - n) div 16"
  define b where "b = (auxv_off argc + aux_max * 16 + 15) div 16"
  have s: "strings_lo n = s * 16" "s * 16 + n + 16 \<le> 0x800000" "0x7FFFF0 - n < s * 16 + 16"
    unfolding s_def strings_lo_def using assms(2) by (simp_all add: USER_STACK_TOP_def aux_random_size_def)
  have b: "auxv_base argc = b * 16" "b \<le> 36" "auxv_off argc + 272 \<le> b * 16"
    unfolding b_def auxv_base_def using assms(1) by (simp_all add: auxv_off_def envp_off_def aux_max_def)
  have "b * 16 \<le> s * 16" using b(2) s(3) assms(2) by linarith
  then have sp: "new_sp argc n = s * 16 - b * 16"
    using s by (simp add: new_sp_def s(1) b(1) sub64_id)
  show "new_sp argc n mod 16 = 0" unfolding sp by (simp add: diff_mult_distrib [symmetric])
  show "stack_user_lo \<le> new_sp argc n"
    unfolding sp using s(3) b(2) assms(2) by (simp add: stack_user_lo_def USER_STACK_TOP_def USER_STACK_PAGES_def)
  then show "stack_user_lo \<le> strings_lo n" unfolding sp s(1) by linarith
  show "new_sp argc n + auxv_base argc = strings_lo n" unfolding sp s(1) b(1) using \<open>b * 16 \<le> s * 16\<close> by simp
  show "strings_lo n + n + 16 \<le> USER_STACK_TOP" using s by (simp add: USER_STACK_TOP_def)
  show "auxv_off argc + 16 * aux_max \<le> auxv_base argc" using b by (simp add: aux_max_def)
qed

lemma memset_at: "memset m d c n a = (if d \<le> a \<and> a < d + n then word_of_int c else m a)"
  unfolding memset_def by (induction n) auto

lemma write_argv_law:
  assumes "words_at m B ws" and "base = B + 8 * length ws" and "same_from H m0 m" and "base + 8 * (length offs + 1) \<le> H"
  shows "words_at (write_argv base str offs m) B (ws @ map (\<lambda>o'. str + o') offs @ [0])" and "same_from H m0 (write_argv base str offs m)"
proof -
  let ?m = "fold (\<lambda>i m. store64 m (base + i * 8) (str + offs ! i)) [0..<length offs] m"
  have l: "map (\<lambda>i. str + offs ! i) [0..<length offs] = map (\<lambda>o'. str + o') offs" by (rule nth_equalityI) simp_all
  have "words_at ?m B (ws @ map (\<lambda>o'. str + o') offs)"
    using words_fold [OF assms(1), of "\<lambda>i. str + offs ! i" "length offs"] by (simp add: assms(2) l)
  then have "words_at (store64 ?m (base + length offs * 8) 0) B ((ws @ map (\<lambda>o'. str + o') offs) @ [0])"
    by (rule words_store) (simp add: assms(2))
  then show "words_at (write_argv base str offs m) B (ws @ map (\<lambda>o'. str + o') offs @ [0])" by (simp add: write_argv_def)
  have "same_from H m0 (fold (\<lambda>i m. store64 m (base + i * 8) (str + offs ! i)) [0..<n] m)" if "n \<le> length offs" for n
    using that by (induction n) (use assms(3,4) in \<open>auto intro!: same_from_store\<close>)
  then show "same_from H m0 (write_argv base str offs m)" using assms(4) by (auto simp: write_argv_def intro!: same_from_store)
qed

text \<open>The bytes of the stack as the new program sees them, with \<open>kbase\<close> the kernel's alias of its lowest byte.\<close>

definition stack_words :: "elf_image \<Rightarrow> nat \<Rightarrow> nat list \<Rightarrow> nat list" where
  "stack_words img n offs =
     (let argc = length offs; lo = strings_lo n in
      argc # map (\<lambda>o'. lo + o') offs @ [0, 0] @ pair_words (aux_entries img argc (lo + n) lo))"

lemma build_stack_law:
  assumes "length offs \<le> 32" and "length blob \<le> 1024" and "length rnd \<le> 16"
    and m': "m' = build_stack kbase blob offs rnd img m" and lo_def: "lo = strings_lo (length blob)"
  shows "words_at m' (kbase + (new_sp (length offs) (length blob) - stack_user_lo)) (stack_words img (length blob) offs)"
    and "\<And>j. j < length blob \<Longrightarrow> m' (kbase + (lo - stack_user_lo) + j) = blob ! j"
    and "\<And>j. j < length rnd \<Longrightarrow> m' (kbase + (lo + length blob - stack_user_lo) + j) = rnd ! j"
proof -
  define argc where "argc = length offs"
  define sp0 where "sp0 = new_sp argc (length blob)"
  define spk where "spk = kbase + (sp0 - stack_user_lo)"
  define H where "H = kbase + (lo - stack_user_lo)"
  have argc: "argc \<le> 32" using assms(1) by (simp add: argc_def)
  note L = stack_layout [OF argc assms(2), folded sp0_def lo_def]
  have H: "spk + auxv_base argc = H" using L(2,3) by (simp add: spk_def H_def)
  have r: "kbase + (lo + length blob - stack_user_lo) = H + length blob" using L(6) by (simp add: H_def)
  define m2 where "m2 = write_blob (H + length blob) rnd (memset (write_blob H blob m) (H + length blob) 0 aux_random_size)"
  define m3 where "m3 = write_argv (spk + 8) lo offs (store64 m2 spk argc)"
  define m4 where "m4 = store64 m3 (spk + envp_off argc) 0"
  have run: "m' = write_auxv (spk + auxv_off argc) (aux_entries img argc (lo + length blob) lo) m4"
    by (simp add: m' build_stack_def Let_def m4_def m3_def m2_def r spk_def sp0_def argc_def [symmetric] lo_def [symmetric] H_def [symmetric])
  have room: "auxv_off argc + 16 * aux_max \<le> auxv_base argc" "auxv_off argc = 8 + 8 * (argc + 1) + 8"
    using L(5) by (simp_all add: auxv_off_def envp_off_def)
  have w1: "words_at (store64 m2 spk argc) spk [argc]" using words_store [of m2 spk "[]" spk argc] by (simp add: words_at_def)
  have s1: "same_from H m2 (store64 m2 spk argc)" by (rule same_from_store [OF same_from_refl]) (use H room in simp)
  have W3: "words_at m3 spk ([argc] @ map (\<lambda>o'. lo + o') offs @ [0])" "same_from H m2 m3"
    unfolding m3_def by (rule write_argv_law [OF w1 _ s1]; use H room in \<open>simp add: argc_def\<close>)+
  have w4: "words_at m4 spk (([argc] @ map (\<lambda>o'. lo + o') offs @ [0]) @ [0])"
    unfolding m4_def by (rule words_store [OF W3(1)]) (simp add: envp_off_def argc_def)
  have s4: "same_from H m2 m4" unfolding m4_def by (rule same_from_store [OF W3(2)]) (use H room in \<open>simp add: envp_off_def\<close>)
  have l4: "length (aux_entries img argc (lo + length blob) lo) \<le> aux_max" by (simp add: aux_entries_def aux_max_def)
  have F: "words_at m' spk ((([argc] @ map (\<lambda>o'. lo + o') offs @ [0]) @ [0]) @ pair_words (aux_entries img argc (lo + length blob) lo))"
    "same_from H m2 m'"
    unfolding run by (rule write_auxv_law [OF w4 _ s4 _ l4]; use H room in \<open>simp add: argc_def\<close>)+
  show "words_at m' (kbase + (new_sp (length offs) (length blob) - stack_user_lo)) (stack_words img (length blob) offs)"
    using F(1) by (simp add: stack_words_def Let_def spk_def sp0_def argc_def lo_def)
  show "m' (kbase + (lo - stack_user_lo) + j) = blob ! j" if "j < length blob" for j
    using F(2) that by (simp add: same_from_def H_def [symmetric] m2_def write_blob_def memset_at)
  show "m' (kbase + (lo + length blob - stack_user_lo) + j) = rnd ! j" if "j < length rnd" for j
    using F(2) that unfolding r by (simp add: same_from_def m2_def write_blob_def)
qed

section \<open>Capturing the arguments\<close>

lemma those_map: "those (map f xs) = Some ys \<longleftrightarrow> map f xs = map Some ys"
proof (induction xs arbitrary: ys)
  case (Cons x xs)
  then show ?case by (cases ys; cases "f x") auto
qed auto

lemma load_bytes_Some: "load_bytes k p n = Some bs \<longleftrightarrow> length bs = n \<and> (\<forall>i < n. va_load k (p + i) = Some (bs ! i))"
  unfolding load_bytes_def those_map by (auto simp: list_eq_iff_nth_eq)

text \<open>A terminated string in user memory.\<close>

definition cstring_at :: "('w, 'z) machine_scheme \<Rightarrow> nat \<Rightarrow> 8 word list \<Rightarrow> bool" where
  "cstring_at k p s \<longleftrightarrow> load_bytes k p (length s + 1) = Some (s @ [0]) \<and> 0 \<notin> set s"

lemma str_scan_law:
  assumes "str_scan k p i n = Some r" and "0 \<le> r"
  shows "\<exists>s. r = int (i + length s) \<and> cstring_at k (p + i) s"
  using assms
proof (induction n arbitrary: i)
  case (Suc n)
  then obtain c where c: "va_load k (p + i) = Some c" by (auto split: option.splits)
  show ?case
  proof (cases "c = 0")
    case True
    then show ?thesis using Suc.prems c by (intro exI [of _ "[]"]) (simp add: cstring_at_def load_bytes_Some)
  next
    case False
    then have "str_scan k p (Suc i) n = Some r" using Suc.prems c by simp
    then obtain s where s: "r = int (Suc i + length s)" "cstring_at k (p + Suc i) s" using Suc.IH Suc.prems(2) by blast
    have "va_load k (p + i + j) = Some ((c # s @ [0]) ! j)" if "j < length s + 2" for j
      using that c s(2) by (cases j) (auto simp: cstring_at_def load_bytes_Some)
    then have "cstring_at k (p + i) (c # s)" using False s(2) by (simp add: cstring_at_def load_bytes_Some)
    then show ?thesis using s(1) by (intro exI [of _ "c # s"]) simp
  qed
qed simp

lemma user_str_ok_law: "user_str_ok k p = Some r \<Longrightarrow> 0 \<le> r \<Longrightarrow> \<exists>s. r = int (length s) \<and> cstring_at k p s"
  using str_scan_law [of k p 0] by (auto simp: user_str_ok_def split: if_splits)

definition packed :: "8 word list list \<Rightarrow> 8 word list" where
  "packed ss = concat (map (\<lambda>s. s @ [0]) ss)"

text \<open>The \<open>i\<close>-th argument of the caller is the string \<open>s\<close>.\<close>

definition caller_arg :: "('w, 'z) machine_scheme \<Rightarrow> nat \<Rightarrow> nat \<Rightarrow> 8 word list \<Rightarrow> bool" where
  "caller_arg k argv i s \<longleftrightarrow> (\<exists>p. load_word k (u64 (argv + i * 8)) = Some p \<and> p \<noteq> 0 \<and> cstring_at k p s)"

lemma exec_args_law:
  assumes "exec_args k argv n blob offs = Some (Some (blob', offs'))" and "length blob \<le> 1024"
  shows "\<exists>ss. blob' = blob @ packed ss \<and> length ss \<le> n \<and> length blob' \<le> 1024 \<and>
    offs' = offs @ map (\<lambda>i. length blob + length (packed (take i ss))) [0..<length ss] \<and>
    (\<forall>i < length ss. caller_arg k argv (length offs + i) (ss ! i)) \<and>
    (length ss = n \<or> load_word k (u64 (argv + (length offs + length ss) * 8)) = Some 0)"
  using assms
proof (induction n arbitrary: blob offs)
  case 0
  then show ?case by (intro exI [of _ "[]"]) (simp add: packed_def)
next
  case (Suc n)
  let ?va = "u64 (argv + length offs * 8)"
  from Suc.prems obtain p where p: "load_word k ?va = Some p" by (auto simp: Let_def split: if_splits bind_splits)
  show ?case
  proof (cases "p = 0")
    case True
    then show ?thesis using Suc.prems p by (intro exI [of _ "[]"]) (auto simp: packed_def Let_def split: if_splits)
  next
    case False
    with Suc.prems(1) p obtain len bs where l: "user_str_ok k p = Some len" "0 \<le> len" "length blob + nat len + 1 \<le> 1024"
      "load_bytes k p (nat len + 1) = Some bs" "exec_args k argv n (blob @ bs) (offs @ [length blob]) = Some (Some (blob', offs'))"
      by (auto simp: Let_def EXEC_ARG_BYTES_MAX_def split: if_splits bind_splits)
    obtain s where s: "len = int (length s)" "cstring_at k p s" using user_str_ok_law [OF l(1,2)] by blast
    have bs: "bs = s @ [0]" using l(4) s by (simp add: cstring_at_def)
    have "length (blob @ bs) \<le> 1024" using l(3) s(1) bs by simp
    from Suc.IH [OF l(5) this] obtain ss where ss: "blob' = (blob @ bs) @ packed ss" "length ss \<le> n" "length blob' \<le> 1024"
      "offs' = (offs @ [length blob]) @ map (\<lambda>i. length (blob @ bs) + length (packed (take i ss))) [0..<length ss]"
      "\<And>i. i < length ss \<Longrightarrow> caller_arg k argv (length (offs @ [length blob]) + i) (ss ! i)"
      "length ss = n \<or> load_word k (u64 (argv + (length (offs @ [length blob]) + length ss) * 8)) = Some 0"
      by blast
    have 0: "caller_arg k argv (length offs) s" using p False s(2) by (auto simp: caller_arg_def)
    have arg: "caller_arg k argv (length offs + i) ((s # ss) ! i)" if "i < Suc (length ss)" for i
      using that ss(5) 0 by (cases i) auto
    have "map (\<lambda>i. length blob + length (packed (take i (s # ss)))) [0..<Suc (length ss)] =
        length blob # map (\<lambda>i. length (blob @ bs) + length (packed (take i ss))) [0..<length ss]"
      unfolding upt_conv_Cons [OF zero_less_Suc] map_Suc_upt [symmetric] by (simp add: packed_def bs)
    then show ?thesis
      by (intro exI [of _ "s # ss"] conjI allI impI) (use ss(1-4,6) bs arg in \<open>simp_all add: packed_def\<close>)
  qed
qed

lemma packed_nth:
  assumes "i < length ss" and "j \<le> length (ss ! i)"
  shows "packed ss ! (length (packed (take i ss)) + j) = (ss ! i @ [0]) ! j"
    and "length (packed (take i ss)) + j < length (packed ss)"
proof -
  have "ss = take i ss @ ss ! i # drop (Suc i) ss" using assms(1) by (simp add: id_take_nth_drop)
  then have "packed ss = packed (take i ss) @ (ss ! i @ [0]) @ packed (drop (Suc i) ss)"
    by (metis (no_types, lifting) append_Cons concat.simps(2) concat_append list.simps(9) map_append packed_def)
  then show "packed ss ! (length (packed (take i ss)) + j) = (ss ! i @ [0]) ! j"
    "length (packed (take i ss)) + j < length (packed ss)"
    using assms(2) by (simp_all add: nth_append)
qed

section \<open>Properties\<close>

text \<open>
  C7. The initial stack of an executed program. Whatever arguments the caller passes, if they are
  accepted the stack pointer is 16-byte aligned and inside the stack pages, the words from it on are
  the argument count, one pointer per argument and a null, an empty environment, and the auxiliary
  vector with its terminator, and each pointer leads to a copy of the corresponding string of the
  caller, terminator included. The caller's vector was taken up to its null or to 32 arguments.
\<close>
theorem exec_passes_arguments:
  assumes "capture_argv k argv = Some (Some (blob, offs))" and "argv \<noteq> 0" and "length rnd \<le> 16"
  shows "new_sp (length offs) (length blob) mod 16 = 0 \<and> stack_user_lo \<le> new_sp (length offs) (length blob) \<and>
    strings_lo (length blob) + length blob + 16 \<le> USER_STACK_TOP \<and>
    words_at (build_stack kbase blob offs rnd img m) (kbase + (new_sp (length offs) (length blob) - stack_user_lo))
      (stack_words img (length blob) offs) \<and>
    (\<forall>i < length offs. \<exists>s. caller_arg k argv i s \<and>
       (\<forall>j \<le> length s. build_stack kbase blob offs rnd img m (kbase + (strings_lo (length blob) + offs ! i - stack_user_lo) + j) =
          (s @ [0]) ! j)) \<and>
    (length offs = 32 \<or> load_word k (u64 (argv + length offs * 8)) = Some 0)"
proof -
  have "exec_args k argv 32 [] [] = Some (Some (blob, offs))"
    using assms(1,2) by (simp add: capture_argv_def EXEC_MAX_ARGC_def)
  from exec_args_law [OF this] obtain ss where ss: "blob = packed ss" "length ss \<le> 32" "length blob \<le> 1024"
    "offs = map (\<lambda>i. length (packed (take i ss))) [0..<length ss]"
    "\<And>i. i < length ss \<Longrightarrow> caller_arg k argv i (ss ! i)" "length ss = 32 \<or> load_word k (u64 (argv + length ss * 8)) = Some 0"
    by auto
  have argc: "length offs = length ss" "length offs \<le> 32" using ss(2,4) by simp_all
  note L = stack_layout [OF argc(2) ss(3)]
  note B = build_stack_law [where kbase = kbase and img = img and m = m, OF argc(2) ss(3) assms(3) refl refl]
  have "\<exists>s. caller_arg k argv i s \<and> (\<forall>j \<le> length s. build_stack kbase blob offs rnd img m
      (kbase + (strings_lo (length blob) + offs ! i - stack_user_lo) + j) = (s @ [0]) ! j)" if "i < length offs" for i
  proof (intro exI conjI allI impI)
    have i: "i < length ss" using that argc(1) by simp
    then show "caller_arg k argv i (ss ! i)" by (rule ss(5))
    fix j assume j: "j \<le> length (ss ! i)"
    have o: "offs ! i = length (packed (take i ss))" using ss(4) i by simp
    have "kbase + (strings_lo (length blob) + offs ! i - stack_user_lo) + j = kbase + (strings_lo (length blob) - stack_user_lo) + (offs ! i + j)"
      using L(6) by simp
    moreover have "offs ! i + j < length blob" using packed_nth(2) [OF i j] o ss(1) by simp
    ultimately have "build_stack kbase blob offs rnd img m (kbase + (strings_lo (length blob) + offs ! i - stack_user_lo) + j) = blob ! (offs ! i + j)"
      using B(2) [of "offs ! i + j"] by (simp only:)
    also have "\<dots> = (ss ! i @ [0]) ! j" using packed_nth(1) [OF i j] o ss(1) by simp
    finally show "build_stack kbase blob offs rnd img m (kbase + (strings_lo (length blob) + offs ! i - stack_user_lo) + j) = (ss ! i @ [0]) ! j" .
  qed
  then show ?thesis using L(1,2,4) B(1) ss(6) argc(1) by auto
qed

text \<open>
  The witness: one page of user memory at \<open>0x400000\<close> that holds an argument vector with the single
  string \<open>a\<close>.
\<close>

definition demo_args :: "unit kernel" where
  "demo_args = demo_fault\<lparr>mm := demo_mmu\<lparr>
       tables := (\<lambda>t i. if t = 0x1000 then table_entry 0x2000 else if t = 0x2000 then table_entry 0x3000
         else if t = 0x3000 then table_entry 0x4000 else page_entry 0x40010000 0),
       regs := (regs demo_mmu)\<lparr>ttbr0_el1 := 0x1000\<rparr>\<rparr>,
     ram := (store64 (\<lambda>_. 0) (phys_to_virt 0x40010000) 0x400010)(phys_to_virt 0x40010010 := 97)\<rparr>"

lemma demo_args_load:
  assumes "i < 4096"
  shows "va_load demo_args (0x400000 + i) = Some (if i = 0 then 16 else if i = 2 then 64 else if i = 16 then 97 else 0)"
proof -
  have a: "active_l0 demo_args = 0x1000" by (simp add: active_l0_def demo_args_def ttbr_baddr_def TTBR_BADDR_MASK_def)
  have "tbl (k_mmu demo_args) 0x1000 (va_path (0x400000 + i)) = Some 0x4000"
    by (simp add: va_path_def k_mmu_def demo_args_def next_table_entry)
  then have "pte (k_mmu demo_args) 0x1000 (0x400000 + i) = Some (page_entry 0x40010000 0)"
    by (simp add: pte_def k_mmu_def demo_args_def)
  then have t: "translate (k_mmu demo_args) 0x1000 (0x400000 + i) = Some (0x40010000 + i)"
    using assms mod_mult_self3 [of 1024 4096 i] by (simp add: translate_def page_entry_addr)
  have p: "phys_to_virt (0x40010000 + i) = 0xFFFF000040010000 + i" "phys_to_virt 0x40010000 = 0xFFFF000040010000"
    "phys_to_virt 0x40010010 = 0xFFFF000040010010"
    using assms by (simp_all add: phys_to_virt_def u64_def KERNEL_VA_OFFSET_def)
  have b: "i < 8 \<Longrightarrow> i = 0 \<or> i = 1 \<or> i = 2 \<or> i = 3 \<or> i = 4 \<or> i = 5 \<or> i = 6 \<or> i = 7" by linarith
  have "ram demo_args (0xFFFF000040010000 + i) = (if i = 0 then 16 else if i = 2 then 64 else if i = 16 then 97 else 0)"
    using b by (cases "i < 8") (auto simp: demo_args_def p store64_at)
  moreover have "\<not> KERNEL_VA_OFFSET \<le> 0x400000 + i" using assms by (simp add: KERNEL_VA_OFFSET_def)
  ultimately show ?thesis by (simp add: va_load_def a t p)
qed

lemma demo_args_at:
  assumes "0x400000 \<le> va" and "va < 0x401000"
  shows "va_load demo_args va = Some (if va = 0x400000 then 16 else if va = 0x400002 then 64 else if va = 0x400010 then 97 else 0)"
  using demo_args_load [of "va - 0x400000"] assms by (auto split: if_splits)

lemma demo_capture: "capture_argv demo_args 0x400000 = Some (Some ([97, 0], [0]))"
proof -
  have w: "load_word demo_args 0x400000 = Some 0x400010" "load_word demo_args 0x400008 = Some 0"
    by (simp_all add: load_word_def load_bytes_def demo_args_at le_nat_def)
  have b: "load_bytes demo_args 0x400010 2 = Some [97, 0]" by (simp add: load_bytes_def demo_args_at)
  have "user_str_ok demo_args 0x400010 = str_scan demo_args 0x400010 0 (Suc (Suc 4094))"
    by (simp add: user_str_ok_def USER_VA_TOP_def USER_PATH_MAX_def)
  also have "\<dots> = Some 1" by (simp only: str_scan.simps) (simp add: demo_args_at)
  finally have s: "user_str_ok demo_args 0x400010 = Some 1" .
  have "capture_argv demo_args 0x400000 = exec_args demo_args 0x400000 (Suc (Suc 30)) [] []"
    by (simp add: capture_argv_def EXEC_MAX_ARGC_def)
  also have "\<dots> = Some (Some ([97, 0], [0]))"
    by (simp only: exec_args.simps) (simp add: w b s user_buf_ok_def u64_def USER_VA_TOP_def EXEC_ARG_BYTES_MAX_def nat_eq_iff numeral_2_eq_2 [symmetric])
  finally show ?thesis .
qed

theorem exec_passes_arguments_witness:
  "words_at (build_stack 0xFFFF000050000000 [97, 0] [0] [] empty_image (\<lambda>_. 0)) 0xFFFF000050003EB0
     (stack_words empty_image 2 [0]) \<and>
   (\<exists>s. caller_arg demo_args 0x400000 0 s \<and>
      build_stack 0xFFFF000050000000 [97, 0] [0] [] empty_image (\<lambda>_. 0) 0xFFFF000050003FE0 = (s @ [0]) ! 0)"
proof -
  have l: "new_sp 1 2 - stack_user_lo = 0x3EB0" "strings_lo 2 - stack_user_lo = 0x3FE0"
    by (simp_all add: new_sp_def strings_lo_def stack_user_lo_def auxv_base_def auxv_off_def envp_off_def aux_max_def
        aux_random_size_def USER_STACK_TOP_def USER_STACK_PAGES_def sub64_def)
  note E = exec_passes_arguments [OF demo_capture, of "[]" "0xFFFF000050000000" empty_image "\<lambda>_. 0"]
  obtain s where "caller_arg demo_args 0x400000 0 s" "\<And>j. j \<le> length s \<Longrightarrow>
      build_stack 0xFFFF000050000000 [97, 0] [0] [] empty_image (\<lambda>_. 0) (0xFFFF000050003FE0 + j) = (s @ [0]) ! j"
    using E l(2) by (auto simp: numeral_2_eq_2)
  moreover have "words_at (build_stack 0xFFFF000050000000 [97, 0] [0] [] empty_image (\<lambda>_. 0)) 0xFFFF000050003EB0 (stack_words empty_image 2 [0])"
    using E l(1) by (auto simp: numeral_2_eq_2)
  ultimately show ?thesis by (metis add_0_right le0)
qed

end
