(* ===== verification/Spec2Isabelle.thy ===== *)
theory Spec2Isabelle
  imports Vma Mmu Strings Fd Fat32_Laws Trap_Laws Exec_Laws
begin

text \<open>
  Verification of the fermi-os kernel (an AArch64 kernel in C). The theories follow the source
  tree: \<open>Prelude\<close> (machine integers, page rounding), \<open>Interfaces\<close> (the contracts one
  component relies on from another) and one theory per component.

  \<^item> \<open>Pmm\<close>: \<^verbatim>\<open>src/src/mm/pmm/pmm.c\<close>, the frame bitmap.
\<close>

end
